(* ===== verification/Cursus_Prelude.thy ===== *)
theory Cursus_Prelude
  imports Main "HOL-Library.Word" "HOL-Library.AList" "HOL-Library.Char_ord" "HOL-Library.List_Lexorder"
begin

unbundle bit_operations_syntax

section \<open>Shared types and lemmas of the broker model\<close>

text \<open>
  What every component of the model uses:
  \<^item> Go's fixed-width integers as words. An unsigned type is the word itself; a signed type is the
    same word, compared and printed through \<^const>\<open>sint\<close>, so that conversions between the two are
    the identity on bits, as in Go;
  \<^item> \<open>encoding/binary.BigEndian\<close> as \<open>put_be\<close> and \<open>get_be\<close>;
  \<^item> Go strings as \<^typ>\<open>string\<close> (a list of 8-bit characters), with the conversion to and from
    \<open>[]byte\<close>;
  \<^item> Go maps as association lists with distinct keys: the list order is the order in which
    a \<open>for range\<close> loop of the runtime visits the map;
  \<^item> \<open>time.Time\<close> as an integer number of nanoseconds since the zero time of package \<open>time\<close>.
\<close>

type_synonym byte = "8 word"
type_synonym bytes = "byte list"
type_synonym u16 = "16 word"
type_synonym u32 = "32 word"
type_synonym u64 = "64 word"
type_synonym i16 = "16 word"
type_synonym i32 = "32 word"
type_synonym i64 = "64 word"

type_synonym ('k, 'v) gomap = "('k \<times> 'v) list"

type_synonym instant = int

named_theorems be_simps \<open>big-endian layout of fixed-width fields\<close>
named_theorems gomap_simps \<open>lookup after update and delete of a Go map\<close>

subsection \<open>Big-endian integers\<close>

primrec put_be :: "nat \<Rightarrow> 'a::len word \<Rightarrow> bytes" where
  "put_be 0 v = []"
| "put_be (Suc k) v = ucast (drop_bit (8 * k) v) # put_be k v"

primrec get_be :: "bytes \<Rightarrow> 'a::len word" where
  "get_be [] = 0"
| "get_be (b # bs) = push_bit (8 * length bs) (ucast b) OR get_be bs"

subsection \<open>Strings and bytes\<close>

definition byte_of_char :: "char \<Rightarrow> byte" where
  "byte_of_char c = word_of_nat (of_char c)"

definition char_of_byte :: "byte \<Rightarrow> char" where
  "char_of_byte b = char_of (unat b)"

definition bytes_of_string :: "string \<Rightarrow> bytes" where
  "bytes_of_string s = map byte_of_char s"

definition string_of_bytes :: "bytes \<Rightarrow> string" where
  "string_of_bytes bs = map char_of_byte bs"

subsection \<open>Go maps\<close>

definition mput :: "'k \<Rightarrow> 'v \<Rightarrow> ('k, 'v) gomap \<Rightarrow> ('k, 'v) gomap" where
  "mput k v m = AList.update k v m"

definition mdel :: "'k \<Rightarrow> ('k, 'v) gomap \<Rightarrow> ('k, 'v) gomap" where
  "mdel k m = AList.delete k m"

definition mkeys :: "('k, 'v) gomap \<Rightarrow> 'k list" where
  "mkeys m = map fst m"

definition mvals :: "('v \<Rightarrow> 'w) \<Rightarrow> ('k, 'v) gomap \<Rightarrow> ('k, 'w) gomap" where
  "mvals f m = map (\<lambda>(k, v). (k, f v)) m"

definition mwf :: "('k, 'v) gomap \<Rightarrow> bool" where
  "mwf m = distinct (map fst m)"

subsection \<open>Lemmas on big-endian integers\<close>

lemma length_put_be [simp, be_simps]: "length (put_be k v) = k"
  by (induction k) auto

lemma get_put_be_take: "get_be (put_be k v) = take_bit (8 * k) v"
proof (induction k)
  case (Suc k)
  show ?case
    by (rule bit_word_eqI) (auto simp: Suc.IH bit_simps)
qed simp

lemma get_put_be: "8 * k = LENGTH('a) \<Longrightarrow> get_be (put_be k v) = (v :: 'a::len word)"
  by (simp add: get_put_be_take)

lemma get_put_u16 [simp, be_simps]: "get_be (put_be 2 v) = (v :: u16)"
  by (rule get_put_be) simp

lemma get_put_u32 [simp, be_simps]: "get_be (put_be 4 v) = (v :: u32)"
  by (rule get_put_be) simp

lemma get_put_u64 [simp, be_simps]: "get_be (put_be 8 v) = (v :: u64)"
  by (rule get_put_be) simp

lemma get_be_bit: "bit (get_be bs :: 'a::len word) n \<Longrightarrow> n < 8 * length bs"
proof (induction bs)
  case (Cons b bs)
  then show ?case
    using bit_imp_le_length [of b "n - 8 * length bs"] by (auto simp: bit_simps)
qed simp

lemma put_be_OR: "(\<And>n. n < 8 * k \<Longrightarrow> \<not> bit w n) \<Longrightarrow> put_be k (w OR v) = put_be k v"
  by (induction k) (auto simp: bit_simps intro!: bit_word_eqI)

lemma put_get_be:
  "8 * length bs \<le> LENGTH('a) \<Longrightarrow> put_be (length bs) (get_be bs :: 'a::len word) = bs"
proof (induction bs)
  case (Cons b bs)
  have hd: "ucast (drop_bit (8 * length bs) (get_be (b # bs) :: 'a word)) = b"
    using Cons.prems by (intro bit_word_eqI) (auto simp: bit_simps dest: get_be_bit)
  have "put_be (length bs) (get_be (b # bs) :: 'a word) = put_be (length bs) (get_be bs :: 'a word)"
    by (simp, rule put_be_OR) (auto simp: bit_simps)
  with hd Cons show ?case by simp
qed simp

lemma put_get_u16: "length bs = 2 \<Longrightarrow> put_be 2 (get_be bs :: u16) = bs"
  using put_get_be [of bs, where 'a = 16] by simp

lemma put_get_u32: "length bs = 4 \<Longrightarrow> put_be 4 (get_be bs :: u32) = bs"
  using put_get_be [of bs, where 'a = 32] by simp

lemma put_get_u64: "length bs = 8 \<Longrightarrow> put_be 8 (get_be bs :: u64) = bs"
  using put_get_be [of bs, where 'a = 64] by simp

subsection \<open>Lemmas on strings and bytes\<close>

lemma char_of_byte_of_char [simp]: "char_of_byte (byte_of_char c) = c"
  by (simp add: char_of_byte_def byte_of_char_def unat_of_nat)

lemma byte_of_char_of_byte [simp]: "byte_of_char (char_of_byte b) = b"
proof -
  have "unat b mod 256 = unat b"
    using unsigned_less [of b, where 'a = nat] by simp
  then show ?thesis
    by (simp add: char_of_byte_def byte_of_char_def)
qed

lemma string_of_bytes_of_string [simp]: "string_of_bytes (bytes_of_string s) = s"
  by (simp add: string_of_bytes_def bytes_of_string_def comp_def)

lemma bytes_of_string_of_bytes [simp]: "bytes_of_string (string_of_bytes bs) = bs"
  by (simp add: string_of_bytes_def bytes_of_string_def comp_def)

lemma length_bytes_of_string [simp]: "length (bytes_of_string s) = length s"
  by (simp add: bytes_of_string_def)

lemma length_string_of_bytes [simp]: "length (string_of_bytes bs) = length bs"
  by (simp add: string_of_bytes_def)

subsection \<open>Lemmas on Go maps\<close>

lemma map_of_mput [simp, gomap_simps]: "map_of (mput k v m) = (map_of m)(k \<mapsto> v)"
  by (simp add: mput_def update_conv')

lemma map_of_mdel [simp, gomap_simps]: "map_of (mdel k m) = (map_of m)(k := None)"
  by (simp add: mdel_def delete_conv')

lemma map_of_mvals [simp, gomap_simps]: "map_of (mvals f m) k = map_option f (map_of m k)"
  by (induction m) (auto simp: mvals_def)

lemma mwf_Nil [simp]: "mwf []"
  by (simp add: mwf_def)

lemma mwf_mput [simp, intro]: "mwf m \<Longrightarrow> mwf (mput k v m)"
  by (simp add: mwf_def mput_def distinct_update)

lemma mwf_mdel [simp, intro]: "mwf m \<Longrightarrow> mwf (mdel k m)"
  by (simp add: mwf_def mdel_def distinct_delete)

lemma mwf_mvals [simp]: "mwf (mvals f m) = mwf m"
  by (simp add: mwf_def mvals_def case_prod_beta' comp_def)

lemma set_mkeys: "set (mkeys m) = dom (map_of m)"
  by (simp add: mkeys_def dom_map_of_conv_image_fst)

lemma mwf_in_set: "mwf m \<Longrightarrow> (k, v) \<in> set m \<longleftrightarrow> map_of m k = Some v"
  by (simp add: mwf_def)

subsection \<open>Fencing tokens\<close>

text \<open>
  The contract of a component that fences its clients with a token that only moves forward: whatever is
  accepted carries the current token, so a client that has been overtaken stays shut out for good.
\<close>

locale fencing =
  fixes inv :: "'s \<Rightarrow> bool"
    and step :: "'s \<Rightarrow> 's \<Rightarrow> bool"
    and token :: "'s \<Rightarrow> 't::linorder"
    and accepts :: "'s \<Rightarrow> 't \<Rightarrow> bool"
  assumes inv_step: "inv s \<Longrightarrow> step s s' \<Longrightarrow> inv s'"
    and token_mono: "inv s \<Longrightarrow> step s s' \<Longrightarrow> token s \<le> token s'"
    and accepts_current: "inv s \<Longrightarrow> accepts s t \<Longrightarrow> t = token s"
begin

lemma steps_mono: "step\<^sup>*\<^sup>* s s' \<Longrightarrow> inv s \<Longrightarrow> inv s' \<and> token s \<le> token s'"
  by (induction rule: rtranclp_induct) (auto intro: inv_step dest: token_mono order_trans)

lemma overtaken_rejected: "step\<^sup>*\<^sup>* s s' \<Longrightarrow> inv s \<Longrightarrow> t < token s \<Longrightarrow> \<not> accepts s' t"
  using accepts_current steps_mono by (metis leD)

lemma accepted_in_between:
  assumes "step\<^sup>*\<^sup>* s s1" "step\<^sup>*\<^sup>* s1 s'" "inv s" "accepts s t" "accepts s' t"
  shows "token s1 = t"
proof -
  from steps_mono [OF assms(1,3)] have "inv s1" "token s \<le> token s1" by simp_all
  moreover from steps_mono [OF assms(2) this(1)] have "inv s'" "token s1 \<le> token s'" by simp_all
  moreover have "t = token s" "t = token s'" using accepts_current assms(3-5) \<open>inv s'\<close> by simp_all
  ultimately show ?thesis by simp
qed

end

end
