(* ===== verification/Wire_Binary.thy ===== *)
theory Wire_Binary
  imports Cursus_Prelude
begin

section \<open>Binary fields of the Wire v2 protocol\<close>

text \<open>
  \<open>pkg/wire/record.go\<close>: \<open>binaryEncoder\<close> and \<open>binaryDecoder\<close>, the sticky-error writer and reader every
  Wire v2 payload is built with, and the length-prefixed framing of \<open>pkg/wire/io.go\<close>.

  An encoder method is a function from encoder to encoder; once \<open>err\<close> is set every later method is a
  no-op, as in the code. A decoder method returns the value it read and the decoder after it.
  \<open>d.data[d.pos:]\<close>, the part still to be read, is the field \<open>dec_rest\<close>.

  The locale \<open>wire_field\<close> states the contract between the two halves of a field: what the encoder
  writes is \<open>layout x\<close>, and the decoder reads \<open>layout x\<close> back as \<open>x\<close>, whatever follows it.
  The clients' lemmas (optional fields, repeated fields) are proved once inside it.
\<close>

datatype wire_error =
    EncodedTooLarge                \<comment> \<open>encoded payload exceeds maximum\<close>
  | FieldTooLong                   \<comment> \<open>field length exceeds uint32\<close>
  | PayloadTooLarge                \<comment> \<open>payload size exceeds maximum (decoder)\<close>
  | TruncatedField                 \<comment> \<open>truncated binary field\<close>
  | FieldExceedsPayload            \<comment> \<open>field length exceeds remaining payload\<close>
  | TrailingBytes                  \<comment> \<open>binary payload has trailing bytes\<close>
  | PartitionOutOfRange
  | InvalidTransactionState
  | InvalidTransactionMarker
  | InvalidControlBatchType
  | UnsupportedVersion
  | UnknownPresenceBits
  | TooManyMessages
  | InvalidAcks
  | BadMagic
  | UnknownFlags
  | RoutingConflict
  | RecordError nat wire_error     \<comment> \<open>encode or decode of message number n\<close>
  | InvalidVersionRange
  | InvalidPreferenceCount
  | UnsupportedCompression
  | DuplicateCompression
  | NoMutualCompression
  | InvalidNegotiationResponse
  | InvalidErrorCode
  | TooManyErrorFields
  | EmptyErrorField
  | InvalidRetryableFlag
  | DuplicateErrorField
  | TooManyArguments
  | DuplicateFieldOrder
  | MissingOrderedField
  | InvalidCommandField
  | InvalidPositional
  | DuplicateCommandField
  | NilPayload
  | UnexpectedEOF

definition MaxFramePayload :: nat where
  "MaxFramePayload = 64 * 1024 * 1024"

definition MaxUint32 :: nat where
  "MaxUint32 = 4294967295"

subsection \<open>The encoder\<close>

record binaryEncoder =
  enc_data :: bytes
  enc_limit :: nat
  enc_err :: "wire_error option"

definition newBinaryEncoder :: "nat \<Rightarrow> binaryEncoder" where
  "newBinaryEncoder limit = \<lparr>enc_data = [], enc_limit = limit, enc_err = None\<rparr>"

text \<open>
  \<open>append(size)\<close> reserves \<open>size\<close> bytes and returns the slice the caller fills in. The caller's bytes
  are the argument here, so reserving and filling are one step.
\<close>

definition enc_append :: "bytes \<Rightarrow> binaryEncoder \<Rightarrow> binaryEncoder" where
  "enc_append field e =
     (if enc_err e \<noteq> None then e
      else if length (enc_data e) + length field > enc_limit e
      then e\<lparr>enc_err := Some EncodedTooLarge\<rparr>
      else e\<lparr>enc_data := enc_data e @ field\<rparr>)"

definition enc_byte :: "byte \<Rightarrow> binaryEncoder \<Rightarrow> binaryEncoder" where
  "enc_byte v = enc_append [v]"

definition enc_uint16 :: "u16 \<Rightarrow> binaryEncoder \<Rightarrow> binaryEncoder" where
  "enc_uint16 v = enc_append (put_be 2 v)"

definition enc_uint32 :: "u32 \<Rightarrow> binaryEncoder \<Rightarrow> binaryEncoder" where
  "enc_uint32 v = enc_append (put_be 4 v)"

definition enc_uint64 :: "u64 \<Rightarrow> binaryEncoder \<Rightarrow> binaryEncoder" where
  "enc_uint64 v = enc_append (put_be 8 v)"

definition enc_bytes :: "bytes \<Rightarrow> binaryEncoder \<Rightarrow> binaryEncoder" where
  "enc_bytes v e =
     (if length v > MaxUint32 then e\<lparr>enc_err := Some FieldTooLong\<rparr>
      else enc_append v (enc_uint32 (word_of_nat (length v)) e))"

definition enc_string :: "string \<Rightarrow> binaryEncoder \<Rightarrow> binaryEncoder" where
  "enc_string s = enc_bytes (bytes_of_string s)"

definition enc_result :: "binaryEncoder \<Rightarrow> wire_error + bytes" where
  "enc_result e = (case enc_err e of Some err \<Rightarrow> Inl err | None \<Rightarrow> Inr (enc_data e))"

subsection \<open>The decoder\<close>

record binaryDecoder =
  dec_rest :: bytes
  dec_err :: "wire_error option"

definition newBinaryDecoder :: "bytes \<Rightarrow> binaryDecoder" where
  "newBinaryDecoder data =
     (if length data > MaxFramePayload then \<lparr>dec_rest = [], dec_err = Some PayloadTooLarge\<rparr>
      else \<lparr>dec_rest = data, dec_err = None\<rparr>)"

text \<open>The slice \<open>take\<close> returns is \<open>None\<close> (nil) on failure.\<close>

definition dec_take :: "nat \<Rightarrow> binaryDecoder \<Rightarrow> bytes option \<times> binaryDecoder" where
  "dec_take n d =
     (if dec_err d \<noteq> None then (None, d)
      else if n > length (dec_rest d) then (None, d\<lparr>dec_err := Some TruncatedField\<rparr>)
      else (Some (take n (dec_rest d)), d\<lparr>dec_rest := drop n (dec_rest d)\<rparr>))"

definition dec_uint16 :: "binaryDecoder \<Rightarrow> u16 \<times> binaryDecoder" where
  "dec_uint16 d = (case dec_take 2 d of (None, d') \<Rightarrow> (0, d') | (Some field, d') \<Rightarrow> (get_be field, d'))"

definition dec_uint32 :: "binaryDecoder \<Rightarrow> u32 \<times> binaryDecoder" where
  "dec_uint32 d = (case dec_take 4 d of (None, d') \<Rightarrow> (0, d') | (Some field, d') \<Rightarrow> (get_be field, d'))"

definition dec_uint64 :: "binaryDecoder \<Rightarrow> u64 \<times> binaryDecoder" where
  "dec_uint64 d = (case dec_take 8 d of (None, d') \<Rightarrow> (0, d') | (Some field, d') \<Rightarrow> (get_be field, d'))"

definition dec_bytes :: "binaryDecoder \<Rightarrow> bytes option \<times> binaryDecoder" where
  "dec_bytes d =
     (let (len, d1) = dec_uint32 d in
      if dec_err d1 \<noteq> None then (None, d1)
      else if unat len > length (dec_rest d1) then (None, d1\<lparr>dec_err := Some FieldExceedsPayload\<rparr>)
      else dec_take (unat len) d1)"

definition dec_string :: "binaryDecoder \<Rightarrow> string \<times> binaryDecoder" where
  "dec_string d =
     (case dec_bytes d of
        (None, d') \<Rightarrow> ('''', d')
      | (Some bs, d') \<Rightarrow> (string_of_bytes bs, d'))"

definition dec_finish :: "binaryDecoder \<Rightarrow> wire_error option" where
  "dec_finish d =
     (case dec_err d of
        Some err \<Rightarrow> Some err
      | None \<Rightarrow> if dec_rest d \<noteq> [] then Some TrailingBytes else None)"

subsection \<open>Length-prefixed payloads\<close>

text \<open>
  \<open>WriteLengthPrefixed\<close> as the bytes it hands to the writer (a nil payload is \<open>None\<close>), and
  \<open>ReadLengthPrefixed\<close> as a function of the bytes the reader still holds, which returns the payload
  and the bytes after it. \<open>io.ReadFull\<close> fails when fewer bytes are left than it must fill.
\<close>

definition WriteLengthPrefixed :: "bytes option \<Rightarrow> wire_error + bytes" where
  "WriteLengthPrefixed payload =
     (case payload of
        None \<Rightarrow> Inl NilPayload
      | Some p \<Rightarrow>
          if length p > MaxFramePayload then Inl PayloadTooLarge
          else Inr (put_be 4 (word_of_nat (length p) :: u32) @ p))"

definition ReadLengthPrefixed :: "bytes \<Rightarrow> wire_error + (bytes \<times> bytes)" where
  "ReadLengthPrefixed reader =
     (if length reader < 4 then Inl UnexpectedEOF
      else let len = unat (get_be (take 4 reader) :: u32); rest = drop 4 reader in
        if len > MaxFramePayload then Inl PayloadTooLarge
        else if length rest < len then Inl UnexpectedEOF
        else Inr (take len rest, drop len rest))"

subsection \<open>What one field writes and reads\<close>

text \<open>
  \<open>emits f bs\<close>: when \<open>f\<close> leaves no error behind, there was none before and \<open>f\<close> appended exactly \<open>bs\<close>.
  \<open>parses g x bs\<close>: \<open>g\<close> reads \<open>x\<close> from any input that starts with \<open>bs\<close> and stops right after it.
\<close>

definition emits :: "(binaryEncoder \<Rightarrow> binaryEncoder) \<Rightarrow> bytes \<Rightarrow> bool" where
  "emits f bs \<longleftrightarrow>
     (\<forall>e. enc_limit (f e) = enc_limit e \<and>
          (length (enc_data e) \<le> enc_limit e \<longrightarrow> length (enc_data (f e)) \<le> enc_limit e) \<and>
          (enc_err (f e) = None \<longrightarrow> enc_err e = None \<and> enc_data (f e) = enc_data e @ bs) \<and>
          (enc_err e = None \<and> length (enc_data e) + length bs \<le> enc_limit e \<and> enc_limit e \<le> MaxUint32 \<longrightarrow>
             enc_err (f e) = None))"

definition parses :: "(binaryDecoder \<Rightarrow> 'a \<times> binaryDecoder) \<Rightarrow> 'a \<Rightarrow> bytes \<Rightarrow> bool" where
  "parses g x bs \<longleftrightarrow>
     (\<forall>rest. g \<lparr>dec_rest = bs @ rest, dec_err = None\<rparr> = (x, \<lparr>dec_rest = rest, dec_err = None\<rparr>))"

named_theorems emits_intros \<open>how encoder steps compose\<close>

lemma emitsI:
  assumes "\<And>e. enc_limit (f e) = enc_limit e"
    and "\<And>e. length (enc_data e) \<le> enc_limit e \<Longrightarrow> length (enc_data (f e)) \<le> enc_limit e"
    and "\<And>e. enc_err (f e) = None \<Longrightarrow> enc_err e = None \<and> enc_data (f e) = enc_data e @ bs"
    and "\<And>e. enc_err e = None \<Longrightarrow> length (enc_data e) + length bs \<le> enc_limit e \<Longrightarrow>
           enc_limit e \<le> MaxUint32 \<Longrightarrow> enc_err (f e) = None"
  shows "emits f bs"
  using assms unfolding emits_def by blast

lemma emits_limit: "emits f bs \<Longrightarrow> enc_limit (f e) = enc_limit e"
  unfolding emits_def by blast

lemma emits_bound:
  "emits f bs \<Longrightarrow> length (enc_data e) \<le> enc_limit e \<Longrightarrow> length (enc_data (f e)) \<le> enc_limit e"
  unfolding emits_def by blast

lemma emits_data:
  "emits f bs \<Longrightarrow> enc_err (f e) = None \<Longrightarrow> enc_err e = None \<and> enc_data (f e) = enc_data e @ bs"
  unfolding emits_def by blast

lemma emits_fits:
  "emits f bs \<Longrightarrow> enc_err e = None \<Longrightarrow> length (enc_data e) + length bs \<le> enc_limit e \<Longrightarrow>
   enc_limit e \<le> MaxUint32 \<Longrightarrow> enc_err (f e) = None"
  unfolding emits_def by blast

lemma emits_id [emits_intros]: "emits (\<lambda>e. e) []"
  by (rule emitsI) simp_all

lemma emits_append [emits_intros]: "emits (enc_append bs) bs"
  by (rule emitsI) (simp_all add: enc_append_def split: if_splits)

lemma emits_comp:
  assumes f: "emits f as" and g: "emits g bs"
  shows "emits (\<lambda>e. g (f e)) (as @ bs)"
proof (rule emitsI)
  fix e :: binaryEncoder
  show limit: "enc_limit (g (f e)) = enc_limit e"
    by (simp add: emits_limit [OF f] emits_limit [OF g])
  show "length (enc_data (g (f e))) \<le> enc_limit e" if "length (enc_data e) \<le> enc_limit e"
    using emits_bound [OF g, of "f e"] emits_bound [OF f that] by (simp add: emits_limit [OF f])
  show "enc_err e = None \<and> enc_data (g (f e)) = enc_data e @ as @ bs" if "enc_err (g (f e)) = None"
    using emits_data [OF g that] emits_data [OF f, of e] by simp
  show "enc_err (g (f e)) = None"
    if "enc_err e = None" "length (enc_data e) + length (as @ bs) \<le> enc_limit e" "enc_limit e \<le> MaxUint32"
  proof -
    have "enc_err (f e) = None"
      using emits_fits [OF f, of e] that by simp
    then show ?thesis
      using emits_fits [OF g, of "f e"] emits_data [OF f, of e] that by (simp add: emits_limit [OF f])
  qed
qed

lemma emits_result:
  assumes "emits f bs" and "enc_result (f (newBinaryEncoder limit)) = Inr out"
  shows "out = bs" and "length out \<le> limit"
proof -
  let ?e = "newBinaryEncoder limit"
  have ok: "enc_err (f ?e) = None" and out: "out = enc_data (f ?e)"
    using assms(2) by (auto simp: enc_result_def split: option.splits)
  show "out = bs"
    using emits_data [OF assms(1) ok] out by (simp add: newBinaryEncoder_def)
  show "length out \<le> limit"
    using emits_bound [OF assms(1), of ?e] out by (simp add: newBinaryEncoder_def)
qed

lemma emits_result_ok:
  assumes "emits f bs" and "length bs \<le> limit" and "limit \<le> MaxUint32"
  shows "enc_result (f (newBinaryEncoder limit)) = Inr bs"
proof -
  let ?e = "newBinaryEncoder limit"
  have ok: "enc_err (f ?e) = None"
    using emits_fits [OF assms(1), of ?e] assms(2,3) by (simp add: newBinaryEncoder_def)
  with emits_data [OF assms(1) ok] show ?thesis
    by (simp add: enc_result_def newBinaryEncoder_def)
qed

lemma parses_apply:
  "parses g x bs \<Longrightarrow> g \<lparr>dec_rest = bs @ rest, dec_err = None\<rparr> = (x, \<lparr>dec_rest = rest, dec_err = None\<rparr>)"
  by (simp add: parses_def)

subsection \<open>Optional fields\<close>

text \<open>
  \<open>if presence&bit != 0 { encoder.f(x) }\<close> and \<open>if presence&bit != 0 { message.X = decoder.f() }\<close>,
  where \<open>message.X\<close> keeps its zero value when the field is absent.
\<close>

definition enc_opt :: "bool \<Rightarrow> (binaryEncoder \<Rightarrow> binaryEncoder) \<Rightarrow> binaryEncoder \<Rightarrow> binaryEncoder" where
  "enc_opt present f e = (if present then f e else e)"

definition dec_opt :: "bool \<Rightarrow> (binaryDecoder \<Rightarrow> 'a \<times> binaryDecoder) \<Rightarrow> 'a \<Rightarrow> binaryDecoder \<Rightarrow> 'a \<times> binaryDecoder" where
  "dec_opt present g zero d = (if present then g d else (zero, d))"

definition lay_opt :: "bool \<Rightarrow> bytes \<Rightarrow> bytes" where
  "lay_opt present bs = (if present then bs else [])"

lemma emits_opt [emits_intros]: "emits f bs \<Longrightarrow> emits (enc_opt present f) (lay_opt present bs)"
  unfolding enc_opt_def [abs_def] lay_opt_def by (cases present) (simp_all add: emits_id)

lemma parses_opt:
  "(present \<Longrightarrow> parses g x bs) \<Longrightarrow> (\<not> present \<Longrightarrow> zero = x) \<Longrightarrow>
   parses (dec_opt present g zero) x (lay_opt present bs)"
  by (auto simp: parses_def dec_opt_def lay_opt_def)

lemma length_lay_opt: "length (lay_opt present bs) = (if present then length bs else 0)"
  by (simp add: lay_opt_def)

subsection \<open>The contract of a field\<close>

text \<open>
  \<open>view x\<close> is the Go value the decoder returns for \<open>x\<close>: \<open>x\<close> itself, or for a byte slice the non-nil
  slice that holds it.
\<close>

locale wire_field =
  fixes enc :: "'a \<Rightarrow> binaryEncoder \<Rightarrow> binaryEncoder"
    and dec :: "binaryDecoder \<Rightarrow> 'b \<times> binaryDecoder"
    and layout :: "'a \<Rightarrow> bytes"
    and view :: "'a \<Rightarrow> 'b"
    and valid :: "'a \<Rightarrow> bool"
  assumes enc_emits: "emits (enc x) (layout x)"
    and dec_parses: "valid x \<Longrightarrow> parses dec (view x) (layout x)"
begin

lemma decode:
  "valid x \<Longrightarrow>
   dec \<lparr>dec_rest = layout x @ rest, dec_err = None\<rparr> = (view x, \<lparr>dec_rest = rest, dec_err = None\<rparr>)"
  by (rule parses_apply) (rule dec_parses)

lemma decode_opt:
  assumes "present \<longrightarrow> valid x" and "\<not> present \<longrightarrow> zero = view x"
  shows "dec_opt present dec zero \<lparr>dec_rest = lay_opt present (layout x) @ rest, dec_err = None\<rparr> =
         (view x, \<lparr>dec_rest = rest, dec_err = None\<rparr>)"
  by (rule parses_apply) (use assms in \<open>auto intro: parses_opt dec_parses\<close>)

lemma emits_all: "emits (\<lambda>e. fold enc xs e) (concat (map layout xs))"
proof (induction xs)
  case Nil
  show ?case by (simp add: emits_id)
next
  case (Cons x xs)
  from emits_comp [OF enc_emits Cons.IH] show ?case by simp
qed

lemma round_trip:
  assumes "enc_result (enc x (newBinaryEncoder limit)) = Inr bs" and "valid x" and "limit \<le> MaxFramePayload"
  shows "dec (newBinaryDecoder bs) = (view x, \<lparr>dec_rest = [], dec_err = None\<rparr>)"
proof -
  have bs: "bs = layout x" and "length bs \<le> limit"
    using emits_result [OF enc_emits assms(1)] by simp_all
  with assms(3) have "newBinaryDecoder bs = \<lparr>dec_rest = layout x @ [], dec_err = None\<rparr>"
    by (simp add: newBinaryDecoder_def bs)
  with decode [OF assms(2), of "[]"] show ?thesis by simp
qed

end

text \<open>The scalar and string fields meet the contract.\<close>

definition lay_bytes :: "bytes \<Rightarrow> bytes" where
  "lay_bytes v = put_be 4 (word_of_nat (length v) :: u32) @ v"

definition lay_string :: "string \<Rightarrow> bytes" where
  "lay_string s = lay_bytes (bytes_of_string s)"

lemma dec_take_append:
  "n = length bs \<Longrightarrow> dec_take n \<lparr>dec_rest = bs @ rest, dec_err = None\<rparr> =
   (Some bs, \<lparr>dec_rest = rest, dec_err = None\<rparr>)"
  by (simp add: dec_take_def)

lemma parses_uint16: "parses dec_uint16 v (put_be 2 v)"
  by (simp add: parses_def dec_uint16_def dec_take_append)

lemma parses_uint32: "parses dec_uint32 v (put_be 4 v)"
  by (simp add: parses_def dec_uint32_def dec_take_append)

lemma parses_uint64: "parses dec_uint64 v (put_be 8 v)"
  by (simp add: parses_def dec_uint64_def dec_take_append)

lemma unat_length_u32: "length v \<le> MaxUint32 \<Longrightarrow> unat (word_of_nat (length v) :: u32) = length v"
  by (simp add: MaxUint32_def unat_of_nat)

lemma parses_bytes: "length v \<le> MaxUint32 \<Longrightarrow> parses dec_bytes (Some v) (lay_bytes v)"
  by (simp add: parses_def dec_bytes_def lay_bytes_def parses_apply [OF parses_uint32] unat_length_u32
      dec_take_append)

lemma parses_string: "length s \<le> MaxUint32 \<Longrightarrow> parses dec_string s (lay_string s)"
  by (simp add: parses_def dec_string_def lay_string_def parses_apply [OF parses_bytes])

lemma emits_bytes: "emits (enc_bytes v) (lay_bytes v)"
proof (cases "length v \<le> MaxUint32")
  case True
  then have "enc_bytes v = (\<lambda>e. enc_append v (enc_append (put_be 4 (word_of_nat (length v) :: u32)) e))"
    by (simp add: fun_eq_iff enc_bytes_def enc_uint32_def)
  then show ?thesis
    unfolding lay_bytes_def by (simp only:) (rule emits_comp [OF emits_append emits_append])
next
  case False
  then show ?thesis
    by (intro emitsI) (simp_all add: enc_bytes_def lay_bytes_def)
qed

lemma length_lay_bytes [simp]: "length (lay_bytes v) = 4 + length v"
  by (simp add: lay_bytes_def)

lemma length_lay_string [simp]: "length (lay_string s) = 4 + length s"
  by (simp add: lay_string_def)

interpretation f_uint16: wire_field enc_uint16 dec_uint16 "put_be 2" "\<lambda>v. v" "\<lambda>v. True"
  by unfold_locales (simp_all add: enc_uint16_def emits_append parses_uint16)

interpretation f_uint32: wire_field enc_uint32 dec_uint32 "put_be 4" "\<lambda>v. v" "\<lambda>v. True"
  by unfold_locales (simp_all add: enc_uint32_def emits_append parses_uint32)

interpretation f_uint64: wire_field enc_uint64 dec_uint64 "put_be 8" "\<lambda>v. v" "\<lambda>v. True"
  by unfold_locales (simp_all add: enc_uint64_def emits_append parses_uint64)

interpretation f_bytes: wire_field enc_bytes dec_bytes lay_bytes Some "\<lambda>v. length v \<le> MaxUint32"
  by unfold_locales (simp_all add: emits_bytes parses_bytes)

interpretation f_string: wire_field enc_string dec_string lay_string "\<lambda>s. s" "\<lambda>s. length s \<le> MaxUint32"
  by unfold_locales (simp_all add: enc_string_def lay_string_def emits_bytes parses_string [unfolded lay_string_def])

lemmas field_emits [emits_intros] =
  f_uint16.enc_emits f_uint32.enc_emits f_uint64.enc_emits f_bytes.enc_emits f_string.enc_emits

end
