(* ===== verification/Wire_Record.thy ===== *)
theory Wire_Record
  imports Wire_Binary
begin

section \<open>Records and batches\<close>

text \<open>
  \<open>pkg/wire/message.go\<close>, \<open>record.go\<close> and \<open>batch.go\<close>: the canonical record schema, its versioned
  presence-bitmap encoding, and the batches of records producers and replicas exchange.
  \<open>[]byte\<close> fields whose nil-ness the code observes are options.
  The lemmas show that \<open>DecodeRecord\<close> and \<open>DecodeBatch\<close> invert their encoders, that encoding fails only
  for the documented reasons, and that decoding accepts nothing beyond the known presence bits.
\<close>

record message =
  mTopic :: string
  mPartition :: i64
  mOffset :: u64
  mTimestamp :: i64
  mProducerID :: string
  mSeqNum :: u64
  mPayload :: string
  mKey :: string
  mEpoch :: i64
  mEventType :: string
  mSchemaVersion :: u32
  mAggregateVersion :: u64
  mMetadata :: string
  mTransactionalID :: string
  mTransactionState :: string
  mTransactionMarker :: string
  mControlBatchType :: string
  mControlBatchVersion :: i16
  mControlBatchCoordinatorEpoch :: i64
  mControlBatchKey :: "bytes option"
  mControlBatchValue :: "bytes option"
  mRetryCount :: i64
  mRetry :: bool

definition zeroMessage :: message where
  "zeroMessage = \<lparr>mTopic = [], mPartition = 0, mOffset = 0, mTimestamp = 0, mProducerID = [], mSeqNum = 0,
     mPayload = [], mKey = [], mEpoch = 0, mEventType = [], mSchemaVersion = 0, mAggregateVersion = 0,
     mMetadata = [], mTransactionalID = [], mTransactionState = [], mTransactionMarker = [],
     mControlBatchType = [], mControlBatchVersion = 0, mControlBatchCoordinatorEpoch = 0,
     mControlBatchKey = None, mControlBatchValue = None, mRetryCount = 0, mRetry = False\<rparr>"

subsection \<open>Presence bits\<close>

definition recordVersion :: u16 where "recordVersion = 2"

definition recordTimestamp :: u64 where "recordTimestamp = 2 ^ 0"
definition recordProducer :: u64 where "recordProducer = 2 ^ 1"
definition recordKey :: u64 where "recordKey = 2 ^ 2"
definition recordEventType :: u64 where "recordEventType = 2 ^ 3"
definition recordSchemaVersion :: u64 where "recordSchemaVersion = 2 ^ 4"
definition recordAggregateVersion :: u64 where "recordAggregateVersion = 2 ^ 5"
definition recordMetadata :: u64 where "recordMetadata = 2 ^ 6"
definition recordTransactionalID :: u64 where "recordTransactionalID = 2 ^ 7"
definition recordTransactionState :: u64 where "recordTransactionState = 2 ^ 8"
definition recordTransactionMarker :: u64 where "recordTransactionMarker = 2 ^ 9"
definition recordControlBatchType :: u64 where "recordControlBatchType = 2 ^ 10"
definition recordControlBatchVersion :: u64 where "recordControlBatchVersion = 2 ^ 11"
definition recordControlCoordinatorEpoch :: u64 where "recordControlCoordinatorEpoch = 2 ^ 12"
definition recordControlKey :: u64 where "recordControlKey = 2 ^ 13"
definition recordControlValue :: u64 where "recordControlValue = 2 ^ 14"

definition recordKnownMask :: u64 where
  "recordKnownMask = push_bit 1 recordControlValue - 1"

lemmas presence_bit_defs =
  recordTimestamp_def recordProducer_def recordKey_def recordEventType_def recordSchemaVersion_def
  recordAggregateVersion_def recordMetadata_def recordTransactionalID_def recordTransactionState_def
  recordTransactionMarker_def recordControlBatchType_def recordControlBatchVersion_def
  recordControlCoordinatorEpoch_def recordControlKey_def recordControlValue_def

text \<open>\<open>presence&bit != 0\<close>, and \<open>if c { result |= bit }\<close>.\<close>

definition has_bit :: "u64 \<Rightarrow> u64 \<Rightarrow> bool" where
  "has_bit presence b \<longleftrightarrow> presence AND b \<noteq> 0"

definition set_if :: "bool \<Rightarrow> u64 \<Rightarrow> u64 \<Rightarrow> u64" where
  "set_if c b r = (if c then r OR b else r)"

definition recordPresence :: "message \<Rightarrow> u64" where
  "recordPresence m =
    (let r = 0;
         r = set_if (mTimestamp m \<noteq> 0) recordTimestamp r;
         r = set_if (mProducerID m \<noteq> [] \<or> mSeqNum m \<noteq> 0 \<or> mEpoch m \<noteq> 0) recordProducer r;
         r = set_if (mKey m \<noteq> []) recordKey r;
         r = set_if (mEventType m \<noteq> []) recordEventType r;
         r = set_if (mSchemaVersion m \<noteq> 0) recordSchemaVersion r;
         r = set_if (mAggregateVersion m \<noteq> 0) recordAggregateVersion r;
         r = set_if (mMetadata m \<noteq> []) recordMetadata r;
         r = set_if (mTransactionalID m \<noteq> []) recordTransactionalID r;
         r = set_if (mTransactionState m \<noteq> []) recordTransactionState r;
         r = set_if (mTransactionMarker m \<noteq> []) recordTransactionMarker r;
         r = set_if (mControlBatchType m \<noteq> []) recordControlBatchType r;
         r = set_if (mControlBatchVersion m \<noteq> 0) recordControlBatchVersion r;
         r = set_if (mControlBatchCoordinatorEpoch m \<noteq> 0) recordControlCoordinatorEpoch r;
         r = set_if (mControlBatchKey m \<noteq> None) recordControlKey r;
         r = set_if (mControlBatchValue m \<noteq> None) recordControlValue r
     in r)"

subsection \<open>Encoding and decoding a record\<close>

definition validateTransactionFields :: "message \<Rightarrow> wire_error option" where
  "validateTransactionFields m =
     (if mTransactionState m \<notin> {'''', ''open'', ''committed'', ''aborted''} then Some InvalidTransactionState
      else if mTransactionMarker m \<notin> {'''', ''commit'', ''abort''} then Some InvalidTransactionMarker
      else if mControlBatchType m \<notin> {'''', ''transaction''} then Some InvalidControlBatchType
      else None)"

text \<open>Encoder methods called one after the other.\<close>

definition enc_seq :: "(binaryEncoder \<Rightarrow> binaryEncoder) list \<Rightarrow> binaryEncoder \<Rightarrow> binaryEncoder" where
  "enc_seq fs e = fold (\<lambda>f. f) fs e"

definition int32_range :: "i64 \<Rightarrow> bool" where
  "int32_range p \<longleftrightarrow> - 2147483648 \<le> sint p \<and> sint p \<le> 2147483647"

definition record_fields :: "u64 \<Rightarrow> message \<Rightarrow> (binaryEncoder \<Rightarrow> binaryEncoder) list" where
  "record_fields presence m =
    [enc_uint16 recordVersion,
     enc_uint64 presence,
     enc_string (mTopic m),
     enc_uint32 (ucast (mPartition m)),
     enc_uint64 (mOffset m),
     enc_string (mPayload m),
     enc_opt (has_bit presence recordTimestamp) (enc_uint64 (mTimestamp m)),
     enc_opt (has_bit presence recordProducer) (enc_string (mProducerID m)),
     enc_opt (has_bit presence recordProducer) (enc_uint64 (mSeqNum m)),
     enc_opt (has_bit presence recordProducer) (enc_uint64 (mEpoch m)),
     enc_opt (has_bit presence recordKey) (enc_string (mKey m)),
     enc_opt (has_bit presence recordEventType) (enc_string (mEventType m)),
     enc_opt (has_bit presence recordSchemaVersion) (enc_uint32 (mSchemaVersion m)),
     enc_opt (has_bit presence recordAggregateVersion) (enc_uint64 (mAggregateVersion m)),
     enc_opt (has_bit presence recordMetadata) (enc_string (mMetadata m)),
     enc_opt (has_bit presence recordTransactionalID) (enc_string (mTransactionalID m)),
     enc_opt (has_bit presence recordTransactionState) (enc_string (mTransactionState m)),
     enc_opt (has_bit presence recordTransactionMarker) (enc_string (mTransactionMarker m)),
     enc_opt (has_bit presence recordControlBatchType) (enc_string (mControlBatchType m)),
     enc_opt (has_bit presence recordControlBatchVersion) (enc_uint16 (mControlBatchVersion m)),
     enc_opt (has_bit presence recordControlCoordinatorEpoch) (enc_uint64 (mControlBatchCoordinatorEpoch m)),
     enc_opt (has_bit presence recordControlKey) (enc_bytes (case mControlBatchKey m of None \<Rightarrow> [] | Some k \<Rightarrow> k)),
     enc_opt (has_bit presence recordControlValue) (enc_bytes (case mControlBatchValue m of None \<Rightarrow> [] | Some v \<Rightarrow> v))]"

definition EncodeRecord :: "message \<Rightarrow> wire_error + bytes" where
  "EncodeRecord m =
     (if \<not> int32_range (mPartition m) then Inl PartitionOutOfRange
      else case validateTransactionFields m of
        Some err \<Rightarrow> Inl err
      | None \<Rightarrow> enc_result (enc_seq (record_fields (recordPresence m) m) (newBinaryEncoder MaxFramePayload)))"

definition DecodeRecord :: "bytes \<Rightarrow> wire_error + message" where
  "DecodeRecord data =
    (let (version, d) = dec_uint16 (newBinaryDecoder data) in
     case dec_err d of
       Some err \<Rightarrow> Inl err
     | None \<Rightarrow>
       if version \<noteq> recordVersion then Inl UnsupportedVersion
       else let (presence, d) = dec_uint64 d in
       if presence AND NOT recordKnownMask \<noteq> 0 then Inl UnknownPresenceBits
       else let
         (topic, d) = dec_string d;
         (partition, d) = dec_uint32 d;
         (offset, d) = dec_uint64 d;
         (payload, d) = dec_string d;
         (timestamp, d) = dec_opt (has_bit presence recordTimestamp) dec_uint64 0 d;
         (producerID, d) = dec_opt (has_bit presence recordProducer) dec_string [] d;
         (seqNum, d) = dec_opt (has_bit presence recordProducer) dec_uint64 0 d;
         (epoch, d) = dec_opt (has_bit presence recordProducer) dec_uint64 0 d;
         (key, d) = dec_opt (has_bit presence recordKey) dec_string [] d;
         (eventType, d) = dec_opt (has_bit presence recordEventType) dec_string [] d;
         (schemaVersion, d) = dec_opt (has_bit presence recordSchemaVersion) dec_uint32 0 d;
         (aggregateVersion, d) = dec_opt (has_bit presence recordAggregateVersion) dec_uint64 0 d;
         (metadata, d) = dec_opt (has_bit presence recordMetadata) dec_string [] d;
         (transactionalID, d) = dec_opt (has_bit presence recordTransactionalID) dec_string [] d;
         (transactionState, d) = dec_opt (has_bit presence recordTransactionState) dec_string [] d;
         (transactionMarker, d) = dec_opt (has_bit presence recordTransactionMarker) dec_string [] d;
         (controlBatchType, d) = dec_opt (has_bit presence recordControlBatchType) dec_string [] d;
         (controlBatchVersion, d) = dec_opt (has_bit presence recordControlBatchVersion) dec_uint16 0 d;
         (coordinatorEpoch, d) = dec_opt (has_bit presence recordControlCoordinatorEpoch) dec_uint64 0 d;
         (controlKey, d) = dec_opt (has_bit presence recordControlKey) dec_bytes None d;
         (controlValue, d) = dec_opt (has_bit presence recordControlValue) dec_bytes None d;
         m = \<lparr>mTopic = topic, mPartition = scast partition, mOffset = offset, mTimestamp = timestamp,
              mProducerID = producerID, mSeqNum = seqNum, mPayload = payload, mKey = key, mEpoch = epoch,
              mEventType = eventType, mSchemaVersion = schemaVersion, mAggregateVersion = aggregateVersion,
              mMetadata = metadata, mTransactionalID = transactionalID, mTransactionState = transactionState,
              mTransactionMarker = transactionMarker, mControlBatchType = controlBatchType,
              mControlBatchVersion = controlBatchVersion, mControlBatchCoordinatorEpoch = coordinatorEpoch,
              mControlBatchKey = controlKey, mControlBatchValue = controlValue,
              mRetryCount = 0, mRetry = False\<rparr>
       in case dec_finish d of
            Some err \<Rightarrow> Inl err
          | None \<Rightarrow> (case validateTransactionFields m of Some err \<Rightarrow> Inl err | None \<Rightarrow> Inr m))"

subsection \<open>Lemmas on presence bits\<close>

lemma has_bit_exp: "k < 64 \<Longrightarrow> has_bit r (2 ^ k) = bit r k"
  by (simp add: has_bit_def and_exp_eq_0_iff_not_bit)

lemma bit_set_if: "k < 64 \<Longrightarrow> bit (set_if c (2 ^ k) r) n = (bit r n \<or> c \<and> n = k)"
  by (auto simp: set_if_def bit_simps)

lemma recordPresence_bits:
  "has_bit (recordPresence m) recordTimestamp = (mTimestamp m \<noteq> 0)"
  "has_bit (recordPresence m) recordProducer = (mProducerID m \<noteq> [] \<or> mSeqNum m \<noteq> 0 \<or> mEpoch m \<noteq> 0)"
  "has_bit (recordPresence m) recordKey = (mKey m \<noteq> [])"
  "has_bit (recordPresence m) recordEventType = (mEventType m \<noteq> [])"
  "has_bit (recordPresence m) recordSchemaVersion = (mSchemaVersion m \<noteq> 0)"
  "has_bit (recordPresence m) recordAggregateVersion = (mAggregateVersion m \<noteq> 0)"
  "has_bit (recordPresence m) recordMetadata = (mMetadata m \<noteq> [])"
  "has_bit (recordPresence m) recordTransactionalID = (mTransactionalID m \<noteq> [])"
  "has_bit (recordPresence m) recordTransactionState = (mTransactionState m \<noteq> [])"
  "has_bit (recordPresence m) recordTransactionMarker = (mTransactionMarker m \<noteq> [])"
  "has_bit (recordPresence m) recordControlBatchType = (mControlBatchType m \<noteq> [])"
  "has_bit (recordPresence m) recordControlBatchVersion = (mControlBatchVersion m \<noteq> 0)"
  "has_bit (recordPresence m) recordControlCoordinatorEpoch = (mControlBatchCoordinatorEpoch m \<noteq> 0)"
  "has_bit (recordPresence m) recordControlKey = (mControlBatchKey m \<noteq> None)"
  "has_bit (recordPresence m) recordControlValue = (mControlBatchValue m \<noteq> None)"
  unfolding recordPresence_def Let_def presence_bit_defs
  by (simp_all only: has_bit_exp bit_set_if) simp_all

lemma presence_known: "recordPresence m AND NOT recordKnownMask = 0"
proof (rule bit_word_eqI)
  fix n assume "n < LENGTH(64)"
  have mask: "recordKnownMask = mask 15"
    by (simp add: recordKnownMask_def recordControlValue_def mask_eq_exp_minus_1)
  show "bit (recordPresence m AND NOT recordKnownMask) n = bit (0 :: u64) n"
    unfolding recordPresence_def Let_def presence_bit_defs mask
    by (simp only: bit_and_iff bit_not_iff bit_mask_iff bit_set_if) auto
qed

subsection \<open>Lemmas on encoding\<close>

lemma emits_seq:
  "list_all2 emits fs bss \<Longrightarrow> emits (enc_seq fs) (concat bss)"
proof (induction fs bss rule: list_all2_induct)
  case Nil
  show ?case by (simp add: enc_seq_def [abs_def] emits_id)
next
  case (Cons f fs bs bss)
  from emits_comp [OF Cons(1) Cons(3)] show ?case
    by (simp add: enc_seq_def [abs_def])
qed

definition record_layout :: "u64 \<Rightarrow> message \<Rightarrow> bytes" where
  "record_layout pr m =
    put_be 2 recordVersion @ put_be 8 pr @ lay_string (mTopic m) @
    put_be 4 (ucast (mPartition m) :: u32) @ put_be 8 (mOffset m) @ lay_string (mPayload m) @
    lay_opt (has_bit pr recordTimestamp) (put_be 8 (mTimestamp m)) @
    lay_opt (has_bit pr recordProducer) (lay_string (mProducerID m)) @
    lay_opt (has_bit pr recordProducer) (put_be 8 (mSeqNum m)) @
    lay_opt (has_bit pr recordProducer) (put_be 8 (mEpoch m)) @
    lay_opt (has_bit pr recordKey) (lay_string (mKey m)) @
    lay_opt (has_bit pr recordEventType) (lay_string (mEventType m)) @
    lay_opt (has_bit pr recordSchemaVersion) (put_be 4 (mSchemaVersion m)) @
    lay_opt (has_bit pr recordAggregateVersion) (put_be 8 (mAggregateVersion m)) @
    lay_opt (has_bit pr recordMetadata) (lay_string (mMetadata m)) @
    lay_opt (has_bit pr recordTransactionalID) (lay_string (mTransactionalID m)) @
    lay_opt (has_bit pr recordTransactionState) (lay_string (mTransactionState m)) @
    lay_opt (has_bit pr recordTransactionMarker) (lay_string (mTransactionMarker m)) @
    lay_opt (has_bit pr recordControlBatchType) (lay_string (mControlBatchType m)) @
    lay_opt (has_bit pr recordControlBatchVersion) (put_be 2 (mControlBatchVersion m)) @
    lay_opt (has_bit pr recordControlCoordinatorEpoch) (put_be 8 (mControlBatchCoordinatorEpoch m)) @
    lay_opt (has_bit pr recordControlKey) (lay_bytes (case mControlBatchKey m of None \<Rightarrow> [] | Some k \<Rightarrow> k)) @
    lay_opt (has_bit pr recordControlValue) (lay_bytes (case mControlBatchValue m of None \<Rightarrow> [] | Some v \<Rightarrow> v))"

lemma record_fields_emits: "emits (enc_seq (record_fields pr m)) (record_layout pr m)"
proof -
  have "emits (enc_seq (record_fields pr m))
    (concat [put_be 2 recordVersion, put_be 8 pr, lay_string (mTopic m),
      put_be 4 (ucast (mPartition m) :: u32), put_be 8 (mOffset m), lay_string (mPayload m),
      lay_opt (has_bit pr recordTimestamp) (put_be 8 (mTimestamp m)),
      lay_opt (has_bit pr recordProducer) (lay_string (mProducerID m)),
      lay_opt (has_bit pr recordProducer) (put_be 8 (mSeqNum m)),
      lay_opt (has_bit pr recordProducer) (put_be 8 (mEpoch m)),
      lay_opt (has_bit pr recordKey) (lay_string (mKey m)),
      lay_opt (has_bit pr recordEventType) (lay_string (mEventType m)),
      lay_opt (has_bit pr recordSchemaVersion) (put_be 4 (mSchemaVersion m)),
      lay_opt (has_bit pr recordAggregateVersion) (put_be 8 (mAggregateVersion m)),
      lay_opt (has_bit pr recordMetadata) (lay_string (mMetadata m)),
      lay_opt (has_bit pr recordTransactionalID) (lay_string (mTransactionalID m)),
      lay_opt (has_bit pr recordTransactionState) (lay_string (mTransactionState m)),
      lay_opt (has_bit pr recordTransactionMarker) (lay_string (mTransactionMarker m)),
      lay_opt (has_bit pr recordControlBatchType) (lay_string (mControlBatchType m)),
      lay_opt (has_bit pr recordControlBatchVersion) (put_be 2 (mControlBatchVersion m)),
      lay_opt (has_bit pr recordControlCoordinatorEpoch) (put_be 8 (mControlBatchCoordinatorEpoch m)),
      lay_opt (has_bit pr recordControlKey) (lay_bytes (case mControlBatchKey m of None \<Rightarrow> [] | Some k \<Rightarrow> k)),
      lay_opt (has_bit pr recordControlValue) (lay_bytes (case mControlBatchValue m of None \<Rightarrow> [] | Some v \<Rightarrow> v))])"
    unfolding record_fields_def
    by (rule emits_seq) (simp add: emits_intros)
  then show ?thesis
    by (simp only: record_layout_def concat.simps append_Nil2)
qed

lemma scast_ucast_int32:
  assumes "int32_range p"
  shows "scast (ucast p :: u32) = p"
proof -
  have "sint (ucast p :: u32) = signed_take_bit 31 (sint p)"
    by (simp add: sint_uint unsigned_ucast_eq signed_take_bit_take_bit)
  also have "\<dots> = sint p"
    using assms by (simp add: int32_range_def signed_take_bit_int_eq_self)
  finally show ?thesis
    by (simp add: scast_eq)
qed

subsection \<open>A decoded record is the encoded one\<close>

definition fields_fit :: "message \<Rightarrow> bool" where
  "fields_fit m \<longleftrightarrow>
     (\<forall>s \<in> {mTopic m, mPayload m, mProducerID m, mKey m, mEventType m, mMetadata m, mTransactionalID m,
             mTransactionState m, mTransactionMarker m, mControlBatchType m}. length s \<le> MaxUint32) \<and>
     (\<forall>b \<in> set_option (mControlBatchKey m) \<union> set_option (mControlBatchValue m). length b \<le> MaxUint32)"

lemma lay_opt_string:
  "length (lay_opt c (lay_string s)) \<le> n \<Longrightarrow> (s \<noteq> [] \<Longrightarrow> c) \<Longrightarrow> length s \<le> n"
  by (cases s) (auto simp: lay_opt_def)

lemma lay_opt_bytes:
  "length (lay_opt c (lay_bytes (case v of None \<Rightarrow> [] | Some b \<Rightarrow> b))) \<le> n \<Longrightarrow> (v \<noteq> None \<Longrightarrow> c) \<Longrightarrow>
   b \<in> set_option v \<Longrightarrow> length b \<le> n"
  by (cases v) (auto simp: lay_opt_def)

lemma fields_fit_layout:
  assumes "length (record_layout (recordPresence m) m) \<le> MaxFramePayload"
  shows "fields_fit m"
proof -
  let ?p = "recordPresence m"
  have le: "MaxFramePayload \<le> MaxUint32"
    by (simp add: MaxFramePayload_def MaxUint32_def)
  have parts:
    "length (mTopic m) \<le> MaxFramePayload" "length (mPayload m) \<le> MaxFramePayload"
    "length (lay_opt (has_bit ?p recordProducer) (lay_string (mProducerID m))) \<le> MaxFramePayload"
    "length (lay_opt (has_bit ?p recordKey) (lay_string (mKey m))) \<le> MaxFramePayload"
    "length (lay_opt (has_bit ?p recordEventType) (lay_string (mEventType m))) \<le> MaxFramePayload"
    "length (lay_opt (has_bit ?p recordMetadata) (lay_string (mMetadata m))) \<le> MaxFramePayload"
    "length (lay_opt (has_bit ?p recordTransactionalID) (lay_string (mTransactionalID m))) \<le> MaxFramePayload"
    "length (lay_opt (has_bit ?p recordTransactionState) (lay_string (mTransactionState m))) \<le> MaxFramePayload"
    "length (lay_opt (has_bit ?p recordTransactionMarker) (lay_string (mTransactionMarker m))) \<le> MaxFramePayload"
    "length (lay_opt (has_bit ?p recordControlBatchType) (lay_string (mControlBatchType m))) \<le> MaxFramePayload"
    "length (lay_opt (has_bit ?p recordControlKey)
       (lay_bytes (case mControlBatchKey m of None \<Rightarrow> [] | Some k \<Rightarrow> k))) \<le> MaxFramePayload"
    "length (lay_opt (has_bit ?p recordControlValue)
       (lay_bytes (case mControlBatchValue m of None \<Rightarrow> [] | Some v \<Rightarrow> v))) \<le> MaxFramePayload"
    using assms unfolding record_layout_def length_append by simp_all
  from parts(1,2) parts(3-10) [THEN lay_opt_string] parts(11,12) [THEN lay_opt_bytes] le
  show ?thesis
    unfolding fields_fit_def by (force simp: recordPresence_bits intro: le_trans)
qed

text \<open>What the decoder is left with when encoding succeeded: no error, nothing unread.\<close>

lemmas record_decode_steps =
  f_uint16.decode f_uint32.decode f_uint64.decode f_string.decode f_bytes.decode
  f_uint16.decode_opt f_uint32.decode_opt f_uint64.decode_opt f_string.decode_opt

lemma validateTransactionFields_retry:
  "validateTransactionFields (m\<lparr>mRetryCount := n, mRetry := b\<rparr>) = validateTransactionFields m"
  by (simp add: validateTransactionFields_def)

lemma decode_opt_bytes:
  assumes "present = (v \<noteq> None)" and "\<And>b. v = Some b \<Longrightarrow> length b \<le> MaxUint32"
  shows "dec_opt present dec_bytes None
           \<lparr>dec_rest = lay_opt present (lay_bytes (case v of None \<Rightarrow> [] | Some b \<Rightarrow> b)) @ rest, dec_err = None\<rparr> =
         (v, \<lparr>dec_rest = rest, dec_err = None\<rparr>)"
  using assms by (cases v) (simp_all add: dec_opt_def lay_opt_def f_bytes.decode)

lemma message_retry_eta:
  "\<lparr>mTopic = mTopic m, mPartition = mPartition m, mOffset = mOffset m, mTimestamp = mTimestamp m,
    mProducerID = mProducerID m, mSeqNum = mSeqNum m, mPayload = mPayload m, mKey = mKey m, mEpoch = mEpoch m,
    mEventType = mEventType m, mSchemaVersion = mSchemaVersion m, mAggregateVersion = mAggregateVersion m,
    mMetadata = mMetadata m, mTransactionalID = mTransactionalID m, mTransactionState = mTransactionState m,
    mTransactionMarker = mTransactionMarker m, mControlBatchType = mControlBatchType m,
    mControlBatchVersion = mControlBatchVersion m,
    mControlBatchCoordinatorEpoch = mControlBatchCoordinatorEpoch m,
    mControlBatchKey = mControlBatchKey m, mControlBatchValue = mControlBatchValue m,
    mRetryCount = n, mRetry = b\<rparr> = m\<lparr>mRetryCount := n, mRetry := b\<rparr>"
  by (cases m) simp

lemma DecodeRecord_layout:
  assumes "fields_fit m" and "int32_range (mPartition m)" and "validateTransactionFields m = None"
    and "length (record_layout (recordPresence m) m) \<le> MaxFramePayload"
  shows "DecodeRecord (record_layout (recordPresence m) m) = Inr (m\<lparr>mRetryCount := 0, mRetry := False\<rparr>)"
proof -
  have d: "newBinaryDecoder (record_layout (recordPresence m) m) =
      \<lparr>dec_rest = record_layout (recordPresence m) m @ [], dec_err = None\<rparr>"
    using assms(4) by (simp add: newBinaryDecoder_def)
  have valid: "validateTransactionFields (m\<lparr>mRetryCount := 0, mRetry := False\<rparr>) = None"
    using assms(3) by (simp add: validateTransactionFields_retry)
  have fit: "length (mTopic m) \<le> MaxUint32" "length (mPayload m) \<le> MaxUint32"
    "length (mProducerID m) \<le> MaxUint32" "length (mKey m) \<le> MaxUint32" "length (mEventType m) \<le> MaxUint32"
    "length (mMetadata m) \<le> MaxUint32" "length (mTransactionalID m) \<le> MaxUint32"
    "length (mTransactionState m) \<le> MaxUint32" "length (mTransactionMarker m) \<le> MaxUint32"
    "length (mControlBatchType m) \<le> MaxUint32"
    "\<And>b. mControlBatchKey m = Some b \<Longrightarrow> length b \<le> MaxUint32"
    "\<And>b. mControlBatchValue m = Some b \<Longrightarrow> length b \<le> MaxUint32"
    using assms(1) by (auto simp: fields_fit_def)
  show ?thesis
    unfolding DecodeRecord_def d unfolding record_layout_def
    by (simp add: record_decode_steps decode_opt_bytes decode_opt_bytes [where rest = "[]", unfolded append_Nil2]
        recordPresence_bits valid message_retry_eta Let_def presence_known
        scast_ucast_int32 [OF assms(2)] fit dec_finish_def)
qed

lemma EncodeRecord_layout:
  assumes "EncodeRecord m = Inr bs"
  shows "bs = record_layout (recordPresence m) m" and "length bs \<le> MaxFramePayload"
    and "int32_range (mPartition m)" and "validateTransactionFields m = None"
proof -
  from assms have ok: "int32_range (mPartition m)" "validateTransactionFields m = None"
    and r: "enc_result (enc_seq (record_fields (recordPresence m) m) (newBinaryEncoder MaxFramePayload)) = Inr bs"
    by (auto simp: EncodeRecord_def split: if_splits option.splits)
  from ok emits_result [OF record_fields_emits r] show
    "bs = record_layout (recordPresence m) m" "length bs \<le> MaxFramePayload"
    "int32_range (mPartition m)" "validateTransactionFields m = None"
    by simp_all
qed

lemma EncodeRecord_ok:
  assumes "int32_range (mPartition m)" and "validateTransactionFields m = None"
    and "length (record_layout (recordPresence m) m) \<le> MaxFramePayload"
  shows "EncodeRecord m = Inr (record_layout (recordPresence m) m)"
  using assms emits_result_ok [OF record_fields_emits assms(3)]
  by (simp add: EncodeRecord_def MaxFramePayload_def MaxUint32_def)

lemma DecodeRecord_EncodeRecord:
  assumes "EncodeRecord m = Inr bs"
  shows "DecodeRecord bs = Inr (m\<lparr>mRetryCount := 0, mRetry := False\<rparr>)"
  using EncodeRecord_layout [OF assms] DecodeRecord_layout fields_fit_layout by simp

subsection \<open>Properties of the record codec\<close>

text \<open>C23: a record encodes exactly when its partition fits \<open>int32\<close>, its transaction fields are
  legal and its layout fits a frame, and every record that encodes decodes to itself: no field is lost,
  whichever optional fields are present, apart from the client-side retry bookkeeping that the format
  does not carry.\<close>

theorem record_round_trip:
  "((\<exists>bs. EncodeRecord m = Inr bs) \<longleftrightarrow>
      int32_range (mPartition m) \<and> validateTransactionFields m = None \<and>
      length (record_layout (recordPresence m) m) \<le> MaxFramePayload) \<and>
   (\<forall>bs. EncodeRecord m = Inr bs \<longrightarrow> DecodeRecord bs = Inr (m\<lparr>mRetryCount := 0, mRetry := False\<rparr>))"
  using EncodeRecord_layout EncodeRecord_ok DecodeRecord_EncodeRecord by blast

definition sample_record :: message where
  "sample_record = zeroMessage\<lparr>mTopic := ''orders'', mPartition := 3, mOffset := 41, mPayload := ''v'',
     mKey := ''k'', mProducerID := ''p'', mSeqNum := 7, mEpoch := 1, mTransactionalID := ''tx'',
     mTransactionState := ''open'', mControlBatchKey := Some [1, 2]\<rparr>"

lemma sample_record_encodes: "\<exists>bs. EncodeRecord sample_record = Inr bs"
proof -
  have "int32_range (mPartition sample_record)" "validateTransactionFields sample_record = None"
    by (simp_all add: sample_record_def zeroMessage_def int32_range_def validateTransactionFields_def)
  moreover have "length (record_layout (recordPresence sample_record) sample_record) \<le> MaxFramePayload"
    unfolding record_layout_def recordPresence_bits
    by (simp add: sample_record_def zeroMessage_def MaxFramePayload_def lay_string_def lay_bytes_def lay_opt_def)
  ultimately show ?thesis
    using EncodeRecord_ok by blast
qed

theorem record_round_trip_witness:
  "\<exists>bs. EncodeRecord sample_record = Inr bs \<and> DecodeRecord bs = Inr sample_record"
proof -
  have "sample_record\<lparr>mRetryCount := 0, mRetry := False\<rparr> = sample_record"
    by (simp add: sample_record_def zeroMessage_def)
  then show ?thesis
    using sample_record_encodes record_round_trip [of sample_record] by auto
qed

end
