(* ===== verification/Wire_Batch.thy ===== *)
theory Wire_Batch
  imports Wire_Record
begin

section \<open>Record batches\<close>

text \<open>
  \<open>pkg/wire/batch.go\<close>: a batch is a routed list of records with a header of magic, version, flags,
  topic, partition, acknowledgement mode and producer sequence range. \<open>EncodeBatch\<close> stamps the
  batch's topic and partition on every record and fills in an absent sequence range; \<open>DecodeBatch\<close>
  rejects a record that is routed elsewhere. The lemmas show that decoding inverts encoding up to
  exactly this normalisation, and that everything \<open>DecodeBatch\<close> accepts is routed consistently and
  within the size limits.
\<close>

record batch =
  bTopic :: string
  bPartition :: i64
  bBatchStart :: u64
  bBatchEnd :: u64
  bAcks :: string
  bIsIdempotent :: bool
  bMessages :: "message list"

definition batchMagic :: u32 where "batchMagic = 0x43425632"
definition batchVersion :: u16 where "batchVersion = 2"
definition batchFlagIdempotent :: u16 where "batchFlagIdempotent = 1"
definition MaxBatchRecords :: nat where "MaxBatchRecords = 100000"

definition IsBatch :: "bytes \<Rightarrow> bool" where
  "IsBatch data \<longleftrightarrow>
     length data \<ge> 6 \<and> get_be (take 4 data) = batchMagic \<and> get_be (take 2 (drop 4 data)) = batchVersion"

definition validateAcks :: "string \<Rightarrow> wire_error option" where
  "validateAcks acks = (if acks \<in> {'''', ''0'', ''1'', ''-1'', ''all''} then None else Some InvalidAcks)"

definition fillSequenceRange :: "batch \<Rightarrow> batch" where
  "fillSequenceRange b =
     (if bMessages b = [] then b
      else let b = (if bBatchStart b = 0 then b\<lparr>bBatchStart := mSeqNum (hd (bMessages b))\<rparr> else b)
        in if bBatchEnd b = 0 then b\<lparr>bBatchEnd := mSeqNum (last (bMessages b))\<rparr> else b)"

definition batchFlags :: "batch \<Rightarrow> u16" where
  "batchFlags b = (if bIsIdempotent b then 0 OR batchFlagIdempotent else 0)"

definition batch_header :: "batch \<Rightarrow> (binaryEncoder \<Rightarrow> binaryEncoder) list" where
  "batch_header b =
    [enc_uint32 batchMagic,
     enc_uint16 batchVersion,
     enc_uint16 (batchFlags b),
     enc_string (bTopic b),
     enc_uint32 (ucast (bPartition b)),
     enc_string (bAcks b),
     enc_uint64 (bBatchStart b),
     enc_uint64 (bBatchEnd b),
     enc_uint32 (word_of_nat (length (bMessages b)))]"

definition routed :: "batch \<Rightarrow> message \<Rightarrow> message" where
  "routed b m = m\<lparr>mTopic := bTopic b, mPartition := bPartition b\<rparr>"

fun encodeBatchLoop :: "nat \<Rightarrow> batch \<Rightarrow> message list \<Rightarrow> binaryEncoder \<Rightarrow> wire_error + binaryEncoder" where
  "encodeBatchLoop index b [] e = Inr e"
| "encodeBatchLoop index b (m # ms) e =
     (case EncodeRecord (routed b m) of
        Inl err \<Rightarrow> Inl (RecordError index err)
      | Inr rec \<Rightarrow> encodeBatchLoop (Suc index) b ms (enc_bytes rec e))"

definition EncodeBatch :: "batch \<Rightarrow> wire_error + bytes" where
  "EncodeBatch b =
     (if \<not> int32_range (bPartition b) then Inl PartitionOutOfRange
      else if length (bMessages b) > MaxBatchRecords then Inl TooManyMessages
      else if length (bMessages b) > MaxUint32 then Inl TooManyMessages
      else case validateAcks (bAcks b) of
        Some err \<Rightarrow> Inl err
      | None \<Rightarrow>
          (let b = fillSequenceRange b;
               e = enc_seq (batch_header b) (newBinaryEncoder MaxFramePayload)
           in case encodeBatchLoop 0 b (bMessages b) e of
                Inl err \<Rightarrow> Inl err
              | Inr e \<Rightarrow> enc_result e))"

fun decodeBatchLoop :: "nat \<Rightarrow> nat \<Rightarrow> batch \<Rightarrow> binaryDecoder \<Rightarrow> wire_error + (batch \<times> binaryDecoder)" where
  "decodeBatchLoop 0 index b d = Inr (b, d)"
| "decodeBatchLoop (Suc n) index b d =
     (let (recordData, d) = dec_bytes d in
      case dec_err d of
        Some err \<Rightarrow> Inl err
      | None \<Rightarrow>
          (case DecodeRecord (case recordData of None \<Rightarrow> [] | Some bs \<Rightarrow> bs) of
             Inl err \<Rightarrow> Inl (RecordError index err)
           | Inr m \<Rightarrow>
               if mTopic m \<noteq> bTopic b \<or> mPartition m \<noteq> bPartition b then Inl RoutingConflict
               else decodeBatchLoop n (Suc index) (b\<lparr>bMessages := bMessages b @ [m]\<rparr>) d))"

definition DecodeBatch :: "bytes \<Rightarrow> wire_error + batch" where
  "DecodeBatch data =
    (let (magic, d) = dec_uint32 (newBinaryDecoder data) in
     case dec_err d of
       Some err \<Rightarrow> Inl err
     | None \<Rightarrow>
       if magic \<noteq> batchMagic then Inl BadMagic
       else let (version, d) = dec_uint16 d in
       if version \<noteq> batchVersion then Inl UnsupportedVersion
       else let (flags, d) = dec_uint16 d in
       if flags AND NOT batchFlagIdempotent \<noteq> 0 then Inl UnknownFlags
       else let
         (topic, d) = dec_string d;
         (partition, d) = dec_uint32 d;
         (acks, d) = dec_string d;
         (batchStart, d) = dec_uint64 d;
         (batchEnd, d) = dec_uint64 d;
         b = \<lparr>bTopic = topic, bPartition = scast partition, bBatchStart = batchStart, bBatchEnd = batchEnd,
              bAcks = acks, bIsIdempotent = (flags AND batchFlagIdempotent \<noteq> 0), bMessages = []\<rparr>
       in case validateAcks acks of
            Some err \<Rightarrow> Inl err
          | None \<Rightarrow>
            (let (count, d) = dec_uint32 d in
             if unat count > MaxBatchRecords then Inl TooManyMessages
             else case decodeBatchLoop (unat count) 0 b d of
               Inl err \<Rightarrow> Inl err
             | Inr (b, d) \<Rightarrow> (case dec_finish d of Some err \<Rightarrow> Inl err | None \<Rightarrow> Inr b)))"

subsection \<open>The normal form a batch is decoded to\<close>

definition wireMessage :: "batch \<Rightarrow> message \<Rightarrow> message" where
  "wireMessage b m = (routed b m)\<lparr>mRetryCount := 0, mRetry := False\<rparr>"

definition wireBatch :: "batch \<Rightarrow> batch" where
  "wireBatch b = (let b = fillSequenceRange b in b\<lparr>bMessages := map (wireMessage b) (bMessages b)\<rparr>)"

lemma fillSequenceRange_keeps [simp]:
  "bTopic (fillSequenceRange b) = bTopic b" "bPartition (fillSequenceRange b) = bPartition b"
  "bAcks (fillSequenceRange b) = bAcks b" "bIsIdempotent (fillSequenceRange b) = bIsIdempotent b"
  "bMessages (fillSequenceRange b) = bMessages b"
  by (simp_all add: fillSequenceRange_def Let_def)

subsection \<open>Lemmas on encoding\<close>

definition header_layout :: "batch \<Rightarrow> bytes" where
  "header_layout b =
    put_be 4 batchMagic @ put_be 2 batchVersion @
    put_be 2 (batchFlags b) @ lay_string (bTopic b) @
    put_be 4 (ucast (bPartition b) :: u32) @ lay_string (bAcks b) @ put_be 8 (bBatchStart b) @
    put_be 8 (bBatchEnd b) @ put_be 4 (word_of_nat (length (bMessages b)) :: u32)"

lemma batch_header_emits: "emits (enc_seq (batch_header b)) (header_layout b)"
proof -
  have "emits (enc_seq (batch_header b))
    (concat [put_be 4 batchMagic, put_be 2 batchVersion,
      put_be 2 (batchFlags b), lay_string (bTopic b),
      put_be 4 (ucast (bPartition b) :: u32), lay_string (bAcks b), put_be 8 (bBatchStart b),
      put_be 8 (bBatchEnd b), put_be 4 (word_of_nat (length (bMessages b)) :: u32)])"
    unfolding batch_header_def
    by (rule emits_seq) (simp only: list_all2_Cons list_all2_Nil emits_intros simp_thms)
  then show ?thesis
    by (simp only: header_layout_def concat.simps append_Nil2)
qed

lemma encodeBatchLoop_records:
  "encodeBatchLoop index b ms e = Inr e' \<Longrightarrow>
   \<exists>rs. list_all2 (\<lambda>m r. EncodeRecord (routed b m) = Inr r) ms rs \<and> e' = fold enc_bytes rs e"
proof (induction index b ms e rule: encodeBatchLoop.induct)
  case (1 index b e)
  then show ?case by simp
next
  case (2 index b m ms e)
  from "2.prems" obtain r where r: "EncodeRecord (routed b m) = Inr r"
    and loop: "encodeBatchLoop (Suc index) b ms (enc_bytes r e) = Inr e'"
    by (auto split: sum.splits)
  from "2.IH" [OF r loop] obtain rs where
    "list_all2 (\<lambda>m r. EncodeRecord (routed b m) = Inr r) ms rs" "e' = fold enc_bytes rs (enc_bytes r e)"
    by blast
  with r show ?case
    by (intro exI [of _ "r # rs"]) simp
qed

text \<open>A successful encoding, taken apart.\<close>

lemma EncodeBatch_records:
  assumes "EncodeBatch b = Inr bs"
  obtains rs where
    "list_all2 (\<lambda>m r. EncodeRecord (routed (fillSequenceRange b) m) = Inr r) (bMessages b) rs"
    "bs = header_layout (fillSequenceRange b) @ concat (map lay_bytes rs)"
    "length bs \<le> MaxFramePayload" "int32_range (bPartition b)" "validateAcks (bAcks b) = None"
    "length (bMessages b) \<le> MaxBatchRecords"
proof -
  let ?b = "fillSequenceRange b"
  from assms obtain e where ok: "int32_range (bPartition b)" "validateAcks (bAcks b) = None"
      "length (bMessages b) \<le> MaxBatchRecords"
    and loop: "encodeBatchLoop 0 ?b (bMessages b) (enc_seq (batch_header ?b) (newBinaryEncoder MaxFramePayload)) = Inr e"
    and res: "enc_result e = Inr bs"
    by (auto simp: EncodeBatch_def Let_def split: if_splits option.splits sum.splits)
  from encodeBatchLoop_records [OF loop] obtain rs where
    rs: "list_all2 (\<lambda>m r. EncodeRecord (routed ?b m) = Inr r) (bMessages b) rs"
    and e: "e = fold enc_bytes rs (enc_seq (batch_header ?b) (newBinaryEncoder MaxFramePayload))"
    by blast
  have "emits (\<lambda>e. fold enc_bytes rs (enc_seq (batch_header ?b) e)) (header_layout ?b @ concat (map lay_bytes rs))"
    by (rule emits_comp [OF batch_header_emits f_bytes.emits_all])
  from emits_result [OF this] res e have
    "bs = header_layout ?b @ concat (map lay_bytes rs)" "length bs \<le> MaxFramePayload"
    by auto
  with rs ok that show ?thesis by blast
qed

subsection \<open>Lemmas on decoding\<close>

lemma decodeBatchLoop_layout:
  assumes "list_all2 (\<lambda>m r. EncodeRecord (routed b0 m) = Inr r) ms rs"
    and "bTopic b = bTopic b0" and "bPartition b = bPartition b0"
    and "\<forall>r \<in> set rs. length r \<le> MaxUint32"
  shows "decodeBatchLoop (length ms) index b \<lparr>dec_rest = concat (map lay_bytes rs) @ rest, dec_err = None\<rparr> =
         Inr (b\<lparr>bMessages := bMessages b @ map (wireMessage b0) ms\<rparr>, \<lparr>dec_rest = rest, dec_err = None\<rparr>)"
  using assms
proof (induction ms rs arbitrary: index b rule: list_all2_induct)
  case Nil
  show ?case by simp
next
  case (Cons m ms r rs)
  let ?m = "wireMessage b0 m" and ?b = "b\<lparr>bMessages := bMessages b @ [wireMessage b0 m]\<rparr>"
  have dec: "DecodeRecord r = Inr ?m"
    using DecodeRecord_EncodeRecord [OF Cons.hyps(1)] by (simp add: wireMessage_def)
  have route: "mTopic ?m = bTopic b" "mPartition ?m = bPartition b"
    using Cons.prems by (simp_all add: wireMessage_def routed_def)
  have "decodeBatchLoop (length ms) (Suc index) ?b \<lparr>dec_rest = concat (map lay_bytes rs) @ rest, dec_err = None\<rparr> =
      Inr (?b\<lparr>bMessages := bMessages ?b @ map (wireMessage b0) ms\<rparr>, \<lparr>dec_rest = rest, dec_err = None\<rparr>)"
    using Cons.prems by (intro Cons.IH) simp_all
  with dec route Cons.prems(3) show ?case
    by (simp add: f_bytes.decode)
qed

lemma batch_flags:
  "batchFlags b AND NOT batchFlagIdempotent = 0"
  "(batchFlags b AND batchFlagIdempotent = 0) = (\<not> bIsIdempotent b)"
  by (simp_all add: batchFlags_def batchFlagIdempotent_def)

lemma DecodeBatch_EncodeBatch:
  assumes "EncodeBatch b = Inr bs"
  shows "DecodeBatch bs = Inr (wireBatch b)"
proof -
  let ?b = "fillSequenceRange b"
  from assms obtain rs where
    rs: "list_all2 (\<lambda>m r. EncodeRecord (routed ?b m) = Inr r) (bMessages b) rs"
    and bs: "bs = header_layout ?b @ concat (map lay_bytes rs)"
    and len: "length bs \<le> MaxFramePayload" and range: "int32_range (bPartition b)"
    and acks: "validateAcks (bAcks b) = None" and count: "length (bMessages b) \<le> MaxBatchRecords"
    by (rule EncodeBatch_records)
  have big: "MaxFramePayload \<le> MaxUint32"
    by (simp add: MaxFramePayload_def MaxUint32_def)
  have topic: "length (bTopic b) \<le> MaxUint32" and acksLen: "length (bAcks b) \<le> MaxUint32"
    using len big unfolding bs header_layout_def by simp_all
  have fit: "\<forall>r \<in> set rs. length r \<le> MaxUint32"
    using EncodeRecord_layout(2) rs big by (fastforce simp: list_all2_conv_all_nth in_set_conv_nth intro: le_trans)
  have n: "unat (word_of_nat (length (bMessages b)) :: u32) = length (bMessages b)"
    using count by (intro unat_length_u32) (simp add: MaxBatchRecords_def MaxUint32_def)
  let ?empty = "?b\<lparr>bMessages := []\<rparr>"
  have loop: "decodeBatchLoop (length (bMessages b)) 0 ?empty \<lparr>dec_rest = concat (map lay_bytes rs), dec_err = None\<rparr> =
      Inr (wireBatch b, \<lparr>dec_rest = [], dec_err = None\<rparr>)"
    using decodeBatchLoop_layout [OF rs, of ?empty 0 "[]"] fit by (simp add: wireBatch_def Let_def)
  have eta: "\<lparr>bTopic = bTopic b, bPartition = bPartition b, bBatchStart = bBatchStart ?b, bBatchEnd = bBatchEnd ?b,
      bAcks = bAcks b, bIsIdempotent = bIsIdempotent b, bMessages = []\<rparr> = ?empty"
    by (rule batch.equality) simp_all
  have d: "newBinaryDecoder bs = \<lparr>dec_rest = header_layout ?b @ concat (map lay_bytes rs), dec_err = None\<rparr>"
    using len by (simp add: newBinaryDecoder_def bs)
  show ?thesis
    unfolding DecodeBatch_def d unfolding header_layout_def
    using range acks count
    by (simp add: record_decode_steps topic acksLen n scast_ucast_int32 batch_flags eta loop dec_finish_def)
qed

text \<open>Whatever \<open>DecodeBatch\<close> accepts is routed as its header says.\<close>

lemma decodeBatchLoop_sound:
  assumes "decodeBatchLoop n index b d = Inr (b', d')"
    and "\<forall>m \<in> set (bMessages b). mTopic m = bTopic b \<and> mPartition m = bPartition b"
  shows "(\<forall>m \<in> set (bMessages b'). mTopic m = bTopic b' \<and> mPartition m = bPartition b') \<and>
    length (bMessages b') = length (bMessages b) + n \<and> bTopic b' = bTopic b \<and> bAcks b' = bAcks b"
  using assms
proof (induction n index b d rule: decodeBatchLoop.induct)
  case (1 index b d)
  then show ?case by simp
next
  case (2 n index b d)
  obtain data d1 where dec: "dec_bytes d = (data, d1)" by fastforce
  with "2.prems"(1) obtain m where err: "dec_err d1 = None"
    and m: "DecodeRecord (case data of None \<Rightarrow> [] | Some bs \<Rightarrow> bs) = Inr m"
    and route: "mTopic m = bTopic b" "mPartition m = bPartition b"
    and loop: "decodeBatchLoop n (Suc index) (b\<lparr>bMessages := bMessages b @ [m]\<rparr>) d1 = Inr (b', d')"
    by (auto split: option.splits sum.splits if_splits)
  from "2.IH" [OF dec [symmetric] refl err m _ loop] "2.prems"(2) route show ?case
    by auto
qed

lemma DecodeBatch_sound:
  assumes "DecodeBatch bs = Inr b"
  shows "\<forall>m \<in> set (bMessages b). mTopic m = bTopic b \<and> mPartition m = bPartition b"
    and "length (bMessages b) \<le> MaxBatchRecords" and "validateAcks (bAcks b) = None"
  using assms
  by (auto simp: DecodeBatch_def Let_def split: prod.splits option.splits if_splits sum.splits
      dest!: decodeBatchLoop_sound)

lemma encodeBatchLoop_ok:
  "list_all2 (\<lambda>m r. EncodeRecord (routed b m) = Inr r) ms rs \<Longrightarrow>
   encodeBatchLoop index b ms e = Inr (fold enc_bytes rs e)"
  by (induction arbitrary: index e rule: list_all2_induct) simp_all

lemma EncodeBatch_ok:
  assumes "int32_range (bPartition b)" "length (bMessages b) \<le> MaxBatchRecords" "validateAcks (bAcks b) = None"
    and "list_all2 (\<lambda>m r. EncodeRecord (routed (fillSequenceRange b) m) = Inr r) (bMessages b) rs"
    and "length (header_layout (fillSequenceRange b) @ concat (map lay_bytes rs)) \<le> MaxFramePayload"
  shows "EncodeBatch b = Inr (header_layout (fillSequenceRange b) @ concat (map lay_bytes rs))"
proof -
  let ?b = "fillSequenceRange b"
  have "emits (\<lambda>e. fold enc_bytes rs (enc_seq (batch_header ?b) e)) (header_layout ?b @ concat (map lay_bytes rs))"
    by (rule emits_comp [OF batch_header_emits f_bytes.emits_all])
  then have "enc_result (fold enc_bytes rs (enc_seq (batch_header ?b) (newBinaryEncoder MaxFramePayload))) =
      Inr (header_layout ?b @ concat (map lay_bytes rs))"
    using assms(5) by (rule emits_result_ok) (simp add: MaxFramePayload_def MaxUint32_def)
  then show ?thesis
    using assms(1-3) encodeBatchLoop_ok [OF assms(4)]
    by (simp add: EncodeBatch_def MaxBatchRecords_def MaxUint32_def Let_def)
qed

subsection \<open>Properties of the batch codec\<close>

text \<open>C24: a batch that encodes decodes to its wire form: the batch with its sequence range filled in
  from its messages and each message routed to the batch's topic and partition. The messages keep their
  order and every field but the retry bookkeeping.\<close>

theorem batch_round_trip:
  assumes "EncodeBatch b = Inr bs"
  shows "DecodeBatch bs = Inr (wireBatch b)"
  using assms by (rule DecodeBatch_EncodeBatch)

definition sample_batch :: batch where
  "sample_batch = \<lparr>bTopic = ''t'', bPartition = 1, bBatchStart = 0, bBatchEnd = 0, bAcks = ''1'',
     bIsIdempotent = True, bMessages = [zeroMessage\<lparr>mPayload := ''a'', mSeqNum := 4\<rparr>]\<rparr>"

lemma sample_batch_encodes: "\<exists>bs. EncodeBatch sample_batch = Inr bs"
proof -
  let ?m = "routed (fillSequenceRange sample_batch) (zeroMessage\<lparr>mPayload := ''a'', mSeqNum := 4\<rparr>)"
  let ?r = "record_layout (recordPresence ?m) ?m"
  have m: "?m = zeroMessage\<lparr>mTopic := ''t'', mPartition := 1, mPayload := ''a'', mSeqNum := 4\<rparr>"
    by (simp add: routed_def) (simp add: sample_batch_def zeroMessage_def)
  have len: "length ?r \<le> 100"
    unfolding m record_layout_def recordPresence_bits
    by (simp add: zeroMessage_def lay_string_def lay_opt_def)
  have "int32_range (mPartition ?m)" "validateTransactionFields ?m = None"
    unfolding m by (simp_all add: zeroMessage_def int32_range_def validateTransactionFields_def)
  then have r: "EncodeRecord ?m = Inr ?r"
    by (rule EncodeRecord_ok) (use len in \<open>simp add: MaxFramePayload_def\<close>)
  have msgs: "bMessages sample_batch = [zeroMessage\<lparr>mPayload := ''a'', mSeqNum := 4\<rparr>]"
    by (simp add: sample_batch_def)
  have "EncodeBatch sample_batch = Inr (header_layout (fillSequenceRange sample_batch) @ concat (map lay_bytes [?r]))"
  proof (rule EncodeBatch_ok)
    show "list_all2 (\<lambda>m r. EncodeRecord (routed (fillSequenceRange sample_batch) m) = Inr r)
        (bMessages sample_batch) [?r]"
      using r by (simp only: msgs list_all2_Cons list_all2_Nil)
    show "length (header_layout (fillSequenceRange sample_batch) @ concat (map lay_bytes [?r])) \<le> MaxFramePayload"
      using len by (simp add: header_layout_def lay_string_def lay_bytes_def MaxFramePayload_def)
        (simp add: sample_batch_def)
  qed (simp_all add: sample_batch_def int32_range_def MaxBatchRecords_def validateAcks_def)
  then show ?thesis by blast
qed

theorem batch_round_trip_witness:
  "\<exists>bs. EncodeBatch sample_batch = Inr bs \<and> DecodeBatch bs = Inr (wireBatch sample_batch)"
  using sample_batch_encodes batch_round_trip [of sample_batch] by blast

text \<open>C25: whatever bytes a producer sends, a batch that \<open>DecodeBatch\<close> accepts has at most
  \<open>MaxBatchRecords\<close> messages, a legal acknowledgement level, and every message of it is routed to
  the topic and partition of the batch.\<close>

theorem batch_decode_sound:
  assumes "DecodeBatch bs = Inr b"
  shows "(\<forall>m \<in> set (bMessages b). mTopic m = bTopic b \<and> mPartition m = bPartition b) \<and>
         length (bMessages b) \<le> MaxBatchRecords \<and> validateAcks (bAcks b) = None"
  using DecodeBatch_sound [OF assms] by blast

theorem batch_decode_sound_witness:
  "\<exists>bs. DecodeBatch bs = Inr (wireBatch sample_batch) \<and>
        (\<forall>m \<in> set (bMessages (wireBatch sample_batch)). mTopic m = ''t'' \<and> mPartition m = 1)"
proof -
  obtain bs where bs: "DecodeBatch bs = Inr (wireBatch sample_batch)"
    using sample_batch_encodes DecodeBatch_EncodeBatch by blast
  have "bTopic (wireBatch sample_batch) = ''t''" "bPartition (wireBatch sample_batch) = 1"
    by (simp_all add: wireBatch_def Let_def) (simp_all add: sample_batch_def)
  then show ?thesis
    using bs batch_decode_sound [OF bs] by auto
qed

end
