(* ===== verification/Wire_Frame.thy ===== *)
theory Wire_Frame
  imports Wire_Binary
begin

section \<open>Frames\<close>

text \<open>
  \<open>pkg/wire/types.go\<close>, \<open>frame.go\<close> and \<open>compression.go\<close>: the 32-byte frame header, its semantic
  checks, the CRC-32C checksum, the bounded compression layer and the codec that ties them together.

  The compression libraries (\<open>compress/gzip\<close>, \<open>eapache/go-xerial-snappy\<close>, \<open>golang/snappy\<close>,
  \<open>pierrec/lz4\<close>) are the record \<open>codecs\<close> of functions, an argument of every definition that calls
  them; what the round trip needs of them is the hypothesis \<open>lossless\<close>. \<open>hash/crc32\<close> is defined
  bit by bit. A reader is the list of bytes it still holds; \<open>recordProtocolFailure\<close> and
  \<open>recordDecompressionRejection\<close> only count metrics and are left out.
\<close>

datatype frame_error =
    ErrInvalidFrame
  | ErrFrameTooLarge
  | ErrChecksumMismatch
  | ErrCompressionMismatch
  | ErrCompress               \<comment> \<open>an error of \<open>Compress\<close>\<close>
  | ErrDecompressionRejected
  | ErrRead                   \<comment> \<open>\<open>io.ReadFull\<close> on a reader that ends too early\<close>

subsection \<open>Kinds, statuses, compressions\<close>

definition ProtocolVersion :: u16 where "ProtocolVersion = 2"
definition HeaderSize :: nat where "HeaderSize = 32"

definition KindNegotiationRequest :: byte where "KindNegotiationRequest = 1"
definition KindNegotiationResponse :: byte where "KindNegotiationResponse = 2"
definition KindRequest :: byte where "KindRequest = 3"
definition KindResponse :: byte where "KindResponse = 4"
definition KindStream :: byte where "KindStream = 5"

lemmas kind_defs = KindNegotiationRequest_def KindNegotiationResponse_def KindRequest_def
  KindResponse_def KindStream_def

definition kind_valid :: "byte \<Rightarrow> bool" where
  "kind_valid k \<longleftrightarrow> k \<ge> KindNegotiationRequest \<and> k \<le> KindStream"

definition kind_negotiation :: "byte \<Rightarrow> bool" where
  "kind_negotiation k \<longleftrightarrow> k = KindNegotiationRequest \<or> k = KindNegotiationResponse"

definition StatusNone :: u16 where "StatusNone = 0"
definition StatusOK :: u16 where "StatusOK = 1"
definition StatusError :: u16 where "StatusError = 2"
definition StatusStreamEnd :: u16 where "StatusStreamEnd = 3"

definition status_valid :: "u16 \<Rightarrow> bool" where
  "status_valid s \<longleftrightarrow> s \<ge> StatusOK \<and> s \<le> StatusStreamEnd"

definition CompressionNone :: byte where "CompressionNone = 0"
definition CompressionGZIP :: byte where "CompressionGZIP = 1"
definition CompressionSnappy :: byte where "CompressionSnappy = 2"
definition CompressionLZ4 :: byte where "CompressionLZ4 = 3"

lemmas compression_defs = CompressionNone_def CompressionGZIP_def CompressionSnappy_def CompressionLZ4_def

definition compression_valid :: "byte \<Rightarrow> bool" where
  "compression_valid c \<longleftrightarrow> c \<le> CompressionLZ4"

definition ParseCompression :: "string \<Rightarrow> byte option" where
  "ParseCompression value =
     (if value = '''' \<or> value = ''none'' then Some CompressionNone
      else if value = ''gzip'' then Some CompressionGZIP
      else if value = ''snappy'' then Some CompressionSnappy
      else if value = ''lz4'' then Some CompressionLZ4
      else None)"

definition CommandNegotiate :: u16 where "CommandNegotiate = 46"
definition commandCount :: nat where "commandCount = 52"

definition command_valid :: "u16 \<Rightarrow> bool" where
  "command_valid c \<longleftrightarrow> c > 0 \<and> unat c < commandCount"

subsection \<open>CRC-32\<close>

definition crc32_step :: "u32 \<Rightarrow> u32 \<Rightarrow> u32" where
  "crc32_step poly c = (if bit c 0 then drop_bit 1 c XOR poly else drop_bit 1 c)"

definition crc32_byte :: "u32 \<Rightarrow> byte \<Rightarrow> u32 \<Rightarrow> u32" where
  "crc32_byte poly b c = (crc32_step poly ^^ 8) (c XOR ucast b)"

definition crc32 :: "u32 \<Rightarrow> bytes \<Rightarrow> u32" where
  "crc32 poly data = NOT (fold (crc32_byte poly) data (NOT 0))"

definition Castagnoli :: u32 where "Castagnoli = 0x82f63b78"
definition IEEE :: u32 where "IEEE = 0xedb88320"

subsection \<open>Compression\<close>

text \<open>A decompressing reader: the bytes it yields, and whether it then ends cleanly.\<close>

type_synonym stream = "bytes \<times> bool"

record codecs =
  gzipWrite :: "bytes \<Rightarrow> bytes option"
  gzipOpen :: "bytes \<Rightarrow> stream option"
  gzipClose :: "bytes \<Rightarrow> bool"
  snappyEncode :: "bytes \<Rightarrow> bytes"
  snappyDecode :: "bytes \<Rightarrow> bytes option"
  snappyDecodedLen :: "bytes \<Rightarrow> nat option"
  lz4Write :: "bytes \<Rightarrow> bytes option"
  lz4Read :: "bytes \<Rightarrow> stream"

definition Compress :: "codecs \<Rightarrow> bytes \<Rightarrow> byte \<Rightarrow> bytes option" where
  "Compress cs payload algorithm =
     (if length payload > MaxFramePayload then None
      else case
        (if algorithm = CompressionNone then Some payload
         else if algorithm = CompressionGZIP then gzipWrite cs payload
         else if algorithm = CompressionSnappy then Some (snappyEncode cs payload)
         else if algorithm = CompressionLZ4 then lz4Write cs payload
         else None) of
        None \<Rightarrow> None
      | Some encoded \<Rightarrow> if length encoded > MaxFramePayload then None else Some encoded)"

definition readBounded :: "stream \<Rightarrow> nat \<Rightarrow> bytes option" where
  "readBounded reader expected =
     (let limit = min (expected + 1) (MaxFramePayload + 1);
          (content, clean) = reader
      in if length content < limit \<and> \<not> clean then None
         else let decoded = take limit content in
           if length decoded > expected then None else Some decoded)"

definition xerialSnappyHeader :: bytes where
  "xerialSnappyHeader = [130, 83, 78, 65, 80, 80, 89, 0]"

function snappyBlocks :: "codecs \<Rightarrow> nat \<Rightarrow> bytes \<Rightarrow> nat option" where
  "snappyBlocks cs acc rest =
     (if rest = [] then Some acc
      else if length rest < 4 then None
      else let blockSize = unat (get_be (take 4 rest) :: u32); rest' = drop 4 rest in
        if blockSize > length rest' then None
        else case snappyDecodedLen cs (take blockSize rest') of
          None \<Rightarrow> None
        | Some decoded \<Rightarrow>
            if int decoded > int MaxFramePayload - int acc then None
            else snappyBlocks cs (acc + decoded) (drop blockSize rest'))"
  by pat_completeness auto
termination
  by (relation "measure (\<lambda>(cs, acc, rest). length rest)") simp_all

definition snappyDecodedSize :: "codecs \<Rightarrow> bytes \<Rightarrow> nat option" where
  "snappyDecodedSize cs payload =
     (if length payload < length xerialSnappyHeader \<or>
         take (length xerialSnappyHeader) payload \<noteq> xerialSnappyHeader
      then snappyDecodedLen cs payload
      else if length payload < 16 then None
      else snappyBlocks cs 0 (drop 16 payload))"

definition decompress :: "codecs \<Rightarrow> bytes \<Rightarrow> byte \<Rightarrow> nat \<Rightarrow> bytes option" where
  "decompress cs payload algorithm decodedSize =
     (if length payload > MaxFramePayload then None
      else if decodedSize > MaxFramePayload then None
      else if algorithm = CompressionNone then
        (if length payload \<noteq> decodedSize then None else Some payload)
      else case
        (if algorithm = CompressionGZIP then
           (case gzipOpen cs payload of
              None \<Rightarrow> None
            | Some reader \<Rightarrow>
                (case readBounded reader decodedSize of
                   None \<Rightarrow> None
                 | Some decoded \<Rightarrow> if gzipClose cs payload then Some decoded else None))
         else if algorithm = CompressionSnappy then
           (case snappyDecodedSize cs payload of
              None \<Rightarrow> None
            | Some n \<Rightarrow> if n \<noteq> decodedSize then None else snappyDecode cs payload)
         else if algorithm = CompressionLZ4 then readBounded (lz4Read cs payload) decodedSize
         else None) of
        None \<Rightarrow> None
      | Some decoded \<Rightarrow> if length decoded \<noteq> decodedSize then None else Some decoded)"

text \<open>What the round trip needs of the library behind \<open>algorithm\<close>, at one payload.\<close>

definition lossless :: "codecs \<Rightarrow> byte \<Rightarrow> bytes \<Rightarrow> bool" where
  "lossless cs algorithm payload \<longleftrightarrow>
     (algorithm = CompressionGZIP \<longrightarrow>
        (\<forall>z. gzipWrite cs payload = Some z \<longrightarrow> gzipOpen cs z = Some (payload, True) \<and> gzipClose cs z)) \<and>
     (algorithm = CompressionSnappy \<longrightarrow>
        snappyDecodedSize cs (snappyEncode cs payload) = Some (length payload) \<and>
        snappyDecode cs (snappyEncode cs payload) = Some payload) \<and>
     (algorithm = CompressionLZ4 \<longrightarrow>
        (\<forall>z. lz4Write cs payload = Some z \<longrightarrow> lz4Read cs z = (payload, True)))"

subsection \<open>The codec\<close>

record frame =
  fVersion :: u16
  fKind :: byte
  fCommand :: u16
  fStatus :: u16
  fRequestID :: u64
  fPayload :: bytes

definition frameMagic :: u32 where "frameMagic = 0x43525332"
definition flagCompressionExplicit :: byte where "flagCompressionExplicit = 1"
definition flagCompressionMask :: byte where "flagCompressionMask = 0x0e"
definition validFrameFlags :: byte where "validFrameFlags = flagCompressionExplicit OR flagCompressionMask"

text \<open>A \<open>*Codec\<close> is the compression it was built for, or nil.\<close>

type_synonym codec = "byte option"

definition NewCodec :: "byte \<Rightarrow> frame_error + codec" where
  "NewCodec compression =
     (if \<not> compression_valid compression then Inl ErrCompressionMismatch else Inr (Some compression))"

definition codec_Compression :: "codec \<Rightarrow> byte" where
  "codec_Compression c = (case c of None \<Rightarrow> CompressionNone | Some compression \<Rightarrow> compression)"

definition validateFrameSemantics :: "frame \<Rightarrow> frame_error option" where
  "validateFrameSemantics f =
     (if fKind f = KindNegotiationRequest \<and> fStatus f \<noteq> StatusNone then Some ErrInvalidFrame
      else if (fKind f = KindNegotiationResponse \<or> fKind f = KindResponse) \<and>
              fStatus f \<noteq> StatusOK \<and> fStatus f \<noteq> StatusError then Some ErrInvalidFrame
      else if fKind f = KindResponse \<and> fRequestID f = 0 then Some ErrInvalidFrame
      else if fKind f = KindRequest \<and> fStatus f \<noteq> StatusNone then Some ErrInvalidFrame
      else if fKind f = KindRequest \<and> fRequestID f = 0 then Some ErrInvalidFrame
      else if fKind f = KindStream \<and> \<not> status_valid (fStatus f) then Some ErrInvalidFrame
      else if fKind f = KindStream \<and> fRequestID f = 0 then Some ErrInvalidFrame
      else if kind_negotiation (fKind f) \<and> fCommand f \<noteq> CommandNegotiate then Some ErrInvalidFrame
      else if \<not> command_valid (fCommand f) then Some ErrInvalidFrame
      else None)"

definition frame_header :: "frame \<Rightarrow> u16 \<Rightarrow> byte \<Rightarrow> bytes \<Rightarrow> bytes" where
  "frame_header f version flags encoded =
     put_be 4 frameMagic @ put_be 2 version @ [fKind f] @ [flags] @
     put_be 2 (fCommand f) @ put_be 2 (fStatus f) @ put_be 8 (fRequestID f) @
     put_be 4 (word_of_nat (length encoded) :: u32) @
     put_be 4 (word_of_nat (length (fPayload f)) :: u32) @
     put_be 4 (crc32 Castagnoli encoded)"

definition frame_flags :: "byte \<Rightarrow> byte \<Rightarrow> byte" where
  "frame_flags kind compression =
     (if kind_negotiation kind then 0 else flagCompressionExplicit OR push_bit 1 compression)"

definition frame_compression :: "byte \<Rightarrow> byte \<Rightarrow> byte" where
  "frame_compression kind compression = (if kind_negotiation kind then CompressionNone else compression)"

definition Encode :: "codecs \<Rightarrow> codec \<Rightarrow> frame \<Rightarrow> frame_error + bytes" where
  "Encode cs c f =
     (case c of
        None \<Rightarrow> Inl ErrInvalidFrame
      | Some compression \<Rightarrow>
          (let version = (if fVersion f = 0 then ProtocolVersion else fVersion f) in
           if version \<noteq> ProtocolVersion \<or> \<not> kind_valid (fKind f) then Inl ErrInvalidFrame
           else case validateFrameSemantics f of
             Some err \<Rightarrow> Inl err
           | None \<Rightarrow>
               if length (fPayload f) > MaxFramePayload then Inl ErrFrameTooLarge
               else case Compress cs (fPayload f) (frame_compression (fKind f) compression) of
                 None \<Rightarrow> Inl ErrCompress
               | Some encoded \<Rightarrow>
                   if length encoded > MaxFramePayload then Inl ErrFrameTooLarge
                   else Inr (frame_header f version (frame_flags (fKind f) compression) encoded @ encoded)))"

record decodedHeader =
  hFrame :: frame
  hCompression :: byte
  hEncodedSize :: u32
  hDecodedSize :: u32
  hChecksum :: u32

definition slice :: "nat \<Rightarrow> nat \<Rightarrow> 'a list \<Rightarrow> 'a list" where
  "slice from to xs = take (to - from) (drop from xs)"

definition decodeHeader :: "codec \<Rightarrow> bytes \<Rightarrow> frame_error + decodedHeader" where
  "decodeHeader c header =
     (case c of
        None \<Rightarrow> Inl ErrInvalidFrame
      | Some negotiated \<Rightarrow>
          if length header \<noteq> HeaderSize then Inl ErrInvalidFrame
          else if get_be (slice 0 4 header) \<noteq> frameMagic then Inl ErrInvalidFrame
          else let version = get_be (slice 4 6 header) :: u16;
                   kind = header ! 6;
                   flags = header ! 7
            in if version \<noteq> ProtocolVersion \<or> \<not> kind_valid kind \<or> flags AND NOT validFrameFlags \<noteq> 0
               then Inl ErrInvalidFrame
               else if kind_negotiation kind \<and> flags \<noteq> 0 then Inl ErrCompressionMismatch
               else if \<not> kind_negotiation kind \<and> flags AND flagCompressionExplicit = 0
               then Inl ErrCompressionMismatch
               else let compression =
                      (if kind_negotiation kind then CompressionNone
                       else drop_bit 1 (flags AND flagCompressionMask))
                 in if \<not> kind_negotiation kind \<and> (\<not> compression_valid compression \<or> compression \<noteq> negotiated)
                    then Inl ErrCompressionMismatch
                    else let encodedSize = get_be (slice 20 24 header) :: u32;
                             decodedSize = get_be (slice 24 28 header) :: u32
                      in if unat encodedSize > MaxFramePayload \<or> unat decodedSize > MaxFramePayload
                         then Inl ErrFrameTooLarge
                         else let f = \<lparr>fVersion = version, fKind = kind,
                                       fCommand = get_be (slice 8 10 header),
                                       fStatus = get_be (slice 10 12 header),
                                       fRequestID = get_be (slice 12 20 header), fPayload = []\<rparr>
                           in case validateFrameSemantics f of
                                Some err \<Rightarrow> Inl err
                              | None \<Rightarrow>
                                  Inr \<lparr>hFrame = f, hCompression = compression, hEncodedSize = encodedSize,
                                       hDecodedSize = decodedSize, hChecksum = get_be (slice 28 32 header)\<rparr>)"

definition decodePayload :: "codecs \<Rightarrow> decodedHeader \<Rightarrow> bytes \<Rightarrow> frame_error + frame" where
  "decodePayload cs h encoded =
     (if crc32 Castagnoli encoded \<noteq> hChecksum h then Inl ErrChecksumMismatch
      else case decompress cs encoded (hCompression h) (unat (hDecodedSize h)) of
        None \<Rightarrow> Inl ErrDecompressionRejected
      | Some payload \<Rightarrow> Inr ((hFrame h)\<lparr>fPayload := payload\<rparr>))"

definition Decode :: "codecs \<Rightarrow> codec \<Rightarrow> bytes \<Rightarrow> frame_error + frame" where
  "Decode cs c encodedFrame =
     (if length encodedFrame < HeaderSize then Inl ErrInvalidFrame
      else case decodeHeader c (take HeaderSize encodedFrame) of
        Inl err \<Rightarrow> Inl err
      | Inr h \<Rightarrow>
          if length encodedFrame - HeaderSize \<noteq> unat (hEncodedSize h) then Inl ErrInvalidFrame
          else decodePayload cs h (drop HeaderSize encodedFrame))"

definition ReadFrame :: "codecs \<Rightarrow> codec \<Rightarrow> bytes \<Rightarrow> frame_error + (frame \<times> bytes)" where
  "ReadFrame cs c reader =
     (case c of
        None \<Rightarrow> Inl ErrInvalidFrame
      | Some _ \<Rightarrow>
          if length reader < HeaderSize then Inl ErrRead
          else case decodeHeader c (take HeaderSize reader) of
            Inl err \<Rightarrow> Inl err
          | Inr h \<Rightarrow>
              (let rest = drop HeaderSize reader; n = unat (hEncodedSize h) in
               if length rest < n then Inl ErrRead
               else case decodePayload cs h (take n rest) of
                 Inl err \<Rightarrow> Inl err
               | Inr f \<Rightarrow> Inr (f, drop n rest)))"

declare snappyBlocks.simps [simp del]

subsection \<open>The checksum\<close>

text \<open>A polynomial with its top bit set makes one shift of the register invertible.\<close>

lemma xor_cancel: "a XOR p = b XOR p \<Longrightarrow> a = (b :: u32)"
  by (drule arg_cong [where f = "\<lambda>w. w XOR p"]) (simp add: xor.assoc)

lemma crc32_step_bit31:
  assumes "bit p 31"
  shows "bit (crc32_step p c) 31 = bit c 0"
  using assms bit_imp_le_length [of c 32] by (auto simp: crc32_step_def bit_xor_iff bit_drop_bit_eq)

lemma crc32_step_inj:
  assumes "bit p 31"
  shows "inj (crc32_step p)"
proof (rule injI)
  fix c d
  assume eq: "crc32_step p c = crc32_step p d"
  then have low: "bit c 0 = bit d 0"
    using crc32_step_bit31 [OF assms] by metis
  then have half: "drop_bit 1 c = drop_bit 1 d"
    using eq xor_cancel by (auto simp: crc32_step_def split: if_splits)
  show "c = d"
  proof (rule bit_eqI)
    fix n
    show "bit c n = bit d n"
      using low arg_cong [OF half, of "\<lambda>w. bit w (n - 1)"] by (cases n) (auto simp: bit_drop_bit_eq)
  qed
qed

lemma crc32_byte_inj:
  assumes "bit p 31"
  shows "inj (crc32_byte p b)"
proof (rule injI)
  fix c d
  assume "crc32_byte p b c = crc32_byte p b d"
  then have "c XOR ucast b = d XOR ucast b"
    using inj_fn [OF crc32_step_inj [OF assms], of 8] by (simp add: crc32_byte_def inj_def)
  then show "c = d"
    by (rule xor_cancel)
qed

lemma unat_ucast_byte: "unat (ucast (b :: byte) :: u32) = unat b"
  using unsigned_less [of b, where 'a = nat] by (simp add: unsigned_ucast_eq take_bit_nat_eq_self)

lemma ucast_byte_inj: "(ucast (b :: byte) :: u32) = ucast b' \<Longrightarrow> b = b'"
  by (metis unat_ucast_byte unsigned_word_eqI)

lemma crc32_byte_inj_data:
  assumes "bit p 31" "crc32_byte p b c = crc32_byte p b' c"
  shows "b = b'"
proof -
  have "c XOR ucast b = c XOR (ucast b' :: u32)"
    using inj_fn [OF crc32_step_inj [OF assms(1)], of 8] assms(2) by (simp add: crc32_byte_def inj_def)
  then have "(ucast b :: u32) = ucast b'"
    using xor_cancel xor.commute by metis
  then show ?thesis
    by (rule ucast_byte_inj)
qed

lemma crc32_fold_inj:
  assumes "bit p 31"
  shows "fold (crc32_byte p) ys c = fold (crc32_byte p) ys d \<longleftrightarrow> c = d"
proof (induction ys arbitrary: c d)
  case (Cons y ys)
  then show ?case
    using crc32_byte_inj [OF assms, of y] by (auto simp: inj_def)
qed simp

lemma crc32_one_byte:
  assumes "bit p 31" "b \<noteq> b'"
  shows "crc32 p (xs @ b # ys) \<noteq> crc32 p (xs @ b' # ys)"
proof
  assume "crc32 p (xs @ b # ys) = crc32 p (xs @ b' # ys)"
  then have "NOT (NOT (fold (crc32_byte p) (xs @ b # ys) (NOT 0))) =
             NOT (NOT (fold (crc32_byte p) (xs @ b' # ys) (NOT 0)))"
    by (simp only: crc32_def)
  then show False
    using crc32_byte_inj_data [OF assms(1)] assms(2) by (auto simp: crc32_fold_inj [OF assms(1)])
qed

lemma castagnoli_bit31 [simp]: "bit Castagnoli 31"
  by (simp add: Castagnoli_def)

text \<open>Evaluation of the checksum on literals.\<close>

lemma crc32_step_numeral:
  "crc32_step p (numeral w) =
     (if odd (numeral w :: u32) then drop_bit 1 (numeral w) XOR p else drop_bit 1 (numeral w))"
  by (simp add: crc32_step_def bit_0)

lemma crc32_byte_steps:
  "crc32_byte p b c = (let s = crc32_step p in s (s (s (s (s (s (s (s (c XOR ucast b)))))))))"
  by (simp add: crc32_byte_def Let_def eval_nat_numeral)

lemma crc32_literal: "crc32 p data = NOT (fold (crc32_byte p) data 0xffffffff)"
proof -
  have "NOT 0 = (0xffffffff :: u32)"
    by simp
  then show ?thesis
    by (simp only: crc32_def)
qed

lemma crc32c_check_value: "crc32 Castagnoli (bytes_of_string ''123456789'') = 0xe3069283"
  by (simp add: crc32_literal bytes_of_string_def byte_of_char_def Castagnoli_def
      crc32_byte_steps crc32_step_numeral)

lemma crc32_check_value: "crc32 IEEE (bytes_of_string ''123456789'') = 0xcbf43926"
  by (simp add: crc32_literal bytes_of_string_def byte_of_char_def IEEE_def
      crc32_byte_steps crc32_step_numeral)

subsection \<open>Compression\<close>

lemma Compress_bounded: "Compress cs p a = Some z \<Longrightarrow> length p \<le> MaxFramePayload \<and> length z \<le> MaxFramePayload"
  by (auto simp: Compress_def split: if_splits option.splits)

lemma readBounded_exact: "length p \<le> MaxFramePayload \<Longrightarrow> readBounded (p, True) (length p) = Some p"
  by (simp add: readBounded_def)

lemma readBounded_length: "readBounded r n = Some p \<Longrightarrow> length p \<le> n"
  by (auto simp: readBounded_def Let_def split: prod.splits if_splits)

lemma decompress_Compress:
  assumes "lossless cs a p" "Compress cs p a = Some z"
  shows "decompress cs z a (length p) = Some p"
proof -
  note bounded = Compress_bounded [OF assms(2)]
  consider "a = CompressionNone" | "a = CompressionGZIP" | "a = CompressionSnappy" | "a = CompressionLZ4"
    | "a \<notin> {CompressionNone, CompressionGZIP, CompressionSnappy, CompressionLZ4}"
    by blast
  then show ?thesis
  proof cases
    case 1
    then show ?thesis
      using assms(2) bounded by (simp add: Compress_def decompress_def split: if_splits)
  next
    case 2
    moreover from this have "gzipWrite cs p = Some z"
      using assms(2) by (simp add: Compress_def compression_defs split: if_splits option.splits)
    ultimately show ?thesis
      using assms(1) bounded
      by (simp add: lossless_def decompress_def readBounded_exact compression_defs)
  next
    case 3
    moreover from this have "snappyEncode cs p = z"
      using assms(2) by (simp add: Compress_def compression_defs split: if_splits)
    ultimately show ?thesis
      using assms(1) bounded by (auto simp: lossless_def decompress_def compression_defs)
  next
    case 4
    moreover from this have "lz4Write cs p = Some z"
      using assms(2) by (simp add: Compress_def compression_defs split: if_splits option.splits)
    ultimately show ?thesis
      using assms(1) bounded
      by (simp add: lossless_def decompress_def readBounded_exact compression_defs)
  next
    case 5
    then show ?thesis
      using assms(2) by (simp add: Compress_def split: if_splits)
  qed
qed

lemma decompress_length:
  "decompress cs z a n = Some p \<Longrightarrow> length p = n \<and> n \<le> MaxFramePayload \<and> length z \<le> MaxFramePayload"
  by (auto simp: decompress_def split: if_splits option.splits)

subsection \<open>Headers\<close>

lemma compression_cases: "compression_valid c \<Longrightarrow> c = 0 \<or> c = 1 \<or> c = 2 \<or> c = 3"
proof -
  assume "compression_valid c"
  then have "unat c \<le> 3"
    by (simp add: compression_valid_def CompressionLZ4_def word_le_nat_alt)
  then have "unat c = unat (0 :: byte) \<or> unat c = unat (1 :: byte) \<or> unat c = unat (2 :: byte) \<or>
             unat c = unat (3 :: byte)"
    by simp linarith
  then show ?thesis
    by (blast intro: unsigned_word_eqI)
qed

lemma frame_flags:
  assumes "compression_valid c"
  shows "frame_flags k c AND NOT validFrameFlags = 0"
    and "kind_negotiation k \<Longrightarrow> frame_flags k c = 0"
    and "\<not> kind_negotiation k \<Longrightarrow> frame_flags k c AND flagCompressionExplicit \<noteq> 0"
    and "\<not> kind_negotiation k \<Longrightarrow> drop_bit 1 (frame_flags k c AND flagCompressionMask) = c"
  using compression_cases [OF assms]
  by (auto simp: frame_flags_def validFrameFlags_def flagCompressionExplicit_def flagCompressionMask_def)

lemma length_frame_header [simp]: "length (frame_header f v fl e) = HeaderSize"
  by (simp add: frame_header_def HeaderSize_def)

lemma frame_header_slices:
  "slice 0 4 (frame_header f v fl e) = put_be 4 frameMagic"
  "slice 4 6 (frame_header f v fl e) = put_be 2 v"
  "frame_header f v fl e ! 6 = fKind f"
  "frame_header f v fl e ! 7 = fl"
  "slice 8 10 (frame_header f v fl e) = put_be 2 (fCommand f)"
  "slice 10 12 (frame_header f v fl e) = put_be 2 (fStatus f)"
  "slice 12 20 (frame_header f v fl e) = put_be 8 (fRequestID f)"
  "slice 20 24 (frame_header f v fl e) = put_be 4 (word_of_nat (length e) :: u32)"
  "slice 24 28 (frame_header f v fl e) = put_be 4 (word_of_nat (length (fPayload f)) :: u32)"
  "slice 28 32 (frame_header f v fl e) = put_be 4 (crc32 Castagnoli e)"
  by (simp_all add: frame_header_def slice_def nth_append)

lemma unat_length_frame: "n \<le> MaxFramePayload \<Longrightarrow> unat (word_of_nat n :: u32) = n"
  by (simp add: MaxFramePayload_def unat_of_nat)

lemma validateFrameSemantics_payload [simp]:
  "validateFrameSemantics (f\<lparr>fPayload := p\<rparr>) = validateFrameSemantics f"
  by (cases f) (simp only: validateFrameSemantics_def frame.simps)

lemma validateFrameSemantics_version [simp]:
  "validateFrameSemantics (f\<lparr>fVersion := v\<rparr>) = validateFrameSemantics f"
  by (cases f) (simp only: validateFrameSemantics_def frame.simps)

lemma decodeHeader_frame_header:
  assumes "compression_valid c" "kind_valid (fKind f)" "validateFrameSemantics f = None"
    "length e \<le> MaxFramePayload" "length (fPayload f) \<le> MaxFramePayload"
  shows "decodeHeader (Some c) (frame_header f ProtocolVersion (frame_flags (fKind f) c) e) =
           Inr \<lparr>hFrame = f\<lparr>fVersion := ProtocolVersion, fPayload := []\<rparr>,
                hCompression = frame_compression (fKind f) c,
                hEncodedSize = word_of_nat (length e),
                hDecodedSize = word_of_nat (length (fPayload f)),
                hChecksum = crc32 Castagnoli e\<rparr>"
proof (cases f)
  case (fields v k cmd st rid p)
  have "validateFrameSemantics \<lparr>fVersion = ProtocolVersion, fKind = k, fCommand = cmd, fStatus = st,
             fRequestID = rid, fPayload = []\<rparr> = None"
    using assms(3) unfolding fields by (simp only: validateFrameSemantics_def frame.simps)
  then show ?thesis
    unfolding decodeHeader_def frame_header_slices
    using assms frame_flags [OF assms(1), of k]
    by (cases "kind_negotiation k")
      (simp_all add: fields unat_length_frame frame_compression_def Let_def del: drop_bit_and)
qed

lemma Encode_layout:
  assumes "Encode cs (Some c) f = Inr bs"
  obtains z where "Compress cs (fPayload f) (frame_compression (fKind f) c) = Some z"
    and "bs = frame_header f ProtocolVersion (frame_flags (fKind f) c) z @ z"
    and "kind_valid (fKind f)" and "validateFrameSemantics f = None"
  using assms by (auto simp: Encode_def Let_def split: if_splits option.splits)

lemma ReadFrame_Encode:
  assumes "compression_valid c" "lossless cs c (fPayload f)" "Encode cs (Some c) f = Inr bs"
  shows "ReadFrame cs (Some c) (bs @ rest) = Inr (f\<lparr>fVersion := ProtocolVersion\<rparr>, rest)"
    and "Decode cs (Some c) bs = Inr (f\<lparr>fVersion := ProtocolVersion\<rparr>)"
proof -
  obtain z where z: "Compress cs (fPayload f) (frame_compression (fKind f) c) = Some z"
    and bs: "bs = frame_header f ProtocolVersion (frame_flags (fKind f) c) z @ z"
    and f: "kind_valid (fKind f)" "validateFrameSemantics f = None"
    using Encode_layout [OF assms(3)] .
  have "lossless cs (frame_compression (fKind f) c) (fPayload f)"
    using assms(2) by (simp add: frame_compression_def lossless_def compression_defs)
  then have payload: "decompress cs z (frame_compression (fKind f) c) (length (fPayload f)) = Some (fPayload f)"
    using z by (rule decompress_Compress)
  note bounded = Compress_bounded [OF z]
  show "ReadFrame cs (Some c) (bs @ rest) = Inr (f\<lparr>fVersion := ProtocolVersion\<rparr>, rest)"
    using bounded payload
    by (simp add: bs ReadFrame_def decodeHeader_frame_header [OF assms(1) f] unat_length_frame
        decodePayload_def Let_def)
  show "Decode cs (Some c) bs = Inr (f\<lparr>fVersion := ProtocolVersion\<rparr>)"
    using bounded payload
    by (simp add: bs Decode_def decodeHeader_frame_header [OF assms(1) f] unat_length_frame
        decodePayload_def)
qed

lemma flag_masks: "flagCompressionMask = push_bit 1 (mask 3)" "validFrameFlags = mask 4"
  by (simp_all add: validFrameFlags_def flagCompressionExplicit_def flagCompressionMask_def mask_eq_exp_minus_1)

lemma frame_flags_unique:
  assumes "fl AND NOT validFrameFlags = 0" "fl AND flagCompressionExplicit \<noteq> 0"
    "drop_bit 1 (fl AND flagCompressionMask) = c" "\<not> kind_negotiation k"
  shows "fl = frame_flags k c"
proof -
  have low: "bit fl 0"
    using assms(2) by (simp add: flagCompressionExplicit_def and_one_eq bit_0 odd_iff_mod_2_eq_one)
  have high: "bit fl n \<Longrightarrow> n < 4" for n
    using arg_cong [OF assms(1), of "\<lambda>w. bit w n"] bit_imp_le_length [of fl n]
    by (auto simp: flag_masks bit_and_iff bit_not_iff bit_mask_iff)
  have mask: "bit flagCompressionMask (Suc m) \<longleftrightarrow> m < 3" for m
    unfolding flag_masks bit_push_bit_iff bit_mask_iff by auto
  have c: "bit c m \<longleftrightarrow> bit fl (Suc m) \<and> Suc m < 4" for m
    unfolding assms(3) [symmetric] bit_drop_bit_eq bit_and_iff comp_apply
    using mask [of m] by simp
  show ?thesis
  proof (rule bit_eqI)
    fix n
    show "bit fl n = bit (frame_flags k c) n"
    proof (cases n)
      case 0
      then show ?thesis
        using low assms(4) by (simp add: frame_flags_def flagCompressionExplicit_def bit_or_iff)
    next
      case (Suc m)
      have "bit (frame_flags k c) (Suc m) = (Suc m < 8 \<and> bit c m)"
        using assms(4)
        by (simp add: frame_flags_def flagCompressionExplicit_def bit_or_iff bit_1_iff bit_push_bit_iff
            del: push_bit_Suc)
      then show ?thesis
        using c [of m] high [of n] Suc by auto
    qed
  qed
qed

lemma header_decompose:
  assumes "length h = HeaderSize"
  shows "h = slice 0 4 h @ slice 4 6 h @ [h ! 6] @ [h ! 7] @ slice 8 10 h @ slice 10 12 h @
             slice 12 20 h @ slice 20 24 h @ slice 24 28 h @ slice 28 32 h"
proof -
  have cut: "drop i h = slice i j h @ drop j h" if "i \<le> j" for i j
    using that by (metis append_take_drop_id drop_drop le_add_diff_inverse2 slice_def)
  have one: "drop i h = [h ! i] @ drop (Suc i) h" if "i < 32" for i
    using that assms by (simp add: HeaderSize_def Cons_nth_drop_Suc)
  have "h = drop 0 h" by simp
  also have "\<dots> = slice 0 4 h @ drop 4 h" by (rule cut) simp
  also have "drop 4 h = slice 4 6 h @ drop 6 h" by (rule cut) simp
  also have "drop 6 h = [h ! 6] @ [h ! 7] @ drop 8 h" using one [of 6] one [of 7] by simp
  also have "drop 8 h = slice 8 10 h @ drop 10 h" by (rule cut) simp
  also have "drop 10 h = slice 10 12 h @ drop 12 h" by (rule cut) simp
  also have "drop 12 h = slice 12 20 h @ drop 20 h" by (rule cut) simp
  also have "drop 20 h = slice 20 24 h @ drop 24 h" by (rule cut) simp
  also have "drop 24 h = slice 24 28 h @ drop 28 h" by (rule cut) simp
  also have "drop 28 h = slice 28 32 h @ drop 32 h" by (rule cut) simp
  also have "drop 32 h = []" using assms by (simp add: HeaderSize_def)
  finally show ?thesis by (simp only: append_Nil2)
qed


lemma length_slice: "j \<le> length xs \<Longrightarrow> length (slice i j xs) = j - i"
  by (simp add: slice_def)

text \<open>What an accepted header says, and that it is the only encoding of what it says.\<close>

definition header_bytes :: "decodedHeader \<Rightarrow> byte \<Rightarrow> bytes" where
  "header_bytes d c =
     put_be 4 frameMagic @ put_be 2 ProtocolVersion @ [fKind (hFrame d)] @ [frame_flags (fKind (hFrame d)) c] @
     put_be 2 (fCommand (hFrame d)) @ put_be 2 (fStatus (hFrame d)) @ put_be 8 (fRequestID (hFrame d)) @
     put_be 4 (hEncodedSize d) @ put_be 4 (hDecodedSize d) @ put_be 4 (hChecksum d)"

lemma decodeHeader_accepts:
  assumes "decodeHeader (Some c) h = Inr d"
  shows "length h = HeaderSize"
    and "get_be (slice 0 4 h) = frameMagic"
    and "get_be (slice 4 6 h) = ProtocolVersion"
    and "kind_valid (h ! 6)"
    and "h ! 7 = frame_flags (h ! 6) c"
    and "validateFrameSemantics (hFrame d) = None"
    and "unat (hEncodedSize d) \<le> MaxFramePayload"
    and "unat (hDecodedSize d) \<le> MaxFramePayload"
    and "d = \<lparr>hFrame = \<lparr>fVersion = ProtocolVersion, fKind = h ! 6, fCommand = get_be (slice 8 10 h),
                           fStatus = get_be (slice 10 12 h), fRequestID = get_be (slice 12 20 h),
                           fPayload = []\<rparr>,
              hCompression = frame_compression (h ! 6) c, hEncodedSize = get_be (slice 20 24 h),
              hDecodedSize = get_be (slice 24 28 h), hChecksum = get_be (slice 28 32 h)\<rparr>"
proof -
  note d = assms [unfolded decodeHeader_def Let_def]
  show "length h = HeaderSize" "get_be (slice 0 4 h) = frameMagic"
    "get_be (slice 4 6 h) = ProtocolVersion" "kind_valid (h ! 6)"
    using d by (simp_all split: if_splits)
  have "kind_negotiation (h ! 6) \<Longrightarrow> h ! 7 = 0"
    using d by (simp split: if_splits)
  moreover have "h ! 7 = frame_flags (h ! 6) c" if "\<not> kind_negotiation (h ! 6)"
    using d that by (intro frame_flags_unique) (simp_all split: if_splits del: drop_bit_and)
  ultimately show "h ! 7 = frame_flags (h ! 6) c"
    by (cases "kind_negotiation (h ! 6)") (simp_all add: frame_flags_def)
  show "d = \<lparr>hFrame = \<lparr>fVersion = ProtocolVersion, fKind = h ! 6, fCommand = get_be (slice 8 10 h),
                           fStatus = get_be (slice 10 12 h), fRequestID = get_be (slice 12 20 h),
                           fPayload = []\<rparr>,
              hCompression = frame_compression (h ! 6) c, hEncodedSize = get_be (slice 20 24 h),
              hDecodedSize = get_be (slice 24 28 h), hChecksum = get_be (slice 28 32 h)\<rparr>"
    and "validateFrameSemantics (hFrame d) = None"
    and "unat (hEncodedSize d) \<le> MaxFramePayload" and "unat (hDecodedSize d) \<le> MaxFramePayload"
    using d by (auto simp: frame_compression_def simp del: drop_bit_and split: if_splits option.splits)
qed

lemma decodeHeader_canonical:
  assumes "decodeHeader (Some c) h = Inr d"
  shows "h = header_bytes d c"
proof -
  note accepts = decodeHeader_accepts [OF assms]
  note lens = length_slice [of _ h, unfolded accepts(1) HeaderSize_def]
  have "header_bytes d c = slice 0 4 h @ slice 4 6 h @ [h ! 6] @ [h ! 7] @ slice 8 10 h @ slice 10 12 h @
             slice 12 20 h @ slice 20 24 h @ slice 24 28 h @ slice 28 32 h"
    unfolding header_bytes_def accepts(9) accepts(2,3) [symmetric]
    by (simp add: put_get_u16 put_get_u32 put_get_u64 lens accepts(5))
  then show ?thesis
    using header_decompose [OF accepts(1)] by simp
qed

lemma Decode_accepts:
  assumes "Decode cs (Some c) bs = Inr f"
  obtains d z where "bs = header_bytes d c @ z"
    and "decodeHeader (Some c) (header_bytes d c) = Inr d"
    and "length z = unat (hEncodedSize d)"
    and "crc32 Castagnoli z = hChecksum d"
    and "decompress cs z (hCompression d) (unat (hDecodedSize d)) = Some (fPayload f)"
    and "f = (hFrame d)\<lparr>fPayload := fPayload f\<rparr>"
proof -
  from assms obtain d where d: "decodeHeader (Some c) (take HeaderSize bs) = Inr d"
    and len: "HeaderSize \<le> length bs" "length bs - HeaderSize = unat (hEncodedSize d)"
    and payload: "decodePayload cs d (drop HeaderSize bs) = Inr f"
    by (auto simp: Decode_def split: if_splits sum.splits)
  note hdr = decodeHeader_canonical [OF d]
  show thesis
  proof (rule that)
    show "bs = header_bytes d c @ drop HeaderSize bs"
      using hdr by (metis append_take_drop_id)
    show "decodeHeader (Some c) (header_bytes d c) = Inr d"
      using d hdr by simp
    show "length (drop HeaderSize bs) = unat (hEncodedSize d)"
      using len by simp
  qed (use payload in \<open>auto simp: decodePayload_def split: if_splits option.splits\<close>)
qed

lemma compression_none_valid [simp]: "compression_valid CompressionNone"
  by (simp add: compression_valid_def compression_defs)

lemma frame_compression_none [simp]: "frame_compression k CompressionNone = CompressionNone"
  by (simp add: frame_compression_def)

lemma decodeHeader_frame:
  assumes "decodeHeader (Some c) h = Inr d"
  shows "kind_valid (fKind (hFrame d))" "fVersion (hFrame d) = ProtocolVersion" "fPayload (hFrame d) = []"
    "hCompression d = frame_compression (fKind (hFrame d)) c"
  using decodeHeader_accepts(4) [OF assms] by (simp_all add: decodeHeader_accepts(9) [OF assms])

lemma word_of_nat_unat: "word_of_nat (unat w) = (w :: u32)"
  by simp

lemma Encode_Decode_none:
  assumes "Decode cs (Some CompressionNone) bs = Inr f"
  shows "Encode cs (Some CompressionNone) f = Inr bs"
proof -
  obtain d z where bs: "bs = header_bytes d CompressionNone @ z"
    and hdr: "decodeHeader (Some CompressionNone) (header_bytes d CompressionNone) = Inr d"
    and z: "length z = unat (hEncodedSize d)" "crc32 Castagnoli z = hChecksum d"
    and payload: "decompress cs z (hCompression d) (unat (hDecodedSize d)) = Some (fPayload f)"
    and f: "f = (hFrame d)\<lparr>fPayload := fPayload f\<rparr>"
    using Decode_accepts [OF assms] .
  note head = decodeHeader_frame [OF hdr] decodeHeader_accepts(6-8) [OF hdr]
  have fields: "fKind f = fKind (hFrame d)" "fVersion f = ProtocolVersion" "fCommand f = fCommand (hFrame d)"
    "fStatus f = fStatus (hFrame d)" "fRequestID f = fRequestID (hFrame d)"
    "validateFrameSemantics f = None"
    by (subst f, simp add: head)+
  have same: "fPayload f = z" and dec: "unat (hDecodedSize d) = length z"
    using payload by (simp_all add: head decompress_def split: if_splits)
  have sizes: "hEncodedSize d = word_of_nat (length z)" "hDecodedSize d = word_of_nat (length z)"
    using word_of_nat_unat z(1) dec by metis+
  have "header_bytes d CompressionNone = frame_header f ProtocolVersion (frame_flags (fKind f) CompressionNone) z"
    by (simp add: header_bytes_def frame_header_def fields same sizes z(2))
  then show ?thesis
    using head fields same z(1)
    by (simp add: bs Encode_def Let_def Compress_def)
qed

lemma Decode_corrupt_byte:
  assumes "Encode cs (Some c) f = Inr (h @ xs @ b # ys)" "compression_valid c" "length h = HeaderSize" "b' \<noteq> b"
  shows "Decode cs (Some c) (h @ xs @ b' # ys) = Inl ErrChecksumMismatch"
proof -
  obtain z where z: "Compress cs (fPayload f) (frame_compression (fKind f) c) = Some z"
    and "h @ xs @ b # ys = frame_header f ProtocolVersion (frame_flags (fKind f) c) z @ z"
    and f: "kind_valid (fKind f)" "validateFrameSemantics f = None"
    using Encode_layout [OF assms(1)] .
  then have h: "h = frame_header f ProtocolVersion (frame_flags (fKind f) c) z" and z': "z = xs @ b # ys"
    using assms(3) by (auto simp: append_eq_append_conv)
  note bounded = Compress_bounded [OF z]
  have "crc32 Castagnoli (xs @ b' # ys) \<noteq> crc32 Castagnoli z"
    unfolding z' by (rule crc32_one_byte [OF castagnoli_bit31 assms(4)])
  moreover have "Suc (length xs + length ys) = length z"
    by (simp add: z')
  ultimately show ?thesis
    using bounded
    by (simp add: unat_length_frame Decode_def h decodeHeader_frame_header [OF assms(2) f] decodePayload_def)
qed

subsection \<open>Properties of the codec\<close>


text \<open>Libraries that store their input unchanged, and a request frame, for the witnesses.\<close>

definition stored_codecs :: codecs where
  "stored_codecs = \<lparr>gzipWrite = Some, gzipOpen = (\<lambda>z. Some (z, True)), gzipClose = (\<lambda>z. True),
     snappyEncode = id, snappyDecode = Some, snappyDecodedLen = (\<lambda>z. Some (length z)),
     lz4Write = Some, lz4Read = (\<lambda>z. (z, True))\<rparr>"

definition sample_frame :: frame where
  "sample_frame = \<lparr>fVersion = 2, fKind = 3, fCommand = 1, fStatus = 0, fRequestID = 9, fPayload = [7, 8]\<rparr>"

lemma sample_frame_Encode:
  "compression_valid c \<Longrightarrow> \<exists>z. Compress stored_codecs [7, 8] c = Some z \<and> length z = 2 \<Longrightarrow>
   \<exists>bs. Encode stored_codecs (Some c) sample_frame = Inr bs"
  by (auto simp: Encode_def sample_frame_def ProtocolVersion_def kind_valid_def kind_defs
      validateFrameSemantics_def StatusNone_def kind_negotiation_def command_valid_def commandCount_def
      MaxFramePayload_def frame_compression_def)


text \<open>C26: on an uncompressed connection the frame encoding is canonical. Every byte string that
  decodes is the encoding of the frame it decodes to: no header bit, length or checksum is ignored.\<close>

theorem frame_decode_canonical:
  assumes "Decode cs (Some CompressionNone) bs = Inr f"
  shows "Encode cs (Some CompressionNone) f = Inr bs"
  using assms by (rule Encode_Decode_none)

lemma sample_frame_none:
  obtains bs where "Encode stored_codecs (Some CompressionNone) sample_frame = Inr bs"
    and "Decode stored_codecs (Some CompressionNone) bs = Inr sample_frame"
proof -
  obtain bs where bs: "Encode stored_codecs (Some CompressionNone) sample_frame = Inr bs"
    using sample_frame_Encode [of CompressionNone]
    by (auto simp: compression_valid_def compression_defs Compress_def stored_codecs_def MaxFramePayload_def)
  moreover have "lossless stored_codecs CompressionNone (fPayload sample_frame)"
    by (simp add: lossless_def compression_defs)
  moreover have "sample_frame\<lparr>fVersion := ProtocolVersion\<rparr> = sample_frame"
    by (simp add: sample_frame_def ProtocolVersion_def)
  ultimately show thesis
    using that ReadFrame_Encode(2) [of CompressionNone stored_codecs sample_frame bs] by simp
qed

theorem frame_decode_canonical_witness:
  "\<exists>bs. Decode stored_codecs (Some CompressionNone) bs = Inr sample_frame \<and>
        Encode stored_codecs (Some CompressionNone) sample_frame = Inr bs"
proof -
  obtain bs where "Decode stored_codecs (Some CompressionNone) bs = Inr sample_frame"
    using sample_frame_none by metis
  then show ?thesis
    using frame_decode_canonical [of stored_codecs bs sample_frame] by blast
qed

text \<open>C22: a frame whose encoded payload had any one byte replaced on the way is refused with a
  checksum mismatch, whatever the compression and before any decompressor sees it.\<close>

theorem frame_corrupt_byte_rejected:
  assumes "NewCodec compression = Inr c" "Encode cs c f = Inr (h @ xs @ b # ys)"
    "length h = HeaderSize" "b' \<noteq> b"
  shows "Decode cs c (h @ xs @ b' # ys) = Inl ErrChecksumMismatch"
proof -
  have "c = Some compression" "compression_valid compression"
    using assms(1) by (auto simp: NewCodec_def split: if_splits)
  then show ?thesis
    using Decode_corrupt_byte assms(2-4) by simp
qed

theorem frame_corrupt_byte_rejected_witness:
  "\<exists>h. Encode stored_codecs (Some CompressionNone) sample_frame = Inr (h @ [7] @ 8 # []) \<and>
       Decode stored_codecs (Some CompressionNone) (h @ [7] @ 9 # []) = Inl ErrChecksumMismatch"
proof -
  have new: "NewCodec CompressionNone = Inr (Some CompressionNone)"
    by (simp add: NewCodec_def)
  obtain bs where bs: "Encode stored_codecs (Some CompressionNone) sample_frame = Inr bs"
    using sample_frame_none by metis
  obtain z where z: "Compress stored_codecs [7, 8] CompressionNone = Some z"
    and layout: "bs = frame_header sample_frame ProtocolVersion (frame_flags 3 CompressionNone) z @ z"
    using Encode_layout [OF bs] by (auto simp: sample_frame_def)
  have "z = [7] @ 8 # []"
    using z by (simp add: Compress_def split: if_splits)
  moreover have "length (frame_header sample_frame ProtocolVersion (frame_flags 3 CompressionNone) z) = HeaderSize"
    by simp
  ultimately show ?thesis
    using frame_corrupt_byte_rejected [OF new, of stored_codecs sample_frame _ "[7]" 8 "[]" 9] bs layout
    by auto
qed

text \<open>C27: whatever the decompression library returns, an accepted frame is well formed, its payload
  has exactly the length its header declares and is within \<open>MaxFramePayload\<close>, and so are the bytes
  that were handed to the library: a small frame cannot make the decoder keep an unbounded payload.\<close>

theorem frame_decode_bounded:
  assumes "Decode cs (Some compression) bs = Inr f"
  shows "kind_valid (fKind f) \<and> validateFrameSemantics f = None \<and> fVersion f = ProtocolVersion \<and>
         length (fPayload f) = unat (get_be (slice 24 28 bs) :: u32) \<and>
         length (fPayload f) \<le> MaxFramePayload \<and> length bs \<le> HeaderSize + MaxFramePayload"
proof -
  obtain d z where bs: "bs = header_bytes d compression @ z"
    and hdr: "decodeHeader (Some compression) (header_bytes d compression) = Inr d"
    and z: "length z = unat (hEncodedSize d)" "crc32 Castagnoli z = hChecksum d"
    and payload: "decompress cs z (hCompression d) (unat (hDecodedSize d)) = Some (fPayload f)"
    and f: "f = (hFrame d)\<lparr>fPayload := fPayload f\<rparr>"
    using Decode_accepts [OF assms] .
  note head = decodeHeader_frame [OF hdr] decodeHeader_accepts(6-8) [OF hdr]
  have len: "length (header_bytes d compression) = HeaderSize"
    by (rule decodeHeader_accepts(1) [OF hdr])
  have "slice 24 28 bs = put_be 4 (hDecodedSize d)"
    by (simp add: bs slice_def header_bytes_def)
  moreover have "kind_valid (fKind f)" "validateFrameSemantics f = None" "fVersion f = ProtocolVersion"
    by (subst f, simp add: head)+
  ultimately show ?thesis
    using decompress_length [OF payload] len by (simp add: bs)
qed

theorem frame_decode_bounded_witness:
  "\<exists>bs. Decode stored_codecs (Some CompressionNone) bs = Inr sample_frame \<and>
        length (fPayload sample_frame) = unat (get_be (slice 24 28 bs) :: u32)"
proof -
  obtain bs where "Decode stored_codecs (Some CompressionNone) bs = Inr sample_frame"
    using sample_frame_none by metis
  then show ?thesis
    using frame_decode_bounded [of stored_codecs CompressionNone bs sample_frame] by blast
qed

end
