(* ===== verification/Wire_Command.thy ===== *)
theory Wire_Command
  imports Wire_Record Wire_Frame "HOL-Library.List_Lexorder" "HOL-Library.Char_ord"
    "HOL-Library.Multiset"
begin

section \<open>Command, error and negotiation payloads\<close>

text \<open>
  \<open>pkg/wire/request.go\<close>, \<open>error.go\<close> and \<open>negotiation.go\<close>: what the frames of requests, error
  responses and the handshake carry. A Go map is an association list whose order is the order in which
  \<open>range\<close> visits it, so that the dependence of an encoder on that order is visible: the theorems
  quantify over it. \<open>sort.Strings\<close> is \<open>sort\<close> under the bytewise lexicographic order.
\<close>

subsection \<open>Command payloads\<close>

record commandPayload =
  cpPositionals :: "string list"
  cpFields :: "(string, string) gomap"
  cpFieldOrder :: "string list"

definition commandPayloadMagic :: u32 where "commandPayloadMagic = 0x43525132"
definition commandPayloadVersion :: u16 where "commandPayloadVersion = 2"
definition maxCommandArguments :: nat where "maxCommandArguments = 1024"

definition lower_char :: "char \<Rightarrow> bool" where
  "lower_char c = (let n = of_char c :: nat in n \<in> {97..122} \<or> n = 95)"

definition inner_char :: "char \<Rightarrow> bool" where
  "inner_char c = (let n = of_char c :: nat in n \<in> {65..90} \<or> n \<in> {48..57})"

definition validFieldName :: "string \<Rightarrow> bool" where
  "validFieldName value \<longleftrightarrow>
     (case value of
        [] \<Rightarrow> False
      | c # cs \<Rightarrow> lower_char c \<and> list_all (\<lambda>c. lower_char c \<or> inner_char c) cs)"

definition isCommandSpace :: "char \<Rightarrow> bool" where
  "isCommandSpace c \<longleftrightarrow> c = CHR '' '' \<or> c = CHR 0x09 \<or> c = CHR 0x0D \<or> c = CHR 0x0A"

definition badPositional :: "string \<Rightarrow> bool" where
  "badPositional p \<longleftrightarrow> p = '''' \<or> list_ex isCommandSpace p"

text \<open>The keys in the order they are written: the given order, then what \<open>range\<close> finds that the
  order does not name; sorted when no order was given.\<close>

definition orderedKeys :: "commandPayload \<Rightarrow> string list" where
  "orderedKeys p =
     (let keys = cpFieldOrder p @ filter (\<lambda>k. k \<notin> set (cpFieldOrder p)) (mkeys (cpFields p))
      in if cpFieldOrder p = [] then sort keys else keys)"

definition enc_pair :: "string \<times> string \<Rightarrow> binaryEncoder \<Rightarrow> binaryEncoder" where
  "enc_pair kv e = enc_string (snd kv) (enc_string (fst kv) e)"

definition dec_pair :: "binaryDecoder \<Rightarrow> (string \<times> string) \<times> binaryDecoder" where
  "dec_pair d = (let (k, d) = dec_string d; (v, d) = dec_string d in ((k, v), d))"

definition field_value :: "(string, string) gomap \<Rightarrow> string \<Rightarrow> string" where
  "field_value m k = (case map_of m k of None \<Rightarrow> '''' | Some v \<Rightarrow> v)"

definition EncodeCommandPayload :: "commandPayload \<Rightarrow> wire_error + bytes" where
  "EncodeCommandPayload p =
     (if length (cpPositionals p) > maxCommandArguments \<or> length (cpFields p) > maxCommandArguments
      then Inl TooManyArguments
      else if \<not> distinct (cpFieldOrder p) then Inl DuplicateFieldOrder
      else if list_ex (\<lambda>k. map_of (cpFields p) k = None) (cpFieldOrder p) then Inl MissingOrderedField
      else if list_ex (\<lambda>k. \<not> validFieldName k) (mkeys (cpFields p)) then Inl InvalidCommandField
      else if list_ex badPositional (cpPositionals p) then Inl InvalidPositional
      else enc_result
        (enc_seq
          ([enc_uint32 commandPayloadMagic,
            enc_uint16 commandPayloadVersion,
            enc_uint16 (word_of_nat (length (cpPositionals p)))] @
           map enc_string (cpPositionals p) @
           [enc_uint16 (word_of_nat (length (orderedKeys p)))] @
           map (\<lambda>k. enc_pair (k, field_value (cpFields p) k)) (orderedKeys p))
          (newBinaryEncoder MaxFramePayload)))"

fun decodePositionals :: "nat \<Rightarrow> string list \<Rightarrow> binaryDecoder \<Rightarrow> wire_error + (string list \<times> binaryDecoder)" where
  "decodePositionals 0 acc d = Inr (acc, d)"
| "decodePositionals (Suc n) acc d =
     (let (value, d) = dec_string d in
      if badPositional value then Inl InvalidPositional
      else decodePositionals n (acc @ [value]) d)"

fun decodeCommandFields ::
  "nat \<Rightarrow> (string, string) gomap \<Rightarrow> string list \<Rightarrow> binaryDecoder \<Rightarrow>
   wire_error + ((string, string) gomap \<times> string list \<times> binaryDecoder)" where
  "decodeCommandFields 0 fs order d = Inr (fs, order, d)"
| "decodeCommandFields (Suc n) fs order d =
     (let ((key, value), d) = dec_pair d in
      if \<not> validFieldName key then Inl InvalidCommandField
      else if map_of fs key \<noteq> None then Inl DuplicateCommandField
      else decodeCommandFields n (mput key value fs) (order @ [key]) d)"

definition DecodeCommandPayload :: "bytes \<Rightarrow> wire_error + commandPayload" where
  "DecodeCommandPayload data =
    (let (magic, d) = dec_uint32 (newBinaryDecoder data) in
     if magic \<noteq> commandPayloadMagic then Inl BadMagic
     else let (version, d) = dec_uint16 d in
     if version \<noteq> commandPayloadVersion then Inl UnsupportedVersion
     else let (positionalCount, d) = dec_uint16 d in
     if unat positionalCount > maxCommandArguments then Inl TooManyArguments
     else case decodePositionals (unat positionalCount) [] d of
       Inl err \<Rightarrow> Inl err
     | Inr (positionals, d) \<Rightarrow>
         (let (fieldCount, d) = dec_uint16 d in
          if unat fieldCount > maxCommandArguments then Inl TooManyArguments
          else case decodeCommandFields (unat fieldCount) [] [] d of
            Inl err \<Rightarrow> Inl err
          | Inr (fs, order, d) \<Rightarrow>
              (case dec_finish d of
                 Some err \<Rightarrow> Inl err
               | None \<Rightarrow> Inr \<lparr>cpPositionals = positionals, cpFields = fs, cpFieldOrder = order\<rparr>)))"

definition IsCommandPayload :: "bytes \<Rightarrow> bool" where
  "IsCommandPayload data \<longleftrightarrow>
     length data \<ge> 6 \<and> get_be (take 4 data) = commandPayloadMagic \<and>
     get_be (take 2 (drop 4 data)) = commandPayloadVersion"

subsection \<open>Error payloads\<close>

record errorPayload =
  epCode :: string
  epClass :: byte
  epRetryable :: bool
  epMessage :: string
  epFields :: "(string, string) gomap"

definition validErrorCode :: "errorPayload \<Rightarrow> bool" where
  "validErrorCode p \<longleftrightarrow> \<not> (epCode p = '''' \<or> epClass p < 1 \<or> epClass p > 8)"

definition EncodeError :: "errorPayload \<Rightarrow> wire_error + bytes" where
  "EncodeError p =
     (if \<not> validErrorCode p then Inl InvalidErrorCode
      else if length (epFields p) > 256 then Inl TooManyErrorFields
      else let keys = sort (mkeys (epFields p)) in
        if list_ex (\<lambda>k. k = '''') keys then Inl EmptyErrorField
        else enc_result
          (enc_seq
            ([enc_string (epCode p), enc_byte (epClass p), enc_byte (if epRetryable p then 1 else 0),
              enc_string (epMessage p), enc_uint16 (word_of_nat (length (epFields p)))] @
             map (\<lambda>k. enc_pair (k, field_value (epFields p) k)) keys)
            (newBinaryEncoder MaxFramePayload)))"

fun decodeErrorFields ::
  "nat \<Rightarrow> (string, string) gomap \<Rightarrow> binaryDecoder \<Rightarrow> wire_error + ((string, string) gomap \<times> binaryDecoder)" where
  "decodeErrorFields 0 fs d = Inr (fs, d)"
| "decodeErrorFields (Suc n) fs d =
     (let ((key, value), d) = dec_pair d in
      if key = '''' then Inl EmptyErrorField
      else if map_of fs key \<noteq> None then Inl DuplicateErrorField
      else decodeErrorFields n (mput key value fs) d)"

text \<open>\<open>take(1)\<close> as the byte it yields, if any.\<close>

definition dec_byte :: "binaryDecoder \<Rightarrow> byte option \<times> binaryDecoder" where
  "dec_byte d = (case dec_take 1 d of (Some [b], d) \<Rightarrow> (Some b, d) | (_, d) \<Rightarrow> (None, d))"

definition DecodeError :: "bytes \<Rightarrow> wire_error + errorPayload" where
  "DecodeError data =
    (let (code, d) = dec_string (newBinaryDecoder data);
         (class, d) = dec_byte d;
         (retryable, d) = dec_byte d
     in if (case retryable of None \<Rightarrow> False | Some b \<Rightarrow> b > 1) then Inl InvalidRetryableFlag
        else let (message, d) = dec_string d;
                 (count, d) = dec_uint16 d
          in case decodeErrorFields (unat count) [] d of
               Inl err \<Rightarrow> Inl err
             | Inr (fs, d) \<Rightarrow>
                 (case dec_finish d of
                    Some err \<Rightarrow> Inl err
                  | None \<Rightarrow>
                      (let p = \<lparr>epCode = code, epClass = (case class of None \<Rightarrow> 0 | Some b \<Rightarrow> b),
                                epRetryable = (retryable = Some 1), epMessage = message, epFields = fs\<rparr>
                       in if \<not> validErrorCode p then Inl InvalidErrorCode else Inr p)))"

subsection \<open>Negotiation\<close>

record negotiationRequest =
  nrMinimumVersion :: u16
  nrMaximumVersion :: u16
  nrCompressions :: "byte list"

record negotiationResponse =
  nsVersion :: u16
  nsCompression :: byte

fun checkPreferences :: "byte list \<Rightarrow> byte list \<Rightarrow> wire_error option" where
  "checkPreferences seen [] = None"
| "checkPreferences seen (c # cs) =
     (if \<not> compression_valid c then Some UnsupportedCompression
      else if c \<in> set seen then Some DuplicateCompression
      else checkPreferences (c # seen) cs)"

definition EncodeNegotiationRequest :: "negotiationRequest \<Rightarrow> wire_error + bytes" where
  "EncodeNegotiationRequest r =
     (if nrMinimumVersion r = 0 \<or> nrMaximumVersion r < nrMinimumVersion r then Inl InvalidVersionRange
      else if nrCompressions r = [] \<or> length (nrCompressions r) > 4 then Inl InvalidPreferenceCount
      else case checkPreferences [] (nrCompressions r) of
        Some err \<Rightarrow> Inl err
      | None \<Rightarrow>
          enc_result
            (enc_seq
              ([enc_uint16 (nrMinimumVersion r), enc_uint16 (nrMaximumVersion r),
                enc_uint16 (word_of_nat (length (nrCompressions r)))] @
               map enc_byte (nrCompressions r))
              (newBinaryEncoder 64)))"

fun decodePreferences :: "nat \<Rightarrow> byte list \<Rightarrow> binaryDecoder \<Rightarrow> wire_error + (byte list \<times> binaryDecoder)" where
  "decodePreferences 0 acc d = Inr (acc, d)"
| "decodePreferences (Suc n) acc d =
     (let (field, d) = dec_byte d in
      case field of
        None \<Rightarrow> Inl (case dec_finish d of Some err \<Rightarrow> err | None \<Rightarrow> TruncatedField)
      | Some c \<Rightarrow>
          if \<not> compression_valid c then Inl UnsupportedCompression
          else if c \<in> set acc then Inl DuplicateCompression
          else decodePreferences n (acc @ [c]) d)"

definition DecodeNegotiationRequest :: "bytes \<Rightarrow> wire_error + negotiationRequest" where
  "DecodeNegotiationRequest data =
    (let (minimum, d) = dec_uint16 (newBinaryDecoder data);
         (maximum, d) = dec_uint16 d;
         (count, d) = dec_uint16 d
     in if count = 0 \<or> count > ucast CompressionLZ4 + 1 then Inl InvalidPreferenceCount
        else case decodePreferences (unat count) [] d of
          Inl err \<Rightarrow> Inl err
        | Inr (compressions, d) \<Rightarrow>
            (case dec_finish d of
               Some err \<Rightarrow> Inl err
             | None \<Rightarrow>
                 if minimum = 0 \<or> maximum < minimum then Inl InvalidVersionRange
                 else Inr \<lparr>nrMinimumVersion = minimum, nrMaximumVersion = maximum, nrCompressions = compressions\<rparr>))"

definition EncodeNegotiationResponse :: "negotiationResponse \<Rightarrow> wire_error + bytes" where
  "EncodeNegotiationResponse r =
     (if nsVersion r \<noteq> ProtocolVersion \<or> \<not> compression_valid (nsCompression r) then Inl InvalidNegotiationResponse
      else enc_result (enc_seq [enc_uint16 (nsVersion r), enc_byte (nsCompression r)] (newBinaryEncoder 8)))"

definition DecodeNegotiationResponse :: "bytes \<Rightarrow> wire_error + negotiationResponse" where
  "DecodeNegotiationResponse data =
    (let (version, d) = dec_uint16 (newBinaryDecoder data);
         (field, d) = dec_byte d;
         r = \<lparr>nsVersion = version, nsCompression = (case field of None \<Rightarrow> 0 | Some c \<Rightarrow> c)\<rparr>
     in case dec_finish d of
          Some err \<Rightarrow> Inl err
        | None \<Rightarrow>
            if nsVersion r \<noteq> ProtocolVersion \<or> \<not> compression_valid (nsCompression r)
            then Inl InvalidNegotiationResponse
            else Inr r)"

definition SelectCompression :: "negotiationRequest \<Rightarrow> byte list \<Rightarrow> wire_error + byte" where
  "SelectCompression r supported =
     (if nrMinimumVersion r > ProtocolVersion \<or> nrMaximumVersion r < ProtocolVersion
      then Inl UnsupportedVersion
      else if list_ex (\<lambda>c. \<not> compression_valid c) supported then Inl UnsupportedCompression
      else case filter (\<lambda>c. c \<in> set supported) (nrCompressions r) of
        [] \<Rightarrow> Inl NoMutualCompression
      | c # _ \<Rightarrow> Inr c)"

subsection \<open>Lemmas on fields\<close>

definition lay_pair :: "string \<times> string \<Rightarrow> bytes" where
  "lay_pair kv = lay_string (fst kv) @ lay_string (snd kv)"

lemma emits_pair: "emits (enc_pair kv) (lay_pair kv)"
  using emits_comp [OF f_string.enc_emits f_string.enc_emits, of "snd kv" "fst kv"]
  by (simp add: enc_pair_def [abs_def] lay_pair_def)

lemma parses_pair:
  "length (fst kv) \<le> MaxUint32 \<and> length (snd kv) \<le> MaxUint32 \<Longrightarrow> parses dec_pair kv (lay_pair kv)"
  by (auto simp: parses_def dec_pair_def lay_pair_def f_string.decode)

interpretation f_pair: wire_field enc_pair dec_pair lay_pair "\<lambda>kv. kv"
  "\<lambda>kv. length (fst kv) \<le> MaxUint32 \<and> length (snd kv) \<le> MaxUint32"
  by unfold_locales (use emits_pair parses_pair in auto)

lemma emits_byte: "emits (enc_byte b) [b]"
  using emits_append [of "[b]"] by (simp add: enc_byte_def [abs_def])

lemma parses_byte: "parses dec_byte (Some b) [b]"
  by (simp add: parses_def dec_byte_def dec_take_def)

interpretation f_byte: wire_field enc_byte dec_byte "\<lambda>b. [b]" Some "\<lambda>b. True"
  by unfold_locales (use emits_byte parses_byte in auto)

lemma mput_new: "map_of m k = None \<Longrightarrow> mput k v m = m @ [(k, v)]"
  by (induction m) (auto simp: mput_def)

lemma decodePositionals_layout:
  "\<forall>p \<in> set ps. \<not> badPositional p \<and> length p \<le> MaxUint32 \<Longrightarrow>
   decodePositionals (length ps) acc \<lparr>dec_rest = concat (map lay_string ps) @ rest, dec_err = None\<rparr> =
     Inr (acc @ ps, \<lparr>dec_rest = rest, dec_err = None\<rparr>)"
  by (induction ps arbitrary: acc) (simp_all add: f_string.decode)

lemma decodeCommandFields_layout:
  "\<forall>(k, v) \<in> set kvs. validFieldName k \<and> length k \<le> MaxUint32 \<and> length v \<le> MaxUint32 \<Longrightarrow>
   distinct (map fst (fs @ kvs)) \<Longrightarrow>
   decodeCommandFields (length kvs) fs order \<lparr>dec_rest = concat (map lay_pair kvs) @ rest, dec_err = None\<rparr> =
     Inr (fs @ kvs, order @ map fst kvs, \<lparr>dec_rest = rest, dec_err = None\<rparr>)"
proof (induction kvs arbitrary: fs order)
  case (Cons kv kvs)
  obtain k v where kv: "kv = (k, v)" by (cases kv)
  have "map_of fs k = None"
    using Cons.prems(2) by (simp add: kv map_of_eq_None_iff)
  then show ?case
    using Cons.prems Cons.IH [of "fs @ [kv]" "order @ [k]"] by (simp add: kv f_pair.decode mput_new)
qed simp

lemma decodeErrorFields_layout:
  "\<forall>(k, v) \<in> set kvs. k \<noteq> '''' \<and> length k \<le> MaxUint32 \<and> length v \<le> MaxUint32 \<Longrightarrow>
   distinct (map fst (fs @ kvs)) \<Longrightarrow>
   decodeErrorFields (length kvs) fs \<lparr>dec_rest = concat (map lay_pair kvs) @ rest, dec_err = None\<rparr> =
     Inr (fs @ kvs, \<lparr>dec_rest = rest, dec_err = None\<rparr>)"
proof (induction kvs arbitrary: fs)
  case (Cons kv kvs)
  obtain k v where kv: "kv = (k, v)" by (cases kv)
  have "map_of fs k = None"
    using Cons.prems(2) by (simp add: kv map_of_eq_None_iff)
  then show ?case
    using Cons.prems Cons.IH [of "fs @ [kv]"] by (simp add: kv f_pair.decode mput_new)
qed simp

text \<open>The pairs an encoder writes for a list of keys.\<close>

definition keyed :: "(string, string) gomap \<Rightarrow> string list \<Rightarrow> (string, string) gomap" where
  "keyed m ks = map (\<lambda>k. (k, field_value m k)) ks"

lemma fst_keyed [simp]: "map fst (keyed m ks) = ks" "length (keyed m ks) = length ks"
  by (simp_all add: keyed_def comp_def)

lemma map_of_keyed: "map_of (keyed m ks) k = (if k \<in> set ks then Some (field_value m k) else None)"
  by (induction ks) (auto simp: keyed_def)

lemma map_of_keyed_same: "set ks = dom (map_of m) \<Longrightarrow> map_of (keyed m ks) = map_of m"
  by (rule ext) (auto simp: map_of_keyed field_value_def split: option.splits)

lemma orderedKeys_set:
  assumes "set (cpFieldOrder p) \<subseteq> dom (map_of (cpFields p))"
  shows "set (orderedKeys p) = dom (map_of (cpFields p))"
  using assms by (auto simp: orderedKeys_def Let_def set_mkeys)

lemma orderedKeys_distinct:
  assumes "mwf (cpFields p)" "distinct (cpFieldOrder p)"
  shows "distinct (orderedKeys p)"
  using assms by (auto simp: orderedKeys_def Let_def mwf_def mkeys_def)

lemma orderedKeys_length:
  assumes "mwf (cpFields p)" "distinct (cpFieldOrder p)" "set (cpFieldOrder p) \<subseteq> dom (map_of (cpFields p))"
  shows "length (orderedKeys p) = length (cpFields p)"
proof -
  have "length (orderedKeys p) = card (dom (map_of (cpFields p)))"
    using orderedKeys_distinct orderedKeys_set distinct_card assms by metis
  also have "\<dots> = length (cpFields p)"
    using assms(1) distinct_card [of "map fst (cpFields p)"] by (simp add: mwf_def dom_map_of_conv_image_fst)
  finally show ?thesis .
qed

lemma emits_map: "(\<And>x. emits (f x) (lay x)) \<Longrightarrow> list_all2 emits (map f xs) (map lay xs)"
  by (induction xs) simp_all

lemma length_concat_member: "x \<in> set xs \<Longrightarrow> length (lay x) \<le> length (concat (map lay xs))"
  by (induction xs) auto

subsection \<open>Round trip of command payloads\<close>

definition command_layout :: "commandPayload \<Rightarrow> bytes" where
  "command_layout p =
     put_be 4 commandPayloadMagic @ put_be 2 commandPayloadVersion @
     put_be 2 (word_of_nat (length (cpPositionals p)) :: u16) @ concat (map lay_string (cpPositionals p)) @
     put_be 2 (word_of_nat (length (orderedKeys p)) :: u16) @
     concat (map lay_pair (keyed (cpFields p) (orderedKeys p)))"

lemma command_emits:
  "emits (enc_seq
      ([enc_uint32 commandPayloadMagic, enc_uint16 commandPayloadVersion,
        enc_uint16 (word_of_nat (length (cpPositionals p)))] @
       map enc_string (cpPositionals p) @
       [enc_uint16 (word_of_nat (length (orderedKeys p)))] @
       map (\<lambda>k. enc_pair (k, field_value (cpFields p) k)) (orderedKeys p)))
     (command_layout p)"
proof -
  have "list_all2 emits
      ([enc_uint32 commandPayloadMagic, enc_uint16 commandPayloadVersion,
        enc_uint16 (word_of_nat (length (cpPositionals p)))] @
       map enc_string (cpPositionals p) @
       [enc_uint16 (word_of_nat (length (orderedKeys p)))] @
       map (\<lambda>k. enc_pair (k, field_value (cpFields p) k)) (orderedKeys p))
      ([put_be 4 commandPayloadMagic, put_be 2 commandPayloadVersion,
        put_be 2 (word_of_nat (length (cpPositionals p)) :: u16)] @
       map lay_string (cpPositionals p) @
       [put_be 2 (word_of_nat (length (orderedKeys p)) :: u16)] @
       map (\<lambda>k. lay_pair (k, field_value (cpFields p) k)) (orderedKeys p))"
    by (intro list_all2_appendI emits_map) (simp_all add: field_emits emits_pair)
  from emits_seq [OF this] show ?thesis
    by (simp add: command_layout_def keyed_def comp_def)
qed

lemma EncodeCommandPayload_layout:
  assumes "EncodeCommandPayload p = Inr bs"
  shows "bs = command_layout p" "length bs \<le> MaxFramePayload"
    and "length (cpPositionals p) \<le> maxCommandArguments" "length (cpFields p) \<le> maxCommandArguments"
    and "distinct (cpFieldOrder p)" "set (cpFieldOrder p) \<subseteq> dom (map_of (cpFields p))"
    and "\<forall>k \<in> dom (map_of (cpFields p)). validFieldName k" "\<forall>q \<in> set (cpPositionals p). \<not> badPositional q"
proof -
  note enc = assms [unfolded EncodeCommandPayload_def]
  show "length (cpPositionals p) \<le> maxCommandArguments" "length (cpFields p) \<le> maxCommandArguments"
    "distinct (cpFieldOrder p)"
    using enc by (simp_all split: if_splits)
  show "set (cpFieldOrder p) \<subseteq> dom (map_of (cpFields p))" "\<forall>k \<in> dom (map_of (cpFields p)). validFieldName k"
    "\<forall>q \<in> set (cpPositionals p). \<not> badPositional q"
    using enc by (auto simp: list_ex_iff set_mkeys simp del: map_of_eq_None_iff split: if_splits)
  show "bs = command_layout p" "length bs \<le> MaxFramePayload"
    using enc emits_result [OF command_emits] by (simp_all split: if_splits)
qed

lemma maxUint32_frame: "n \<le> MaxFramePayload \<Longrightarrow> n \<le> MaxUint32"
  by (simp add: MaxFramePayload_def MaxUint32_def)

lemma unat_argument_count: "n \<le> maxCommandArguments \<Longrightarrow> unat (word_of_nat n :: u16) = n"
  by (simp add: maxCommandArguments_def unat_of_nat)

lemma DecodeCommandPayload_Encode:
  assumes "EncodeCommandPayload p = Inr bs" "mwf (cpFields p)"
  shows "DecodeCommandPayload bs =
     Inr \<lparr>cpPositionals = cpPositionals p, cpFields = keyed (cpFields p) (orderedKeys p), cpFieldOrder = orderedKeys p\<rparr>"
proof -
  let ?kvs = "keyed (cpFields p) (orderedKeys p)"
  note enc = EncodeCommandPayload_layout [OF assms(1)]
  note keys = orderedKeys_length [OF assms(2) enc(5,6)] orderedKeys_set [OF enc(6)]
    orderedKeys_distinct [OF assms(2) enc(5)]
  have count: "length (orderedKeys p) \<le> maxCommandArguments"
    using keys(1) enc(4) by simp
  have pos: "\<forall>q \<in> set (cpPositionals p). \<not> badPositional q \<and> length q \<le> MaxUint32"
  proof
    fix q assume q: "q \<in> set (cpPositionals p)"
    then have "length (lay_string q) \<le> MaxFramePayload"
      using enc(2) length_concat_member [OF q, of lay_string] unfolding enc(1) command_layout_def by simp
    then show "\<not> badPositional q \<and> length q \<le> MaxUint32"
      using enc(8) q by (simp add: maxUint32_frame)
  qed
  have fit: "\<forall>(k, v) \<in> set ?kvs. validFieldName k \<and> length k \<le> MaxUint32 \<and> length v \<le> MaxUint32"
  proof
    fix kv assume kv: "kv \<in> set ?kvs"
    then have "length (lay_pair kv) \<le> MaxFramePayload"
      using enc(2) length_concat_member [OF kv, of lay_pair] unfolding enc(1) command_layout_def by simp
    moreover have "fst kv \<in> dom (map_of (cpFields p))"
      using kv keys(2) by (auto simp: keyed_def)
    ultimately show "case kv of (k, v) \<Rightarrow> validFieldName k \<and> length k \<le> MaxUint32 \<and> length v \<le> MaxUint32"
      using enc(7) by (auto simp: lay_pair_def maxUint32_frame split: prod.splits)
  qed
  have "newBinaryDecoder bs = \<lparr>dec_rest = command_layout p, dec_err = None\<rparr>"
    using enc(1,2) by (simp add: newBinaryDecoder_def)
  then show ?thesis
    using decodePositionals_layout [OF pos, of "[]"] count enc(3) keys(3)
      decodeCommandFields_layout [OF fit, of "[]" "[]" "[]"]
    by (simp add: DecodeCommandPayload_def command_layout_def f_uint32.decode f_uint16.decode
        unat_argument_count dec_finish_def)
qed

subsection \<open>Round trip of error payloads\<close>

definition error_layout :: "errorPayload \<Rightarrow> bytes" where
  "error_layout p =
     lay_string (epCode p) @ [epClass p] @ [if epRetryable p then 1 else 0] @ lay_string (epMessage p) @
     put_be 2 (word_of_nat (length (epFields p)) :: u16) @
     concat (map lay_pair (keyed (epFields p) (sort (mkeys (epFields p)))))"

lemma error_emits:
  "emits (enc_seq
      ([enc_string (epCode p), enc_byte (epClass p), enc_byte (if epRetryable p then 1 else 0),
        enc_string (epMessage p), enc_uint16 (word_of_nat (length (epFields p)))] @
       map (\<lambda>k. enc_pair (k, field_value (epFields p) k)) (sort (mkeys (epFields p)))))
     (error_layout p)"
proof -
  have "list_all2 emits
      ([enc_string (epCode p), enc_byte (epClass p), enc_byte (if epRetryable p then 1 else 0),
        enc_string (epMessage p), enc_uint16 (word_of_nat (length (epFields p)))] @
       map (\<lambda>k. enc_pair (k, field_value (epFields p) k)) (sort (mkeys (epFields p))))
      ([lay_string (epCode p), [epClass p], [if epRetryable p then 1 else 0], lay_string (epMessage p),
        put_be 2 (word_of_nat (length (epFields p)) :: u16)] @
       map (\<lambda>k. lay_pair (k, field_value (epFields p) k)) (sort (mkeys (epFields p))))"
    by (intro list_all2_appendI emits_map) (simp_all add: field_emits emits_pair emits_byte)
  from emits_seq [OF this] show ?thesis
    by (simp add: error_layout_def keyed_def comp_def)
qed

lemma EncodeError_layout:
  assumes "EncodeError p = Inr bs"
  shows "bs = error_layout p" "length bs \<le> MaxFramePayload" "validErrorCode p" "length (epFields p) \<le> 256"
    and "'''' \<notin> dom (map_of (epFields p))"
proof -
  note enc = assms [unfolded EncodeError_def Let_def]
  show "validErrorCode p" "length (epFields p) \<le> 256"
    using enc by (simp_all split: if_splits)
  show "'''' \<notin> dom (map_of (epFields p))"
    using enc by (simp add: list_ex_iff set_mkeys del: map_of_eq_None_iff split: if_splits)
  show "bs = error_layout p" "length bs \<le> MaxFramePayload"
    using enc emits_result [OF error_emits] by (simp_all split: if_splits)
qed

lemma DecodeError_Encode:
  assumes "EncodeError p = Inr bs" "mwf (epFields p)"
  shows "DecodeError bs = Inr (p\<lparr>epFields := keyed (epFields p) (sort (mkeys (epFields p)))\<rparr>)"
proof -
  let ?kvs = "keyed (epFields p) (sort (mkeys (epFields p)))"
  note enc = EncodeError_layout [OF assms(1)]
  have sizes: "length (epCode p) \<le> MaxUint32" "length (epMessage p) \<le> MaxUint32"
    using enc(2) maxUint32_frame unfolding enc(1) error_layout_def by simp_all
  have fit: "\<forall>(k, v) \<in> set ?kvs. k \<noteq> '''' \<and> length k \<le> MaxUint32 \<and> length v \<le> MaxUint32"
  proof
    fix kv assume kv: "kv \<in> set ?kvs"
    then have "length (lay_pair kv) \<le> MaxFramePayload"
      using enc(2) length_concat_member [OF kv, of lay_pair] unfolding enc(1) error_layout_def by simp
    moreover have "fst kv \<noteq> ''''"
      using kv enc(5) by (auto simp: keyed_def set_mkeys)
    ultimately show "case kv of (k, v) \<Rightarrow> k \<noteq> '''' \<and> length k \<le> MaxUint32 \<and> length v \<le> MaxUint32"
      by (auto simp: lay_pair_def maxUint32_frame split: prod.splits)
  qed
  have count: "unat (word_of_nat (length (epFields p)) :: u16) = length ?kvs"
    using enc(4) by (simp add: unat_of_nat mkeys_def)
  have "distinct (sort (mkeys (epFields p)))"
    using assms(2) by (simp add: mwf_def mkeys_def)
  moreover have "newBinaryDecoder bs = \<lparr>dec_rest = error_layout p, dec_err = None\<rparr>"
    using enc(1,2) by (simp add: newBinaryDecoder_def)
  moreover have "validErrorCode (p\<lparr>epFields := ?kvs\<rparr>)"
    using enc(3) by (simp add: validErrorCode_def)
  ultimately show ?thesis
    using decodeErrorFields_layout [OF fit, of "[]" "[]"] sizes count
    by (cases p; cases "epRetryable p")
      (simp_all add: DecodeError_def error_layout_def f_string.decode f_byte.decode [simplified] f_uint16.decode
        dec_finish_def Let_def)
qed

subsection \<open>Round trip of the negotiation\<close>

lemma checkPreferences_None:
  "checkPreferences seen cs = None \<longleftrightarrow>
     (\<forall>c \<in> set cs. compression_valid c) \<and> distinct cs \<and> set cs \<inter> set seen = {}"
  by (induction seen cs rule: checkPreferences.induct) auto

lemma decodePreferences_layout:
  "\<forall>c \<in> set cs. compression_valid c \<Longrightarrow> distinct (acc @ cs) \<Longrightarrow>
   decodePreferences (length cs) acc \<lparr>dec_rest = cs @ rest, dec_err = None\<rparr> =
     Inr (acc @ cs, \<lparr>dec_rest = rest, dec_err = None\<rparr>)"
proof (induction cs arbitrary: acc)
  case (Cons c cs)
  then show ?case
    using f_byte.decode [of c "cs @ rest"] Cons.IH [of "acc @ [c]"] by simp
qed simp

lemma DecodeNegotiationRequest_Encode:
  assumes "EncodeNegotiationRequest r = Inr bs"
  shows "DecodeNegotiationRequest bs = Inr r"
proof -
  let ?cs = "nrCompressions r"
  from assms have range: "nrMinimumVersion r \<noteq> 0" "\<not> nrMaximumVersion r < nrMinimumVersion r"
    and count: "?cs \<noteq> []" "length ?cs \<le> 4" and prefs: "checkPreferences [] ?cs = None"
    and res: "enc_result (enc_seq ([enc_uint16 (nrMinimumVersion r), enc_uint16 (nrMaximumVersion r),
        enc_uint16 (word_of_nat (length ?cs))] @ map enc_byte ?cs) (newBinaryEncoder 64)) = Inr bs"
    by (auto simp: EncodeNegotiationRequest_def split: if_splits option.splits)
  have "list_all2 emits ([enc_uint16 (nrMinimumVersion r), enc_uint16 (nrMaximumVersion r),
        enc_uint16 (word_of_nat (length ?cs))] @ map enc_byte ?cs)
      ([put_be 2 (nrMinimumVersion r), put_be 2 (nrMaximumVersion r),
        put_be 2 (word_of_nat (length ?cs) :: u16)] @ map (\<lambda>c. [c]) ?cs)"
    by (intro list_all2_appendI emits_map) (simp_all add: field_emits emits_byte)
  from emits_result [OF emits_seq [OF this] res]
  have bs: "bs = put_be 2 (nrMinimumVersion r) @ put_be 2 (nrMaximumVersion r) @
        put_be 2 (word_of_nat (length ?cs) :: u16) @ ?cs @ []" and "length bs \<le> MaxFramePayload"
    by (simp_all add: MaxFramePayload_def)
  then have "newBinaryDecoder bs = \<lparr>dec_rest = bs, dec_err = None\<rparr>"
    by (simp add: newBinaryDecoder_def)
  moreover have n: "unat (word_of_nat (length ?cs) :: u16) = length ?cs"
    using count by (simp add: unat_of_nat)
  moreover have "word_of_nat (length ?cs) \<noteq> (0 :: u16)" "\<not> word_of_nat (length ?cs) > (ucast CompressionLZ4 + 1 :: u16)"
    using count n unsigned_0 [where 'a = nat and 'b = 16]
    by (auto simp: compression_defs word_less_nat_alt simp del: unsigned_0)
  moreover have "decodePreferences (length ?cs) [] \<lparr>dec_rest = ?cs @ [], dec_err = None\<rparr> =
      Inr (?cs, \<lparr>dec_rest = [], dec_err = None\<rparr>)"
    using decodePreferences_layout [of ?cs "[]" "[]"] prefs by (simp add: checkPreferences_None)
  ultimately show ?thesis
    using range by (cases r) (simp add: DecodeNegotiationRequest_def bs f_uint16.decode dec_finish_def)
qed

lemma DecodeNegotiationResponse_Encode:
  assumes "EncodeNegotiationResponse r = Inr bs"
  shows "DecodeNegotiationResponse bs = Inr r"
proof -
  from assms have valid: "nsVersion r = ProtocolVersion" "compression_valid (nsCompression r)"
    and res: "enc_result (enc_seq [enc_uint16 (nsVersion r), enc_byte (nsCompression r)] (newBinaryEncoder 8)) = Inr bs"
    by (auto simp: EncodeNegotiationResponse_def split: if_splits)
  have "list_all2 emits [enc_uint16 (nsVersion r), enc_byte (nsCompression r)]
      [put_be 2 (nsVersion r), [nsCompression r]]"
    by (simp add: field_emits emits_byte)
  from emits_result [OF emits_seq [OF this] res]
  have bs: "bs = put_be 2 (nsVersion r) @ [nsCompression r]"
    by simp
  have "newBinaryDecoder bs = \<lparr>dec_rest = bs, dec_err = None\<rparr>"
    by (simp add: newBinaryDecoder_def bs MaxFramePayload_def)
  then show ?thesis
    using valid f_byte.decode [of "nsCompression r" "[]"]
    by (cases r) (simp add: DecodeNegotiationResponse_def bs f_uint16.decode dec_finish_def)
qed

subsection \<open>Properties\<close>

lemma keyed_keyed: "set ks \<subseteq> set ls \<Longrightarrow> keyed (keyed m ls) ks = keyed m ks"
proof -
  assume "set ks \<subseteq> set ls"
  then have "field_value (keyed m ls) k = field_value m k" if "k \<in> set ks" for k
    using that by (auto simp: field_value_def [of "keyed m ls"] map_of_keyed)
  then show ?thesis
    by (simp add: keyed_def [of _ ks])
qed

lemma orderedKeys_complete:
  "set (cpFieldOrder p) = dom (map_of (cpFields p)) \<Longrightarrow> orderedKeys p = cpFieldOrder p"
  by (auto simp: orderedKeys_def Let_def set_mkeys filter_empty_conv simp del: dom_map_of_conv_image_fst)

text \<open>C28: a command payload decodes to the same positional arguments and the same field map, with the
  fields in the order they were written, and what was decoded encodes to the very same bytes: a broker
  that forwards a command does not change it.\<close>

theorem command_payload_round_trip:
  assumes "mwf (cpFields p)" "EncodeCommandPayload p = Inr bs"
  shows "\<exists>q. DecodeCommandPayload bs = Inr q \<and> cpPositionals q = cpPositionals p \<and>
             map_of (cpFields q) = map_of (cpFields p) \<and> cpFieldOrder q = orderedKeys p \<and>
             mwf (cpFields q) \<and> EncodeCommandPayload q = Inr bs"
proof -
  let ?q = "\<lparr>cpPositionals = cpPositionals p, cpFields = keyed (cpFields p) (orderedKeys p),
             cpFieldOrder = orderedKeys p\<rparr>"
  note enc = EncodeCommandPayload_layout [OF assms(2)]
  note keys = orderedKeys_length [OF assms(1) enc(5,6)] orderedKeys_set [OF enc(6)]
    orderedKeys_distinct [OF assms(1) enc(5)]
  have same: "map_of (cpFields ?q) = map_of (cpFields p)"
    using map_of_keyed_same [OF keys(2)] by simp
  have order: "orderedKeys ?q = orderedKeys p"
    using orderedKeys_complete [of ?q] keys(2) same by simp
  have "command_layout ?q = command_layout p"
    unfolding command_layout_def order by (simp add: keyed_keyed)
  then have "EncodeCommandPayload ?q = Inr bs"
    using emits_result_ok [OF command_emits [of ?q], of MaxFramePayload] enc keys same
    by (auto simp: EncodeCommandPayload_def order list_ex_iff set_mkeys MaxFramePayload_def MaxUint32_def
        simp del: map_of_eq_None_iff)
  then show ?thesis
    using DecodeCommandPayload_Encode [OF assms(2,1)] same keys(3) by (auto simp: mwf_def)
qed

definition sample_command :: commandPayload where
  "sample_command = \<lparr>cpPositionals = [''now''], cpFields = [(''topic'', ''t''), (''group'', ''g'')],
     cpFieldOrder = []\<rparr>"

lemma sample_command_keys: "orderedKeys sample_command = [''group'', ''topic'']"
  by (simp add: orderedKeys_def sample_command_def mkeys_def Let_def)

lemma sample_command_encodes: "\<exists>bs. EncodeCommandPayload sample_command = Inr bs"
proof -
  have "length (command_layout sample_command) \<le> MaxFramePayload"
    unfolding command_layout_def sample_command_keys
    by (simp add: sample_command_def keyed_def lay_pair_def MaxFramePayload_def field_value_def)
  then have "enc_result (enc_seq
      ([enc_uint32 commandPayloadMagic, enc_uint16 commandPayloadVersion,
        enc_uint16 (word_of_nat (length (cpPositionals sample_command)))] @
       map enc_string (cpPositionals sample_command) @
       [enc_uint16 (word_of_nat (length (orderedKeys sample_command)))] @
       map (\<lambda>k. enc_pair (k, field_value (cpFields sample_command) k)) (orderedKeys sample_command))
      (newBinaryEncoder MaxFramePayload)) = Inr (command_layout sample_command)"
    by (rule emits_result_ok [OF command_emits]) (simp add: MaxFramePayload_def MaxUint32_def)
  then show ?thesis
    unfolding EncodeCommandPayload_def
    by (simp add: sample_command_def mkeys_def maxCommandArguments_def validFieldName_def lower_char_def
        inner_char_def badPositional_def isCommandSpace_def)
qed

theorem command_payload_round_trip_witness:
  "\<exists>bs q. EncodeCommandPayload sample_command = Inr bs \<and> DecodeCommandPayload bs = Inr q \<and>
     cpPositionals q = [''now''] \<and> map_of (cpFields q) ''topic'' = Some ''t'' \<and>
     cpFieldOrder q = [''group'', ''topic'']"
proof -
  obtain bs where bs: "EncodeCommandPayload sample_command = Inr bs"
    using sample_command_encodes by blast
  have "mwf (cpFields sample_command)"
    by (simp add: sample_command_def mwf_def)
  from command_payload_round_trip [OF this bs] show ?thesis
    using bs sample_command_keys by (auto simp: sample_command_def)
qed

text \<open>C29: the encoding of a command payload whose field order is empty or names every field does not
  depend on the order in which the runtime iterates over the field map.\<close>

theorem command_payload_deterministic:
  assumes "mwf (cpFields p)" "mset m = mset (cpFields p)"
    "cpFieldOrder p = [] \<or> dom (map_of (cpFields p)) \<subseteq> set (cpFieldOrder p)"
  shows "EncodeCommandPayload (p\<lparr>cpFields := m\<rparr>) = EncodeCommandPayload p"
proof -
  have wf: "mwf m"
    using assms(1) arg_cong [OF assms(2), of "image_mset fst"] mset_eq_imp_distinct_iff
    unfolding mwf_def mset_map [symmetric] by blast
  have same: "map_of m = map_of (cpFields p)"
    using wf assms(1) mset_eq_setD [OF assms(2)] by (simp add: mwf_def map_of_inject_set)
  have keys: "mset (mkeys m) = mset (mkeys (cpFields p))"
    using assms(2) by (simp add: mkeys_def)
  have "sort (mkeys m) = sort (mkeys (cpFields p))"
    using keys by (metis properties_for_sort sorted_sort mset_sort)
  moreover have "filter (\<lambda>k. k \<notin> set (cpFieldOrder p)) (mkeys m') = []"
    if "dom (map_of (cpFields p)) \<subseteq> set (cpFieldOrder p)" "map_of m' = map_of (cpFields p)" for m'
    using that set_mkeys [of m'] by (auto simp: filter_empty_conv)
  ultimately have "orderedKeys (p\<lparr>cpFields := m\<rparr>) = orderedKeys p"
    using assms(3) same by (auto simp: orderedKeys_def Let_def)
  moreover have "length m = length (cpFields p)"
    using assms(2) by (rule mset_eq_length)
  moreover have "set (mkeys m) = set (mkeys (cpFields p))"
    by (simp add: set_mkeys same)
  moreover have "cpPositionals (p\<lparr>cpFields := m\<rparr>) = cpPositionals p" "cpFields (p\<lparr>cpFields := m\<rparr>) = m"
    "cpFieldOrder (p\<lparr>cpFields := m\<rparr>) = cpFieldOrder p"
    by simp_all
  ultimately show ?thesis
    unfolding EncodeCommandPayload_def list_ex_iff field_value_def by (simp only: same)
qed

theorem command_payload_deterministic_witness:
  "EncodeCommandPayload (sample_command\<lparr>cpFields := [(''group'', ''g''), (''topic'', ''t'')]\<rparr>) =
   EncodeCommandPayload sample_command"
  by (rule command_payload_deterministic) (simp_all add: sample_command_def mwf_def)

text \<open>An order that names only some of the fields leaves the rest in iteration order.\<close>

lemma command_payload_order_dependent:
  "\<exists>p m. mwf (cpFields p) \<and> mset m = mset (cpFields p) \<and>
     orderedKeys (p\<lparr>cpFields := m\<rparr>) \<noteq> orderedKeys p \<and> cpFieldOrder p \<noteq> []"
proof (intro exI conjI)
  let ?p = "\<lparr>cpPositionals = [], cpFields = [(''a'', []), (''b'', []), (''c'', [])], cpFieldOrder = [''a'']\<rparr>"
  let ?m = "[(''a'', []), (''c'', []), (''b'', [])] :: (string, string) gomap"
  show "mwf (cpFields ?p)" "mset ?m = mset (cpFields ?p)" "cpFieldOrder ?p \<noteq> []"
    by (simp_all add: mwf_def)
  show "orderedKeys (?p\<lparr>cpFields := ?m\<rparr>) \<noteq> orderedKeys ?p"
    by (simp add: orderedKeys_def mkeys_def Let_def)
qed

text \<open>C30: an error payload round trips with its code, class, retryable flag, message and every field.\<close>

theorem error_payload_round_trip:
  assumes "mwf (epFields p)" "EncodeError p = Inr bs"
  shows "\<exists>q. DecodeError bs = Inr q \<and> map_of (epFields q) = map_of (epFields p) \<and>
             q = p\<lparr>epFields := epFields q\<rparr>"
proof -
  have "map_of (keyed (epFields p) (sort (mkeys (epFields p)))) = map_of (epFields p)"
    by (rule map_of_keyed_same) (simp add: set_mkeys)
  then show ?thesis
    using DecodeError_Encode [OF assms(2,1)] by auto
qed

definition sample_error :: errorPayload where
  "sample_error = \<lparr>epCode = ''NOT_LEADER'', epClass = 3, epRetryable = True, epMessage = ''moved'',
     epFields = [(''leader'', ''b2''), (''epoch'', ''7'')]\<rparr>"

theorem error_payload_round_trip_witness:
  "\<exists>bs q. EncodeError sample_error = Inr bs \<and> DecodeError bs = Inr q \<and> epCode q = ''NOT_LEADER'' \<and>
          map_of (epFields q) ''leader'' = Some ''b2''"
proof -
  have keys: "sort (mkeys (epFields sample_error)) = [''epoch'', ''leader'']"
    by (simp add: sample_error_def mkeys_def)
  have "length (error_layout sample_error) \<le> MaxFramePayload"
    unfolding error_layout_def keys
    by (simp add: sample_error_def keyed_def lay_pair_def MaxFramePayload_def field_value_def)
  from emits_result_ok [OF error_emits this]
  have bs: "EncodeError sample_error = Inr (error_layout sample_error)"
    unfolding EncodeError_def keys Let_def
    by (simp add: sample_error_def validErrorCode_def MaxFramePayload_def MaxUint32_def)
  have "mwf (epFields sample_error)"
    by (simp add: sample_error_def mwf_def)
  from error_payload_round_trip [OF this bs] obtain q where q: "DecodeError (error_layout sample_error) = Inr q"
    "map_of (epFields q) = map_of (epFields sample_error)" "q = sample_error\<lparr>epFields := epFields q\<rparr>"
    by blast
  have "epCode q = ''NOT_LEADER''"
    by (subst q(3)) (simp add: sample_error_def)
  then show ?thesis
    using bs q(1,2) by (auto simp: sample_error_def)
qed

lemma SelectCompression_iff:
  "SelectCompression r supported = Inr c \<longleftrightarrow>
     nrMinimumVersion r \<le> ProtocolVersion \<and> ProtocolVersion \<le> nrMaximumVersion r \<and>
     (\<forall>s \<in> set supported. compression_valid s) \<and>
     (\<exists>pre post. nrCompressions r = pre @ c # post \<and> c \<in> set supported \<and> set pre \<inter> set supported = {})"
proof -
  have "(case filter (\<lambda>c. c \<in> set supported) cs of [] \<Rightarrow> Inl NoMutualCompression | c # _ \<Rightarrow> Inr c) = Inr c \<longleftrightarrow>
     (\<exists>pre post. cs = pre @ c # post \<and> c \<in> set supported \<and> set pre \<inter> set supported = {})" for cs
  proof
    assume "\<exists>pre post. cs = pre @ c # post \<and> c \<in> set supported \<and> set pre \<inter> set supported = {}"
    then obtain pre post where cs: "cs = pre @ c # post" "c \<in> set supported" "set pre \<inter> set supported = {}"
      by blast
    then have "filter (\<lambda>c. c \<in> set supported) pre = []"
      by (auto simp: filter_empty_conv)
    then show "(case filter (\<lambda>c. c \<in> set supported) cs of [] \<Rightarrow> Inl NoMutualCompression | c # _ \<Rightarrow> Inr c) = Inr c"
      using cs by simp
  qed (fastforce simp: filter_eq_Cons_iff split: list.splits)
  then show ?thesis
    by (auto simp: SelectCompression_def list_ex_iff not_less)
qed

text \<open>C31: the handshake. What the client encodes is what the server decodes; the compression the
  server selects is the client's first preference that the server supports, with a version range that
  contains this protocol; and the response makes the client build the codec the server uses.\<close>

theorem handshake_agreement:
  assumes "EncodeNegotiationRequest request = Inr hello"
  shows "DecodeNegotiationRequest hello = Inr request \<and>
    (\<forall>c. SelectCompression request supported = Inr c \<longrightarrow>
       (\<exists>pre post. nrCompressions request = pre @ c # post \<and> c \<in> set supported \<and> set pre \<inter> set supported = {}) \<and>
       nrMinimumVersion request \<le> ProtocolVersion \<and> ProtocolVersion \<le> nrMaximumVersion request \<and>
       (\<exists>reply. EncodeNegotiationResponse \<lparr>nsVersion = ProtocolVersion, nsCompression = c\<rparr> = Inr reply \<and>
                DecodeNegotiationResponse reply = Inr \<lparr>nsVersion = ProtocolVersion, nsCompression = c\<rparr>) \<and>
       NewCodec c = Inr (Some c))"
proof (intro conjI allI impI)
  show "DecodeNegotiationRequest hello = Inr request"
    using assms by (rule DecodeNegotiationRequest_Encode)
  fix c
  assume sel: "SelectCompression request supported = Inr c"
  note sel_iff = sel [unfolded SelectCompression_iff]
  then show "\<exists>pre post. nrCompressions request = pre @ c # post \<and> c \<in> set supported \<and> set pre \<inter> set supported = {}"
    "nrMinimumVersion request \<le> ProtocolVersion" "ProtocolVersion \<le> nrMaximumVersion request"
    by blast+
  have valid: "compression_valid c"
    using sel_iff by blast
  then show "NewCodec c = Inr (Some c)"
    by (simp add: NewCodec_def)
  let ?r = "\<lparr>nsVersion = ProtocolVersion, nsCompression = c\<rparr>"
  have "list_all2 emits [enc_uint16 (nsVersion ?r), enc_byte (nsCompression ?r)] [put_be 2 (nsVersion ?r), [nsCompression ?r]]"
    by (simp add: field_emits emits_byte)
  from emits_result_ok [OF emits_seq [OF this], of 8] valid
  have "\<exists>reply. EncodeNegotiationResponse ?r = Inr reply"
    by (simp add: EncodeNegotiationResponse_def MaxUint32_def)
  then show "\<exists>reply. EncodeNegotiationResponse ?r = Inr reply \<and> DecodeNegotiationResponse reply = Inr ?r"
    using DecodeNegotiationResponse_Encode by blast
qed

definition sample_hello :: negotiationRequest where
  "sample_hello = \<lparr>nrMinimumVersion = 1, nrMaximumVersion = 3,
     nrCompressions = [CompressionLZ4, CompressionSnappy, CompressionNone]\<rparr>"

theorem handshake_agreement_witness:
  "\<exists>hello. EncodeNegotiationRequest sample_hello = Inr hello \<and>
     DecodeNegotiationRequest hello = Inr sample_hello \<and>
     SelectCompression sample_hello [CompressionNone, CompressionSnappy] = Inr CompressionSnappy \<and>
     NewCodec CompressionSnappy = Inr (Some CompressionSnappy)"
proof -
  have "checkPreferences [] (nrCompressions sample_hello) = None"
    by (simp add: sample_hello_def compression_defs compression_valid_def)
  then have "EncodeNegotiationRequest sample_hello = Inr
      (put_be 2 (1 :: u16) @ put_be 2 (3 :: u16) @ put_be 2 (3 :: u16) @ [3, 2, 0])"
    by (simp add: EncodeNegotiationRequest_def sample_hello_def compression_defs enc_seq_def enc_uint16_def
        enc_byte_def enc_append_def newBinaryEncoder_def enc_result_def)
  then obtain hello where hello: "EncodeNegotiationRequest sample_hello = Inr hello" ..
  moreover have "SelectCompression sample_hello [CompressionNone, CompressionSnappy] = Inr CompressionSnappy"
    by (simp add: SelectCompression_def sample_hello_def compression_defs ProtocolVersion_def compression_valid_def)
  ultimately show ?thesis
    using handshake_agreement [OF hello, of "[CompressionNone, CompressionSnappy]"] by blast
qed

end
