(* ===== verification/Go_Hash.thy ===== *)
theory Go_Hash
  imports Cursus_Prelude
begin

section \<open>Hash functions of the Go standard library\<close>

text \<open>
  \<open>crypto/sha256\<close> and \<open>encoding/hex\<close> as the broker uses them: SHA-256 of a byte string and the
  lower-case hexadecimal form of bytes.
\<close>

definition sha256_init :: "u32 list" where
  "sha256_init =
     [1779033703, 3144134277, 1013904242, 2773480762, 1359893119, 2600822924,
      528734635, 1541459225]"

definition sha256_round :: "u32 list" where
  "sha256_round =
     [1116352408, 1899447441, 3049323471, 3921009573, 961987163, 1508970993,
      2453635748, 2870763221, 3624381080, 310598401, 607225278, 1426881987,
      1925078388, 2162078206, 2614888103, 3248222580, 3835390401, 4022224774,
      264347078, 604807628, 770255983, 1249150122, 1555081692, 1996064986,
      2554220882, 2821834349, 2952996808, 3210313671, 3336571891, 3584528711,
      113926993, 338241895, 666307205, 773529912, 1294757372, 1396182291,
      1695183700, 1986661051, 2177026350, 2456956037, 2730485921, 2820302411,
      3259730800, 3345764771, 3516065817, 3600352804, 4094571909, 275423344,
      430227734, 506948616, 659060556, 883997877, 958139571, 1322822218,
      1537002063, 1747873779, 1955562222, 2024104815, 2227730452, 2361852424,
      2428436474, 2756734187, 3204031479, 3329325298]"

definition sha_ch :: "u32 \<Rightarrow> u32 \<Rightarrow> u32 \<Rightarrow> u32" where
  "sha_ch e f g = (e AND f) XOR (NOT e AND g)"

definition sha_maj :: "u32 \<Rightarrow> u32 \<Rightarrow> u32 \<Rightarrow> u32" where
  "sha_maj a b c = (a AND b) XOR (a AND c) XOR (b AND c)"

definition sha_rot3 :: "nat \<Rightarrow> nat \<Rightarrow> nat \<Rightarrow> u32 \<Rightarrow> u32" where
  "sha_rot3 i j k w = word_rotr i w XOR word_rotr j w XOR word_rotr k w"

definition sha_shift :: "nat \<Rightarrow> nat \<Rightarrow> nat \<Rightarrow> u32 \<Rightarrow> u32" where
  "sha_shift i j k w = word_rotr i w XOR word_rotr j w XOR drop_bit k w"

text \<open>The message schedule, newest word first.\<close>

fun sha_schedule :: "nat \<Rightarrow> u32 list \<Rightarrow> u32 list" where
  "sha_schedule 0 ws = ws"
| "sha_schedule (Suc n) ws =
     sha_schedule n
       ((sha_shift 17 19 10 (ws ! 1) + ws ! 6 + sha_shift 7 18 3 (ws ! 14) + ws ! 15) # ws)"

datatype sha_regs = Regs u32 u32 u32 u32 u32 u32 u32 u32

fun sha_step :: "u32 \<times> u32 \<Rightarrow> sha_regs \<Rightarrow> sha_regs" where
  "sha_step (k, w) (Regs a b c d e f g h) =
     (let t1 = h + sha_rot3 6 11 25 e + sha_ch e f g + k + w;
          t2 = sha_rot3 2 13 22 a + sha_maj a b c
      in Regs (t1 + t2) a b c (d + t1) e f g)"

fun regs_of :: "u32 list \<Rightarrow> sha_regs" where
  "regs_of [a, b, c, d, e, f, g, h] = Regs a b c d e f g h"
| "regs_of _ = Regs 0 0 0 0 0 0 0 0"

fun regs_list :: "sha_regs \<Rightarrow> u32 list" where
  "regs_list (Regs a b c d e f g h) = [a, b, c, d, e, f, g, h]"

fun be_words :: "bytes \<Rightarrow> u32 list" where
  "be_words (a # b # c # d # rest) = get_be [a, b, c, d] # be_words rest"
| "be_words _ = []"

definition sha_block :: "bytes \<Rightarrow> u32 list \<Rightarrow> u32 list" where
  "sha_block block hs =
     (let ws = rev (sha_schedule 48 (rev (be_words block)));
          out = regs_list (fold sha_step (zip sha256_round ws) (regs_of hs))
      in map2 (+) hs out)"

fun sha_blocks :: "nat \<Rightarrow> bytes \<Rightarrow> u32 list \<Rightarrow> u32 list" where
  "sha_blocks 0 data hs = hs"
| "sha_blocks (Suc n) data hs = sha_blocks n (drop 64 data) (sha_block (take 64 data) hs)"

definition sha_pad :: "bytes \<Rightarrow> bytes" where
  "sha_pad data =
     data @ [0x80] @ replicate ((119 - length data mod 64) mod 64) 0 @ put_be 8 (word_of_nat (8 * length data) :: u64)"

definition sha256 :: "bytes \<Rightarrow> bytes" where
  "sha256 data =
     (let padded = sha_pad data
      in concat (map (put_be 4) (sha_blocks (length padded div 64) padded sha256_init)))"

definition hex_digit :: "nat \<Rightarrow> char" where
  "hex_digit n = char_of (if n < 10 then 48 + n else 87 + n)"

definition hex_encode :: "bytes \<Rightarrow> string" where
  "hex_encode bs = concat (map (\<lambda>b. [hex_digit (unat b div 16), hex_digit (unat b mod 16)]) bs)"

lemma length_regs_list [simp]: "length (regs_list r) = 8"
  by (cases r) simp

lemma length_sha_block [simp]: "length hs = 8 \<Longrightarrow> length (sha_block block hs) = 8"
  by (simp add: sha_block_def Let_def)

lemma length_sha_blocks [simp]: "length hs = 8 \<Longrightarrow> length (sha_blocks n data hs) = 8"
  by (induction n arbitrary: data hs) simp_all

lemma length_sha_pad: "64 dvd length (sha_pad data)"
proof -
  define q r where "q = length data div 64" and "r = length data mod 64"
  have n: "length data = 64 * q + r" and r: "r < 64"
    by (simp_all add: q_def r_def)
  have len: "length (sha_pad data) = 64 * q + r + 9 + (119 - r) mod 64"
    using r by (simp add: sha_pad_def n)
  show ?thesis
  proof (cases "r \<le> 55")
    case True
    then have "(119 - r) mod 64 = 55 - r"
      by (simp add: mod_if)
    then have "length (sha_pad data) = 64 * (q + 1)"
      using True len by simp
    then show ?thesis by simp
  next
    case False
    then have "length (sha_pad data) = 64 * (q + 2)"
      using len r by simp
    then show ?thesis by simp
  qed
qed

lemma length_sha256 [simp]: "length (sha256 data) = 32"
proof -
  have "length (sha_blocks n padded sha256_init) = 8" for n padded
    by (simp add: sha256_init_def)
  moreover have "length (concat (map (put_be 4) (ws :: u32 list))) = 4 * length ws" for ws
    by (induction ws) simp_all
  ultimately show ?thesis
    by (simp add: sha256_def Let_def)
qed

lemma length_hex_encode [simp]: "length (hex_encode bs) = 2 * length bs"
  by (induction bs) (simp_all add: hex_encode_def)

end
