(* ===== verification/Txn_Manager.thy ===== *)
theory Txn_Manager
  imports Wire_Record Go_Hash "HOL-Library.List_Lexorder" "HOL-Library.Char_ord"
begin

section \<open>The transaction manager\<close>

text \<open>
  \<open>pkg/transaction/manager.go\<close> and \<open>topic_lifecycle.go\<close>: the coordinator's table of transactions.
  One definition per method of \<open>Manager\<close>, on the manager's state; \<open>time.Now()\<close> is the argument
  \<open>now\<close>. A method that can fail after it has changed the state returns the state beside the error
  (\<open>AddOffsets\<close>); the others return either an error, with the state unchanged, or the new state. The
  mutex makes each method atomic. The table holds no nil entry: every method that stores one stores an
  allocated transaction. A slice is a list, nil and empty alike.
\<close>

subsection \<open>Types\<close>

definition StateOpen :: string where "StateOpen = ''open''"
definition StateCommitting :: string where "StateCommitting = ''committing''"
definition StateCommitted :: string where "StateCommitted = ''committed''"
definition StateAborted :: string where "StateAborted = ''aborted''"

lemmas state_defs = StateOpen_def StateCommitting_def StateCommitted_def StateAborted_def

datatype txn_error =
    MissingTransactionID
  | MissingProducer
  | TransactionNotInitialized
  | OwnerMismatch
  | ProducerFenced
  | EpochNotInitialized
  | ErrProducerReinitializationRequired
  | AlreadyActive
  | TransactionNotFound
  | TransactionIs string
  | TransactionIsCommitting
  | TransactionExpired
  | NoOffsets
  | OffsetScopeMismatch
  | OffsetRegression
  | NotPrepared
  | AlreadyCommitted
  | CannotAbort
  | StaleSnapshot
  | InvalidIdentity
  | NegativeEpoch
  | MissingRevision
  | InvalidState
  | InvalidTimestamps
  | NilSnapshot
  | KeyMismatch
  | TopicReferenced "string list"

record messageOperation =
  moTopic :: string
  moPartition :: i64
  moMessage :: message

record offsetOperation =
  ooTopic :: string
  ooGroup :: string
  ooMember :: string
  ooGeneration :: i64
  ooPartition :: i64
  ooOffset :: u64

record transaction =
  tID :: string
  tProducer :: string
  tEpoch :: i64
  tRevision :: u64
  tReady :: bool
  tExpired :: bool
  tState :: string
  tMessages :: "messageOperation list"
  tOffsets :: "offsetOperation list"
  tCreatedAt :: instant
  tUpdatedAt :: instant

record snapshot =
  sID :: string
  sProducer :: string
  sEpoch :: i64
  sRevision :: u64
  sReady :: bool
  sExpired :: bool
  sState :: string
  sMessages :: "messageOperation list"
  sOffsets :: "offsetOperation list"
  sCreatedAt :: instant
  sUpdatedAt :: instant

record manager =
  mTxns :: "(string, transaction) gomap"
  mExpiration :: int

definition snapshot_of :: "transaction \<Rightarrow> snapshot" where
  "snapshot_of tx =
     \<lparr>sID = tID tx, sProducer = tProducer tx, sEpoch = tEpoch tx, sRevision = tRevision tx,
      sReady = tReady tx, sExpired = tExpired tx, sState = tState tx, sMessages = tMessages tx,
      sOffsets = tOffsets tx, sCreatedAt = tCreatedAt tx, sUpdatedAt = tUpdatedAt tx\<rparr>"

definition transactionFromSnapshot :: "snapshot \<Rightarrow> transaction" where
  "transactionFromSnapshot s =
     \<lparr>tID = sID s, tProducer = sProducer s, tEpoch = sEpoch s, tRevision = sRevision s,
      tReady = sReady s, tExpired = sExpired s, tState = sState s, tMessages = sMessages s,
      tOffsets = sOffsets s, tCreatedAt = sCreatedAt s, tUpdatedAt = sUpdatedAt s\<rparr>"

definition defaultExpiration :: int where
  "defaultExpiration = 7 * 24 * 3600 * 10 ^ 9"

definition NewManagerWithExpiration :: "int \<Rightarrow> manager" where
  "NewManagerWithExpiration expiration =
     \<lparr>mTxns = [], mExpiration = (if expiration \<le> 0 then defaultExpiration else expiration)\<rparr>"

definition producerIDForTransactionalID :: "string \<Rightarrow> string" where
  "producerIDForTransactionalID tid = ''txn-'' @ hex_encode (take 8 (sha256 (bytes_of_string tid)))"

subsection \<open>Expiration\<close>

text \<open>The result is the transaction and whether it was expired just now.\<close>

definition expireTransactionLocked :: "transaction \<Rightarrow> instant \<Rightarrow> instant \<Rightarrow> transaction \<times> bool" where
  "expireTransactionLocked tx cutoff now =
     (if tExpired tx \<or> \<not> tUpdatedAt tx < cutoff then (tx, False)
      else if tState tx \<noteq> StateCommitted \<and> tState tx \<noteq> StateAborted then (tx, False)
      else (tx\<lparr>tMessages := [], tOffsets := [], tReady := False, tExpired := True,
              tRevision := tRevision tx + 1, tUpdatedAt := now\<rparr>, True))"

fun pruneLoop :: "instant \<Rightarrow> instant \<Rightarrow> (string, transaction) gomap \<Rightarrow> (string, transaction) gomap \<times> nat" where
  "pruneLoop cutoff now [] = ([], 0)"
| "pruneLoop cutoff now ((tid, tx) # rest) =
     (let (rest', removed) = pruneLoop cutoff now rest in
      if tExpired tx then
        (if tUpdatedAt tx < cutoff then (rest', removed + 1) else ((tid, tx) # rest', removed))
      else let (tx', expired) = expireTransactionLocked tx cutoff now
        in ((tid, tx') # rest', if expired then removed + 1 else removed))"

definition PruneExpired :: "instant \<Rightarrow> manager \<Rightarrow> manager \<times> nat" where
  "PruneExpired now m =
     (if mExpiration m \<le> 0 then (m, 0)
      else let (txns, removed) = pruneLoop (now - mExpiration m) now (mTxns m)
        in (m\<lparr>mTxns := txns\<rparr>, removed))"

subsection \<open>Client operations\<close>

definition put_txn :: "string \<Rightarrow> transaction \<Rightarrow> manager \<Rightarrow> manager" where
  "put_txn tid tx m = m\<lparr>mTxns := mput tid tx (mTxns m)\<rparr>"

definition InitProducer :: "instant \<Rightarrow> string \<Rightarrow> manager \<Rightarrow> txn_error + (string \<times> i64 \<times> manager)" where
  "InitProducer now tid m =
     (if tid = '''' then Inl MissingTransactionID
      else let previous = map_option (\<lambda>tx. fst (expireTransactionLocked tx (now - mExpiration m) now))
                            (map_of (mTxns m) tid) in
        if (case previous of None \<Rightarrow> False | Some tx \<Rightarrow> tState tx = StateCommitting)
        then Inl TransactionIsCommitting
        else let producer = (case previous of
                   None \<Rightarrow> producerIDForTransactionalID tid
                 | Some tx \<Rightarrow> if tProducer tx \<noteq> '''' then tProducer tx else producerIDForTransactionalID tid);
                 epoch = (case previous of None \<Rightarrow> 0 | Some tx \<Rightarrow> tEpoch tx + 1);
                 revision = (case previous of None \<Rightarrow> 1 | Some tx \<Rightarrow> tRevision tx + 1)
          in Inr (producer, epoch,
               put_txn tid \<lparr>tID = tid, tProducer = producer, tEpoch = epoch, tRevision = revision,
                 tReady = True, tExpired = False, tState = StateAborted, tMessages = [], tOffsets = [],
                 tCreatedAt = now, tUpdatedAt = now\<rparr> m))"

definition Begin :: "instant \<Rightarrow> string \<Rightarrow> string \<Rightarrow> i64 \<Rightarrow> manager \<Rightarrow> txn_error + manager" where
  "Begin now tid producer epoch m =
     (if tid = '''' then Inl MissingTransactionID
      else if producer = '''' then Inl MissingProducer
      else case map_of (mTxns m) tid of
        None \<Rightarrow> Inl TransactionNotInitialized
      | Some tx \<Rightarrow>
          if tExpired tx then Inl TransactionNotInitialized
          else if tProducer tx \<noteq> '''' \<and> tProducer tx \<noteq> producer then Inl OwnerMismatch
          else if sint epoch < sint (tEpoch tx) then Inl ProducerFenced
          else if sint epoch > sint (tEpoch tx) then Inl EpochNotInitialized
          else if \<not> tReady tx then Inl ErrProducerReinitializationRequired
          else if tState tx \<noteq> StateCommitted \<and> tState tx \<noteq> StateAborted then Inl AlreadyActive
          else Inr (put_txn tid \<lparr>tID = tid, tProducer = producer, tEpoch = epoch, tRevision = tRevision tx + 1,
                      tReady = False, tExpired = False, tState = StateOpen, tMessages = [], tOffsets = [],
                      tCreatedAt = now, tUpdatedAt = now\<rparr> m))"

definition validateOwner :: "transaction \<Rightarrow> string \<Rightarrow> i64 \<Rightarrow> txn_error option" where
  "validateOwner tx producer epoch =
     (if tExpired tx then Some TransactionExpired
      else if producer = '''' then Some MissingProducer
      else if tProducer tx \<noteq> producer then Some OwnerMismatch
      else if epoch \<noteq> tEpoch tx then Some ProducerFenced
      else None)"

definition activeLocked :: "string \<Rightarrow> manager \<Rightarrow> txn_error + transaction" where
  "activeLocked tid m =
     (case map_of (mTxns m) tid of
        None \<Rightarrow> Inl TransactionNotFound
      | Some tx \<Rightarrow> if tState tx \<noteq> StateOpen then Inl (TransactionIs (tState tx)) else Inr tx)"

definition AddMessage ::
  "instant \<Rightarrow> string \<Rightarrow> string \<Rightarrow> i64 \<Rightarrow> messageOperation \<Rightarrow> manager \<Rightarrow> txn_error + manager" where
  "AddMessage now tid producer epoch op m =
     (case activeLocked tid m of
        Inl err \<Rightarrow> Inl err
      | Inr tx \<Rightarrow>
          (case validateOwner tx producer epoch of
             Some err \<Rightarrow> Inl err
           | None \<Rightarrow>
               Inr (put_txn tid (tx\<lparr>tMessages := tMessages tx @ [op], tRevision := tRevision tx + 1,
                                  tUpdatedAt := now\<rparr>) m)))"

definition same_scope :: "offsetOperation \<Rightarrow> offsetOperation \<Rightarrow> bool" where
  "same_scope op scope \<longleftrightarrow>
     ooTopic op = ooTopic scope \<and> ooGroup op = ooGroup scope \<and> ooMember op = ooMember scope \<and>
     ooGeneration op = ooGeneration scope"

definition same_target :: "offsetOperation \<Rightarrow> offsetOperation \<Rightarrow> bool" where
  "same_target current op \<longleftrightarrow>
     ooTopic current = ooTopic op \<and> ooGroup current = ooGroup op \<and> ooPartition current = ooPartition op"

text \<open>The inner loop on one operation: None is the regression error.\<close>

fun upsertOffset :: "offsetOperation \<Rightarrow> offsetOperation list \<Rightarrow> offsetOperation list option" where
  "upsertOffset op [] = Some [op]"
| "upsertOffset op (current # rest) =
     (if \<not> same_target current op then map_option ((#) current) (upsertOffset op rest)
      else if ooOffset op < ooOffset current then None
      else Some (op # rest))"

text \<open>The outer loop, with the offsets reached and whether it ran to its end.\<close>

fun addOffsetsLoop :: "offsetOperation list \<Rightarrow> offsetOperation list \<Rightarrow> offsetOperation list \<times> bool" where
  "addOffsetsLoop [] current = (current, True)"
| "addOffsetsLoop (op # ops) current =
     (case upsertOffset op current of
        None \<Rightarrow> (current, False)
      | Some current' \<Rightarrow> addOffsetsLoop ops current')"

definition AddOffsets ::
  "instant \<Rightarrow> string \<Rightarrow> string \<Rightarrow> i64 \<Rightarrow> offsetOperation list \<Rightarrow> manager \<Rightarrow> txn_error option \<times> manager" where
  "AddOffsets now tid producer epoch offsets m =
     (case offsets of
        [] \<Rightarrow> (Some NoOffsets, m)
      | first # _ \<Rightarrow>
          (case activeLocked tid m of
             Inl err \<Rightarrow> (Some err, m)
           | Inr tx \<Rightarrow>
               (case validateOwner tx producer epoch of
                  Some err \<Rightarrow> (Some err, m)
                | None \<Rightarrow>
                    (let scope = (case tOffsets tx of [] \<Rightarrow> first | o0 # _ \<Rightarrow> o0) in
                     if list_ex (\<lambda>op. \<not> same_scope op scope) offsets then (Some OffsetScopeMismatch, m)
                     else let (current, finished) = addOffsetsLoop offsets (tOffsets tx) in
                       if \<not> finished then (Some OffsetRegression, put_txn tid (tx\<lparr>tOffsets := current\<rparr>) m)
                       else (None, put_txn tid (tx\<lparr>tOffsets := current, tRevision := tRevision tx + 1,
                                                 tUpdatedAt := now\<rparr>) m)))))"

definition PrepareCommit ::
  "instant \<Rightarrow> string \<Rightarrow> string \<Rightarrow> i64 \<Rightarrow> manager \<Rightarrow> txn_error + (transaction \<times> manager)" where
  "PrepareCommit now tid producer epoch m =
     (case map_of (mTxns m) tid of
        None \<Rightarrow> Inl TransactionNotFound
      | Some tx \<Rightarrow>
          (case validateOwner tx producer epoch of
             Some err \<Rightarrow> Inl err
           | None \<Rightarrow>
               if tState tx = StateOpen then
                 (let tx' = tx\<lparr>tState := StateCommitting, tRevision := tRevision tx + 1, tUpdatedAt := now\<rparr>
                  in Inr (tx', put_txn tid tx' m))
               else if tState tx = StateCommitting then Inr (tx, m)
               else if tState tx = StateCommitted then Inr (tx, m)
               else Inl (TransactionIs (tState tx))))"

definition Commit :: "instant \<Rightarrow> string \<Rightarrow> manager \<Rightarrow> txn_error + manager" where
  "Commit now tid m =
     (case map_of (mTxns m) tid of
        None \<Rightarrow> Inl TransactionNotFound
      | Some tx \<Rightarrow>
          if tState tx \<noteq> StateCommitting then Inl NotPrepared
          else Inr (put_txn tid (tx\<lparr>tState := StateCommitted, tRevision := tRevision tx + 1,
                                  tUpdatedAt := now\<rparr>) m))"

definition Abort :: "instant \<Rightarrow> string \<Rightarrow> string \<Rightarrow> i64 \<Rightarrow> manager \<Rightarrow> txn_error + manager" where
  "Abort now tid producer epoch m =
     (case map_of (mTxns m) tid of
        None \<Rightarrow> Inl TransactionNotFound
      | Some tx \<Rightarrow>
          (case validateOwner tx producer epoch of
             Some err \<Rightarrow> Inl err
           | None \<Rightarrow>
               if tState tx = StateCommitted then Inl AlreadyCommitted
               else if tState tx = StateAborted then Inr m
               else if tState tx = StateCommitting then Inl CannotAbort
               else Inr (put_txn tid (tx\<lparr>tState := StateAborted, tMessages := [], tOffsets := [],
                                       tRevision := tRevision tx + 1, tUpdatedAt := now\<rparr>) m)))"

definition Delete :: "string \<Rightarrow> manager \<Rightarrow> manager" where
  "Delete tid m = m\<lparr>mTxns := mdel tid (mTxns m)\<rparr>"

subsection \<open>Queries\<close>

definition ValidateOwner :: "string \<Rightarrow> string \<Rightarrow> i64 \<Rightarrow> manager \<Rightarrow> txn_error + transaction" where
  "ValidateOwner tid producer epoch m =
     (case map_of (mTxns m) tid of
        None \<Rightarrow> Inl TransactionNotFound
      | Some tx \<Rightarrow> (case validateOwner tx producer epoch of Some err \<Rightarrow> Inl err | None \<Rightarrow> Inr tx))"

definition Status :: "string \<Rightarrow> manager \<Rightarrow> txn_error + transaction" where
  "Status tid m =
     (case map_of (mTxns m) tid of
        None \<Rightarrow> Inl TransactionNotFound
      | Some tx \<Rightarrow> if tExpired tx then Inl TransactionNotFound else Inr tx)"

definition TransactionDecision :: "manager \<Rightarrow> string \<Rightarrow> i64 \<Rightarrow> string option" where
  "TransactionDecision m tid epoch =
     (case map_of (mTxns m) tid of
        None \<Rightarrow> None
      | Some tx \<Rightarrow> if tExpired tx \<or> tEpoch tx \<noteq> epoch then None else Some (tState tx))"

definition TransactionsByState :: "string list \<Rightarrow> manager \<Rightarrow> transaction list" where
  "TransactionsByState states m =
     filter (\<lambda>tx. \<not> tExpired tx \<and> tState tx \<in> set states) (map snd (mTxns m))"

subsection \<open>Snapshots and replication\<close>

definition BuildCommittedSnapshot :: "instant \<Rightarrow> string \<Rightarrow> manager \<Rightarrow> txn_error + snapshot" where
  "BuildCommittedSnapshot now tid m =
     (case map_of (mTxns m) tid of
        None \<Rightarrow> Inl TransactionNotFound
      | Some tx \<Rightarrow>
          if tState tx = StateCommitted then Inr (snapshot_of tx)
          else if tState tx = StateCommitting then
            (let committed = snapshot_of tx
             in Inr (committed\<lparr>sState := StateCommitted, sRevision := sRevision committed + 1, sUpdatedAt := now\<rparr>))
          else Inl NotPrepared)"

definition BuildAbortedSnapshot :: "instant \<Rightarrow> string \<Rightarrow> string \<Rightarrow> i64 \<Rightarrow> manager \<Rightarrow> txn_error + snapshot" where
  "BuildAbortedSnapshot now tid producer epoch m =
     (case map_of (mTxns m) tid of
        None \<Rightarrow> Inl TransactionNotFound
      | Some tx \<Rightarrow>
          (case validateOwner tx producer epoch of
             Some err \<Rightarrow> Inl err
           | None \<Rightarrow>
               if tState tx = StateCommitted then Inl AlreadyCommitted
               else if tState tx = StateAborted then Inr (snapshot_of tx)
               else if tState tx = StateCommitting then Inl CannotAbort
               else if tState tx = StateOpen then
                 (let aborted = snapshot_of tx
                  in Inr (aborted\<lparr>sState := StateAborted, sRevision := sRevision aborted + 1, sUpdatedAt := now\<rparr>))
               else Inl CannotAbort))"

definition validateSnapshot :: "snapshot \<Rightarrow> txn_error option" where
  "validateSnapshot s =
     (if sID s = '''' \<or> sProducer s = '''' then Some InvalidIdentity
      else if sint (sEpoch s) < 0 then Some NegativeEpoch
      else if sRevision s = 0 then Some MissingRevision
      else if sState s \<notin> {StateOpen, StateCommitting, StateCommitted, StateAborted} then Some InvalidState
      else if sCreatedAt s = 0 \<or> sUpdatedAt s = 0 \<or> sUpdatedAt s < sCreatedAt s then Some InvalidTimestamps
      else None)"

fun ValidateImportState :: "(string, snapshot option) gomap \<Rightarrow> txn_error option" where
  "ValidateImportState [] = None"
| "ValidateImportState ((tid, snap) # rest) =
     (case snap of
        None \<Rightarrow> Some NilSnapshot
      | Some s \<Rightarrow>
          if sID s \<noteq> tid then Some KeyMismatch
          else case validateSnapshot s of
            Some err \<Rightarrow> Some err
          | None \<Rightarrow> ValidateImportState rest)"

definition ExportState :: "manager \<Rightarrow> (string, snapshot option) gomap" where
  "ExportState m = mvals (\<lambda>tx. Some (snapshot_of tx)) (mTxns m)"

definition ImportState :: "(string, snapshot option) gomap \<Rightarrow> manager \<Rightarrow> txn_error + manager" where
  "ImportState state m =
     (case ValidateImportState state of
        Some err \<Rightarrow> Inl err
      | None \<Rightarrow> Inr (m\<lparr>mTxns := mvals (\<lambda>s. transactionFromSnapshot (the s)) state\<rparr>))"

definition ApplySnapshot :: "snapshot option \<Rightarrow> manager \<Rightarrow> manager" where
  "ApplySnapshot snap m =
     (case snap of
        None \<Rightarrow> m
      | Some s \<Rightarrow> if sID s = '''' then m else put_txn (sID s) (transactionFromSnapshot s) m)"

definition snapshotIsNewer :: "transaction \<Rightarrow> snapshot \<Rightarrow> bool" where
  "snapshotIsNewer current incoming =
     (if sEpoch incoming \<noteq> tEpoch current then sint (sEpoch incoming) > sint (tEpoch current)
      else if sRevision incoming \<noteq> tRevision current then sRevision incoming > tRevision current
      else False)"

definition snapshotsEqual :: "transaction \<Rightarrow> snapshot \<Rightarrow> bool" where
  "snapshotsEqual current incoming \<longleftrightarrow>
     tID current = sID incoming \<and> tProducer current = sProducer incoming \<and>
     tEpoch current = sEpoch incoming \<and> tRevision current = sRevision incoming \<and>
     tReady current = sReady incoming \<and> tExpired current = sExpired incoming \<and>
     tState current = sState incoming \<and> tCreatedAt current = sCreatedAt incoming \<and>
     tUpdatedAt current = sUpdatedAt incoming \<and> tMessages current = sMessages incoming \<and>
     tOffsets current = sOffsets incoming"

definition committedSnapshotSucceeds :: "transaction \<Rightarrow> snapshot \<Rightarrow> bool" where
  "committedSnapshotSucceeds current incoming \<longleftrightarrow>
     tID current = sID incoming \<and> tProducer current = sProducer incoming \<and>
     tEpoch current = sEpoch incoming \<and> tState current = StateCommitted \<and>
     sState incoming = StateCommitting \<and> tRevision current = sRevision incoming + 1 \<and>
     tReady current = sReady incoming \<and> tExpired current = sExpired incoming \<and>
     tCreatedAt current = sCreatedAt incoming \<and> tMessages current = sMessages incoming \<and>
     tOffsets current = sOffsets incoming"

definition ApplyReplicatedSnapshot :: "snapshot option \<Rightarrow> manager \<Rightarrow> txn_error + manager" where
  "ApplyReplicatedSnapshot snap m =
     (case snap of
        None \<Rightarrow> Inl InvalidIdentity
      | Some s \<Rightarrow>
          (case validateSnapshot s of
             Some err \<Rightarrow> Inl err
           | None \<Rightarrow>
               (case map_of (mTxns m) (sID s) of
                  None \<Rightarrow> Inr (put_txn (sID s) (transactionFromSnapshot s) m)
                | Some current \<Rightarrow>
                    if snapshotIsNewer current s then Inr (put_txn (sID s) (transactionFromSnapshot s) m)
                    else if snapshotsEqual current s then Inr m
                    else if committedSnapshotSucceeds current s then Inr m
                    else Inl StaleSnapshot)))"

subsection \<open>Topic deletion\<close>

definition transactionReferencesTopic :: "snapshot \<Rightarrow> string \<Rightarrow> bool" where
  "transactionReferencesTopic s topicName \<longleftrightarrow>
     list_ex (\<lambda>op. moTopic op = topicName) (sMessages s) \<or> list_ex (\<lambda>op. ooTopic op = topicName) (sOffsets s)"

definition filterTopicMessages :: "messageOperation list \<Rightarrow> string \<Rightarrow> messageOperation list" where
  "filterTopicMessages ops topicName = filter (\<lambda>op. moTopic op \<noteq> topicName) ops"

definition filterTopicOffsets :: "offsetOperation list \<Rightarrow> string \<Rightarrow> offsetOperation list" where
  "filterTopicOffsets ops topicName = filter (\<lambda>op. ooTopic op \<noteq> topicName) ops"

fun topicReferencesLoop ::
  "string \<Rightarrow> (string, transaction) gomap \<Rightarrow> (string, snapshot) gomap \<times> string list \<times> string list" where
  "topicReferencesLoop topicName [] = ([], [], [])"
| "topicReferencesLoop topicName ((tid, tx) # rest) =
     (let (next, affected, active) = topicReferencesLoop topicName rest; s = snapshot_of tx in
      if \<not> transactionReferencesTopic s topicName then ((tid, s) # next, affected, active)
      else if \<not> tExpired tx \<and> (tState tx = StateOpen \<or> tState tx = StateCommitting)
      then ((tid, s) # next, affected, tid # active)
      else ((tid, s\<lparr>sMessages := filterTopicMessages (sMessages s) topicName,
                   sOffsets := filterTopicOffsets (sOffsets s) topicName\<rparr>) # next,
            tid # affected, active))"

definition stateWithoutTopicReferences ::
  "(string, transaction) gomap \<Rightarrow> string \<Rightarrow> txn_error + ((string, snapshot) gomap \<times> string list)" where
  "stateWithoutTopicReferences current topicName =
     (let (next, affected, active) = topicReferencesLoop topicName current in
      if active \<noteq> [] then Inl (TopicReferenced (sort active))
      else Inr (next, sort affected))"

definition PruneTopicReferences :: "string \<Rightarrow> manager \<Rightarrow> txn_error + (string list \<times> manager)" where
  "PruneTopicReferences topicName m =
     (case stateWithoutTopicReferences (mTxns m) topicName of
        Inl err \<Rightarrow> Inl err
      | Inr (state, affected) \<Rightarrow> Inr (affected, m\<lparr>mTxns := mvals transactionFromSnapshot state\<rparr>))"

subsection \<open>Well-formed managers\<close>

text \<open>
  A transaction is ready only before it begins, an expired one is a tombstone of a finished
  transaction, and the offsets of one transaction belong to one consumer and name a partition once.
\<close>

definition offsets_wf :: "offsetOperation list \<Rightarrow> bool" where
  "offsets_wf ops \<longleftrightarrow>
     (\<forall>a \<in> set ops. \<forall>b \<in> set ops. same_scope a b) \<and> distinct (map ooPartition ops)"

definition txn_wf :: "transaction \<Rightarrow> bool" where
  "txn_wf tx \<longleftrightarrow>
     tProducer tx \<noteq> [] \<and> tState tx \<in> {StateOpen, StateCommitting, StateCommitted, StateAborted} \<and>
     (tReady tx \<longrightarrow> tState tx = StateAborted \<and> \<not> tExpired tx \<and> tMessages tx = [] \<and> tOffsets tx = []) \<and>
     (tExpired tx \<longrightarrow> tState tx \<in> {StateCommitted, StateAborted} \<and> tMessages tx = [] \<and> tOffsets tx = []) \<and>
     offsets_wf (tOffsets tx)"

definition mgr_wf :: "manager \<Rightarrow> bool" where
  "mgr_wf m \<longleftrightarrow>
     mwf (mTxns m) \<and> mExpiration m > 0 \<and>
     (\<forall>(tid, tx) \<in> set (mTxns m). tid \<noteq> [] \<and> tID tx = tid \<and> txn_wf tx)"

lemma state_distinct [simp]:
  "StateOpen \<noteq> StateCommitting" "StateOpen \<noteq> StateCommitted" "StateOpen \<noteq> StateAborted"
  "StateCommitting \<noteq> StateOpen" "StateCommitting \<noteq> StateCommitted" "StateCommitting \<noteq> StateAborted"
  "StateCommitted \<noteq> StateOpen" "StateCommitted \<noteq> StateCommitting" "StateCommitted \<noteq> StateAborted"
  "StateAborted \<noteq> StateOpen" "StateAborted \<noteq> StateCommitting" "StateAborted \<noteq> StateCommitted"
  by (simp_all add: state_defs)

lemma put_txn_simps [simp]:
  "map_of (mTxns (put_txn tid tx m)) = (map_of (mTxns m))(tid \<mapsto> tx)"
  "mExpiration (put_txn tid tx m) = mExpiration m"
  by (simp_all add: put_txn_def)

lemma snapshot_round_trip [simp]: "transactionFromSnapshot (snapshot_of tx) = tx"
  by (simp add: transactionFromSnapshot_def snapshot_of_def)

lemma snapshot_of_transaction [simp]: "snapshot_of (transactionFromSnapshot s) = s"
  by (simp add: transactionFromSnapshot_def snapshot_of_def)

lemma mgr_wf_lookup:
  "mgr_wf m \<Longrightarrow> map_of (mTxns m) tid = Some tx \<Longrightarrow> tid \<noteq> [] \<and> tID tx = tid \<and> txn_wf tx"
  by (auto simp: mgr_wf_def dest!: map_of_SomeD)

lemma mgr_wf_iff:
  "mgr_wf m \<longleftrightarrow>
     mwf (mTxns m) \<and> mExpiration m > 0 \<and>
     (\<forall>tid tx. map_of (mTxns m) tid = Some tx \<longrightarrow> tid \<noteq> [] \<and> tID tx = tid \<and> txn_wf tx)"
proof (cases "mwf (mTxns m)")
  case True
  then show ?thesis
    by (simp add: mgr_wf_def split_paired_Ball_Sigma mwf_in_set [OF True, symmetric]) blast
qed (simp add: mgr_wf_def)

lemma mgr_wf_put:
  "mgr_wf m \<Longrightarrow> tid \<noteq> [] \<Longrightarrow> tID tx = tid \<Longrightarrow> txn_wf tx \<Longrightarrow> mgr_wf (put_txn tid tx m)"
  by (auto simp: mgr_wf_iff put_txn_def)

lemma NewManager_wf: "mgr_wf (NewManagerWithExpiration d)"
  by (simp add: mgr_wf_def NewManagerWithExpiration_def defaultExpiration_def)

lemma producerID_nonempty [simp]: "producerIDForTransactionalID tid \<noteq> []"
  by (simp add: producerIDForTransactionalID_def)

subsection \<open>What each operation changes\<close>

lemma expire_cases:
  obtains "fst (expireTransactionLocked tx cutoff now) = tx"
  | "fst (expireTransactionLocked tx cutoff now) =
       tx\<lparr>tMessages := [], tOffsets := [], tReady := False, tExpired := True,
          tRevision := tRevision tx + 1, tUpdatedAt := now\<rparr>"
    and "\<not> tExpired tx" "tUpdatedAt tx < cutoff" "tState tx \<in> {StateCommitted, StateAborted}"
proof (cases "tExpired tx \<or> \<not> tUpdatedAt tx < cutoff \<or> tState tx \<notin> {StateCommitted, StateAborted}")
  case True
  then show thesis
    by (intro that(1)) (auto simp: expireTransactionLocked_def)
next
  case False
  then show thesis
    by (intro that(2)) (auto simp: expireTransactionLocked_def)
qed

lemma expire_keeps [simp]:
  "tID (fst (expireTransactionLocked tx cutoff now)) = tID tx"
  "tEpoch (fst (expireTransactionLocked tx cutoff now)) = tEpoch tx"
  "tProducer (fst (expireTransactionLocked tx cutoff now)) = tProducer tx"
  "tState (fst (expireTransactionLocked tx cutoff now)) = tState tx"
  by (simp_all add: expireTransactionLocked_def)

lemma expire_wf: "txn_wf tx \<Longrightarrow> txn_wf (fst (expireTransactionLocked tx cutoff now))"
  by (rule expire_cases [of tx cutoff now]) (auto simp: txn_wf_def offsets_wf_def)

lemma InitProducer_Inr:
  assumes "InitProducer now tid m = Inr (p, e, m')"
  obtains r where "tid \<noteq> []"
    and "m' = put_txn tid \<lparr>tID = tid, tProducer = p, tEpoch = e, tRevision = r, tReady = True, tExpired = False,
                 tState = StateAborted, tMessages = [], tOffsets = [], tCreatedAt = now, tUpdatedAt = now\<rparr> m"
    and "p \<noteq> []"
    and "map_of (mTxns m) tid = None \<Longrightarrow> e = 0 \<and> r = 1"
    and "\<And>tx. map_of (mTxns m) tid = Some tx \<Longrightarrow> e = tEpoch tx + 1 \<and>
           (r = tRevision tx + 1 \<or> r = tRevision tx + 2) \<and> tState tx \<noteq> StateCommitting"
proof (cases "map_of (mTxns m) tid")
  case None
  then show thesis
    using assms that by (auto simp: InitProducer_def Let_def split: if_splits)
next
  case (Some tx)
  let ?tx = "fst (expireTransactionLocked tx (now - mExpiration m) now)"
  have "tRevision ?tx = tRevision tx \<or> tRevision ?tx = tRevision tx + 1"
    by (rule expire_cases [of tx "now - mExpiration m" now]) simp_all
  then have r: "tRevision ?tx + 1 = tRevision tx + 1 \<or> tRevision ?tx + 1 = tRevision tx + 2"
    by auto
  show thesis
    by (rule that [of "tRevision ?tx + 1"])
      (use assms Some r in \<open>auto simp: InitProducer_def Let_def split: if_splits\<close>)
qed

lemma Begin_Inr:
  assumes "Begin now tid producer epoch m = Inr m'"
  obtains tx where "map_of (mTxns m) tid = Some tx" "tReady tx" "\<not> tExpired tx" "tEpoch tx = epoch"
    "tid \<noteq> []" "producer \<noteq> []"
    "m' = put_txn tid \<lparr>tID = tid, tProducer = producer, tEpoch = epoch, tRevision = tRevision tx + 1,
            tReady = False, tExpired = False, tState = StateOpen, tMessages = [], tOffsets = [],
            tCreatedAt = now, tUpdatedAt = now\<rparr> m"
proof -
  from assms obtain tx where tx: "map_of (mTxns m) tid = Some tx" "tReady tx" "\<not> tExpired tx"
    "\<not> sint epoch < sint (tEpoch tx)" "\<not> sint (tEpoch tx) < sint epoch" "tid \<noteq> []" "producer \<noteq> []"
    "m' = put_txn tid \<lparr>tID = tid, tProducer = producer, tEpoch = epoch, tRevision = tRevision tx + 1,
            tReady = False, tExpired = False, tState = StateOpen, tMessages = [], tOffsets = [],
            tCreatedAt = now, tUpdatedAt = now\<rparr> m"
    by (auto simp: Begin_def split: if_splits option.splits)
  then have "sint (tEpoch tx) = sint epoch"
    by linarith
  then have "tEpoch tx = epoch"
    by (rule signed_word_eqI)
  with tx that show thesis by blast
qed

lemma validateOwner_None:
  "validateOwner tx producer epoch = None \<longleftrightarrow>
     \<not> tExpired tx \<and> producer \<noteq> [] \<and> tProducer tx = producer \<and> epoch = tEpoch tx"
  by (simp add: validateOwner_def)

lemma activeLocked_Inr:
  "activeLocked tid m = Inr tx \<longleftrightarrow> map_of (mTxns m) tid = Some tx \<and> tState tx = StateOpen"
  by (auto simp: activeLocked_def split: option.splits)

lemma AddMessage_Inr:
  assumes "AddMessage now tid producer epoch op m = Inr m'"
  obtains tx where "map_of (mTxns m) tid = Some tx" "tState tx = StateOpen" "\<not> tExpired tx" "epoch = tEpoch tx"
    "tProducer tx = producer"
    "m' = put_txn tid (tx\<lparr>tMessages := tMessages tx @ [op], tRevision := tRevision tx + 1, tUpdatedAt := now\<rparr>) m"
  using assms by (auto simp: AddMessage_def activeLocked_Inr validateOwner_None split: sum.splits option.splits)

lemma AddOffsets_cases:
  obtains err where "AddOffsets now tid producer epoch offsets m = (Some err, m)"
  | tx current finished where "map_of (mTxns m) tid = Some tx" "tState tx = StateOpen" "\<not> tExpired tx"
    "epoch = tEpoch tx" "tProducer tx = producer" "offsets \<noteq> []"
    "addOffsetsLoop offsets (tOffsets tx) = (current, finished)"
    "\<forall>op \<in> set offsets. same_scope op (hd (tOffsets tx @ offsets))"
    "AddOffsets now tid producer epoch offsets m =
       (if finished then (None, put_txn tid (tx\<lparr>tOffsets := current, tRevision := tRevision tx + 1, tUpdatedAt := now\<rparr>) m)
        else (Some OffsetRegression, put_txn tid (tx\<lparr>tOffsets := current\<rparr>) m))"
proof (cases "\<exists>err. AddOffsets now tid producer epoch offsets m = (Some err, m)")
  case True
  then show thesis using that(1) by blast
next
  case False
  then obtain first rest where offsets: "offsets = first # rest"
    by (cases offsets) (auto simp: AddOffsets_def)
  obtain tx where active: "activeLocked tid m = Inr tx"
    using False by (cases "activeLocked tid m") (auto simp: AddOffsets_def offsets)
  have owner: "validateOwner tx producer epoch = None"
    using False by (cases "validateOwner tx producer epoch") (auto simp: AddOffsets_def offsets active)
  have first: "(case tOffsets tx of [] \<Rightarrow> first | o0 # _ \<Rightarrow> o0) = hd (tOffsets tx @ offsets)"
    by (simp add: offsets split: list.splits)
  have scope: "\<forall>op \<in> set offsets. same_scope op (hd (tOffsets tx @ offsets))"
  proof (rule ccontr)
    assume "\<not> ?thesis"
    then have "AddOffsets now tid producer epoch offsets m = (Some OffsetScopeMismatch, m)"
      unfolding AddOffsets_def by (simp only: offsets list.case active sum.case owner option.case Let_def
          first [unfolded offsets] list_ex_iff) simp
    with False show False by blast
  qed
  obtain current finished where loop: "addOffsetsLoop offsets (tOffsets tx) = (current, finished)"
    by (cases "addOffsetsLoop offsets (tOffsets tx)")
  have "AddOffsets now tid producer epoch offsets m =
       (if finished then (None, put_txn tid (tx\<lparr>tOffsets := current, tRevision := tRevision tx + 1, tUpdatedAt := now\<rparr>) m)
        else (Some OffsetRegression, put_txn tid (tx\<lparr>tOffsets := current\<rparr>) m))"
    using scope loop unfolding AddOffsets_def
    by (simp only: offsets list.case active sum.case owner option.case Let_def
        first [unfolded offsets] list_ex_iff) simp
  then show thesis
    using that(2) active owner scope loop offsets by (auto simp: activeLocked_Inr validateOwner_None)
qed

lemma PrepareCommit_Inr:
  assumes "PrepareCommit now tid producer epoch m = Inr (tx', m')"
  obtains tx where "map_of (mTxns m) tid = Some tx" "\<not> tExpired tx" "epoch = tEpoch tx" "tProducer tx = producer"
    "m' = m \<and> tx' = tx \<and> tState tx \<in> {StateCommitting, StateCommitted} \<or>
     tState tx = StateOpen \<and> m' = put_txn tid tx' m \<and>
     tx' = tx\<lparr>tState := StateCommitting, tRevision := tRevision tx + 1, tUpdatedAt := now\<rparr>"
  using assms
  by (auto simp: PrepareCommit_def validateOwner_None Let_def split: option.splits if_splits)

lemma Commit_Inr:
  assumes "Commit now tid m = Inr m'"
  obtains tx where "map_of (mTxns m) tid = Some tx" "tState tx = StateCommitting"
    "m' = put_txn tid (tx\<lparr>tState := StateCommitted, tRevision := tRevision tx + 1, tUpdatedAt := now\<rparr>) m"
  using assms by (auto simp: Commit_def split: option.splits if_splits)

lemma Abort_Inr:
  assumes "Abort now tid producer epoch m = Inr m'"
  obtains tx where "map_of (mTxns m) tid = Some tx" "\<not> tExpired tx" "epoch = tEpoch tx" "tProducer tx = producer"
    "m' = m \<and> tState tx = StateAborted \<or>
     tState tx \<notin> {StateCommitted, StateAborted, StateCommitting} \<and>
     m' = put_txn tid (tx\<lparr>tState := StateAborted, tMessages := [], tOffsets := [],
                         tRevision := tRevision tx + 1, tUpdatedAt := now\<rparr>) m"
  using assms by (auto simp: Abort_def validateOwner_None split: option.splits if_splits)

subsection \<open>Offsets of a transaction\<close>

lemma same_target_trans: "same_target a b \<Longrightarrow> same_target b c \<Longrightarrow> same_target a c"
  by (simp add: same_target_def)

lemma same_scope_trans: "same_scope a b \<Longrightarrow> same_scope c b \<Longrightarrow> same_scope a c"
  by (simp add: same_scope_def)

text \<open>\<open>covers xs ys\<close>: every target of \<open>ys\<close> is in \<open>xs\<close>, with an offset that is no smaller.\<close>

definition covers :: "offsetOperation list \<Rightarrow> offsetOperation list \<Rightarrow> bool" where
  "covers xs ys \<longleftrightarrow> (\<forall>y \<in> set ys. \<exists>x \<in> set xs. same_target x y \<and> ooOffset y \<le> ooOffset x)"

lemma covers_refl [simp]: "covers xs xs"
  by (auto simp: covers_def same_target_def)

lemma covers_trans: "covers xs ys \<Longrightarrow> covers ys zs \<Longrightarrow> covers xs zs"
  unfolding covers_def by (meson order_trans same_target_trans)

lemma upsertOffset_covers:
  "upsertOffset op current = Some current' \<Longrightarrow> covers current' current \<and> op \<in> set current'"
proof (induction op current arbitrary: current' rule: upsertOffset.induct)
  case (2 op cur rest)
  then show ?case
    by (auto simp: covers_def same_target_def split: if_splits)
qed (simp add: covers_def)

lemma addOffsetsLoop_covers:
  "addOffsetsLoop ops current = (current', finished) \<Longrightarrow>
   covers current' current \<and> (finished \<longrightarrow> covers current' ops)"
proof (induction ops arbitrary: current)
  case Nil
  then show ?case by (simp add: covers_def)
next
  case (Cons op ops)
  show ?case
  proof (cases "upsertOffset op current")
    case None
    then show ?thesis using Cons.prems by simp
  next
    case (Some nxt)
    then have loop: "addOffsetsLoop ops nxt = (current', finished)"
      using Cons.prems by simp
    have "covers current' nxt" "finished \<longrightarrow> covers current' ops"
      using Cons.IH [OF loop] by simp_all
    moreover have "covers nxt current" "op \<in> set nxt"
      using upsertOffset_covers [OF Some] by simp_all
    ultimately show ?thesis
      using covers_trans by (fastforce simp: covers_def)
  qed
qed

lemma upsertOffset_subset: "upsertOffset op current = Some current' \<Longrightarrow> set current' \<subseteq> insert op (set current)"
proof (induction op current arbitrary: current' rule: upsertOffset.induct)
  case (2 op cur rest)
  show ?case
  proof (cases "same_target cur op")
    case True
    then show ?thesis
      using "2.prems" by (auto split: if_splits)
  next
    case False
    then obtain tail where "upsertOffset op rest = Some tail" "current' = cur # tail"
      using "2.prems" by auto
    then show ?thesis
      using "2.IH" [OF False] by auto
  qed
qed auto

lemma upsertOffset_distinct:
  assumes "upsertOffset op current = Some current'" "distinct (map ooPartition current)"
    "\<forall>c \<in> set current. same_scope op c"
  shows "distinct (map ooPartition current')"
  using assms
proof (induction op current arbitrary: current' rule: upsertOffset.induct)
  case (2 op cur rest)
  show ?case
  proof (cases "same_target cur op")
    case True
    then have "current' = op # rest" "ooPartition cur = ooPartition op"
      using "2.prems"(1) by (simp_all add: same_target_def split: if_splits)
    then show ?thesis
      using "2.prems"(2) by simp
  next
    case False
    then obtain tail where tail: "upsertOffset op rest = Some tail" "current' = cur # tail"
      using "2.prems"(1) by auto
    have "ooPartition cur \<noteq> ooPartition op"
      using False "2.prems"(3) by (simp add: same_target_def same_scope_def)
    moreover have "ooPartition cur \<notin> ooPartition ` set rest"
      using "2.prems"(2) by simp
    ultimately have "ooPartition cur \<notin> ooPartition ` set tail"
      using upsertOffset_subset [OF tail(1)] by blast
    then show ?thesis
      using "2.IH" [OF False tail(1)] "2.prems"(2,3) tail(2) by simp
  qed
qed auto

lemma offsets_wf_scope:
  assumes "\<forall>a \<in> set ops. same_scope a scope" "distinct (map ooPartition ops)"
  shows "offsets_wf ops"
  using assms same_scope_trans unfolding offsets_wf_def by blast

lemma addOffsetsLoop_wf:
  "addOffsetsLoop ops current = (current', finished) \<Longrightarrow> distinct (map ooPartition current) \<Longrightarrow>
   \<forall>op \<in> set ops. same_scope op scope \<Longrightarrow> \<forall>c \<in> set current. same_scope c scope \<Longrightarrow> offsets_wf current'"
proof (induction ops arbitrary: current)
  case Nil
  then show ?case using offsets_wf_scope by simp
next
  case (Cons op ops)
  show ?case
  proof (cases "upsertOffset op current")
    case None
    then show ?thesis using Cons.prems offsets_wf_scope by simp
  next
    case (Some nxt)
    have "\<forall>c \<in> set current. same_scope op c"
      using Cons.prems(3,4) same_scope_trans by auto
    note step = upsertOffset_distinct [OF Some Cons.prems(2) this] upsertOffset_subset [OF Some]
    show ?thesis
    proof (rule Cons.IH)
      show "addOffsetsLoop ops nxt = (current', finished)"
        using Cons.prems(1) Some by simp
      show "\<forall>c \<in> set nxt. same_scope c scope"
        using step(2) Cons.prems(3,4) by auto
    qed (use step(1) Cons.prems(3) in auto)
  qed
qed

subsection \<open>Steps of the coordinator\<close>

text \<open>
  One step is one call of a client operation. The counters are bounded (an epoch takes \<open>2^63\<close> calls of
  \<open>InitProducer\<close> to wrap, a revision \<open>2^64\<close> updates), and the wall clock does not run backwards.
\<close>

definition counters_room :: "string \<Rightarrow> manager \<Rightarrow> bool" where
  "counters_room tid m \<longleftrightarrow>
     (case map_of (mTxns m) tid of
        None \<Rightarrow> True
      | Some tx \<Rightarrow> sint (tEpoch tx) < 2 ^ 63 - 1 \<and> unat (tRevision tx) + 2 < 2 ^ 64)"

definition clock_ok :: "instant \<Rightarrow> manager \<Rightarrow> bool" where
  "clock_ok now m \<longleftrightarrow> 0 < now \<and> (\<forall>(tid, tx) \<in> set (mTxns m). tUpdatedAt tx \<le> now)"

inductive coord_step :: "manager \<Rightarrow> manager \<Rightarrow> bool" where
  init: "InitProducer now tid m = Inr (p, e, m') \<Longrightarrow> counters_room tid m \<Longrightarrow> clock_ok now m \<Longrightarrow> coord_step m m'"
| start: "Begin now tid p e m = Inr m' \<Longrightarrow> counters_room tid m \<Longrightarrow> clock_ok now m \<Longrightarrow> coord_step m m'"
| message: "AddMessage now tid p e op m = Inr m' \<Longrightarrow> counters_room tid m \<Longrightarrow> clock_ok now m \<Longrightarrow> coord_step m m'"
| offsets: "AddOffsets now tid p e ops m = (err, m') \<Longrightarrow> counters_room tid m \<Longrightarrow> clock_ok now m \<Longrightarrow> coord_step m m'"
| prepare: "PrepareCommit now tid p e m = Inr (tx, m') \<Longrightarrow> counters_room tid m \<Longrightarrow> clock_ok now m \<Longrightarrow> coord_step m m'"
| commit: "Commit now tid m = Inr m' \<Longrightarrow> counters_room tid m \<Longrightarrow> clock_ok now m \<Longrightarrow> coord_step m m'"
| abort: "Abort now tid p e m = Inr m' \<Longrightarrow> counters_room tid m \<Longrightarrow> clock_ok now m \<Longrightarrow> coord_step m m'"

text \<open>A decided transaction: begun, and committed or aborted.\<close>

definition decided :: "transaction \<Rightarrow> bool" where
  "decided tx \<longleftrightarrow> \<not> tReady tx \<and> (tState tx = StateCommitted \<or> tState tx = StateAborted)"

text \<open>What \<open>validateSnapshot\<close> wants of the counters and timestamps.\<close>

definition durable :: "transaction \<Rightarrow> bool" where
  "durable tx \<longleftrightarrow> 0 \<le> sint (tEpoch tx) \<and> tRevision tx \<noteq> 0 \<and> 0 < tCreatedAt tx \<and> tCreatedAt tx \<le> tUpdatedAt tx"

definition mgr_durable :: "manager \<Rightarrow> bool" where
  "mgr_durable m \<longleftrightarrow> (\<forall>(tid, tx) \<in> set (mTxns m). durable tx)"

text \<open>How one step may replace the transaction of an identifier.\<close>

definition replaces :: "manager \<Rightarrow> string \<Rightarrow> transaction \<Rightarrow> bool" where
  "replaces m tid tx' \<longleftrightarrow>
     tid \<noteq> [] \<and> tID tx' = tid \<and> txn_wf tx' \<and>
     (case map_of (mTxns m) tid of
        None \<Rightarrow> True
      | Some tx \<Rightarrow> sint (tEpoch tx) < sint (tEpoch tx') \<or> tEpoch tx' = tEpoch tx \<and> \<not> decided tx) \<and>
     (mgr_durable m \<longrightarrow> durable tx')"

lemma durable_lookup: "mgr_durable m \<Longrightarrow> map_of (mTxns m) tid = Some tx \<Longrightarrow> durable tx"
  by (auto simp: mgr_durable_def dest!: map_of_SomeD)

lemma clock_lookup: "clock_ok now m \<Longrightarrow> map_of (mTxns m) tid = Some tx \<Longrightarrow> tUpdatedAt tx \<le> now"
  by (auto simp: clock_ok_def dest!: map_of_SomeD)

lemma sint_succ: "sint (e :: i64) < 2 ^ 63 - 1 \<Longrightarrow> sint (e + 1) = sint e + 1"
proof -
  assume "sint e < 2 ^ 63 - 1"
  moreover have "- (2 ^ 63) \<le> sint e"
    using sint_ge [of e] by simp
  ultimately show ?thesis
    by (simp add: signed_take_bit_int_eq_self sint_word_ariths(1))
qed

lemma revision_succ:
  assumes "unat (r :: u64) + 2 < 2 ^ 64"
  shows "r + 1 \<noteq> 0" "r + 2 \<noteq> 0"
  using assms by (auto simp: word_unat_eq_iff unat_word_ariths)

lemma counters_lookup:
  "counters_room tid m \<Longrightarrow> map_of (mTxns m) tid = Some tx \<Longrightarrow>
   sint (tEpoch tx + 1) = sint (tEpoch tx) + 1 \<and> tRevision tx + 1 \<noteq> 0 \<and> tRevision tx + 2 \<noteq> 0"
  using sint_succ revision_succ by (simp add: counters_room_def)

lemma replaces_same:
  assumes "mgr_wf m" "map_of (mTxns m) tid = Some tx" "\<not> decided tx" "counters_room tid m" "clock_ok now m"
    and "tID tx' = tID tx" "tEpoch tx' = tEpoch tx" "txn_wf tx'" "tCreatedAt tx' = tCreatedAt tx"
    and "tRevision tx' = tRevision tx + 1 \<and> tUpdatedAt tx' = now \<or>
         tRevision tx' = tRevision tx \<and> tUpdatedAt tx' = tUpdatedAt tx"
  shows "replaces m tid tx'"
proof -
  have "tid \<noteq> [] \<and> tID tx = tid"
    using mgr_wf_lookup [OF assms(1,2)] by simp
  moreover have "durable tx'" if "mgr_durable m"
    using durable_lookup [OF that assms(2)] counters_lookup [OF assms(4,2)] clock_lookup [OF assms(5,2)] assms(7,9,10)
    by (auto simp: durable_def)
  ultimately show ?thesis
    using assms(2,3,6-8) by (simp add: replaces_def)
qed

lemma InitProducer_replaces:
  assumes "InitProducer now tid m = Inr (p, e, m')" "counters_room tid m" "clock_ok now m"
  shows "\<exists>tx'. m' = put_txn tid tx' m \<and> replaces m tid tx'"
proof (rule InitProducer_Inr [OF assms(1)])
  fix r
  let ?tx = "\<lparr>tID = tid, tProducer = p, tEpoch = e, tRevision = r, tReady = True, tExpired = False,
     tState = StateAborted, tMessages = [], tOffsets = [], tCreatedAt = now, tUpdatedAt = now\<rparr>"
  assume r: "tid \<noteq> []" "p \<noteq> []"
    "map_of (mTxns m) tid = None \<Longrightarrow> e = 0 \<and> r = 1"
    "\<And>tx. map_of (mTxns m) tid = Some tx \<Longrightarrow>
       e = tEpoch tx + 1 \<and> (r = tRevision tx + 1 \<or> r = tRevision tx + 2) \<and> tState tx \<noteq> StateCommitting"
    and m': "m' = put_txn tid ?tx m"
  have "0 \<le> sint e \<and> r \<noteq> 0" if "mgr_durable m"
    using r(3,4) counters_lookup [OF assms(2)] durable_lookup [OF that]
    by (cases "map_of (mTxns m) tid") (auto simp: durable_def)
  moreover have "case map_of (mTxns m) tid of None \<Rightarrow> True
      | Some tx \<Rightarrow> sint (tEpoch tx) < sint e \<or> e = tEpoch tx \<and> \<not> decided tx"
    using r(4) counters_lookup [OF assms(2)] by (simp split: option.splits)
  ultimately have "replaces m tid ?tx"
    using r(1,2) assms(3)
    by (simp add: replaces_def txn_wf_def offsets_wf_def durable_def clock_ok_def split: option.splits)
  with m' show ?thesis by blast
qed

lemma Begin_replaces:
  assumes "Begin now tid p e m = Inr m'" "counters_room tid m" "clock_ok now m"
  shows "\<exists>tx'. m' = put_txn tid tx' m \<and> replaces m tid tx'"
proof (rule Begin_Inr [OF assms(1)])
  fix tx :: transaction
  let ?tx = "\<lparr>tID = tid, tProducer = p, tEpoch = e, tRevision = tRevision tx + 1, tReady = False, tExpired = False,
     tState = StateOpen, tMessages = [], tOffsets = [], tCreatedAt = now, tUpdatedAt = now\<rparr>"
  assume tx: "map_of (mTxns m) tid = Some tx" "tReady tx" "\<not> tExpired tx" "tEpoch tx = e" "tid \<noteq> []" "p \<noteq> []"
    and m': "m' = put_txn tid ?tx m"
  have "replaces m tid ?tx"
    using tx counters_lookup [OF assms(2) tx(1)] durable_lookup [OF _ tx(1)] assms(3)
    by (simp add: replaces_def txn_wf_def offsets_wf_def durable_def decided_def clock_ok_def)
  with m' show ?thesis by blast
qed

lemma AddMessage_replaces:
  assumes "mgr_wf m" "AddMessage now tid p e op m = Inr m'" "counters_room tid m" "clock_ok now m"
  shows "\<exists>tx'. m' = put_txn tid tx' m \<and> replaces m tid tx'"
proof (rule AddMessage_Inr [OF assms(2)])
  fix tx :: transaction
  let ?tx = "tx\<lparr>tMessages := tMessages tx @ [op], tRevision := tRevision tx + 1, tUpdatedAt := now\<rparr>"
  assume tx: "map_of (mTxns m) tid = Some tx" "tState tx = StateOpen" "\<not> tExpired tx"
    and m': "m' = put_txn tid ?tx m"
  have "txn_wf ?tx"
    using mgr_wf_lookup [OF assms(1) tx(1)] tx(2,3) by (simp add: txn_wf_def)
  then have "replaces m tid ?tx"
    using assms(1,3,4) tx by (intro replaces_same [of m tid tx now]) (simp_all add: decided_def)
  with m' show ?thesis by blast
qed

lemma AddOffsets_wf_offsets:
  assumes "txn_wf tx" "addOffsetsLoop offsets (tOffsets tx) = (current, finished)" "offsets \<noteq> []"
    "\<forall>op \<in> set offsets. same_scope op (hd (tOffsets tx @ offsets))"
  shows "offsets_wf current"
proof (rule addOffsetsLoop_wf [OF assms(2)])
  show "\<forall>op \<in> set offsets. same_scope op (hd (tOffsets tx @ offsets))"
    by (rule assms(4))
  show "distinct (map ooPartition (tOffsets tx))"
    using assms(1) by (simp add: txn_wf_def offsets_wf_def)
  show "\<forall>c \<in> set (tOffsets tx). same_scope c (hd (tOffsets tx @ offsets))"
    using assms(1) by (cases "tOffsets tx") (simp_all add: txn_wf_def offsets_wf_def)
qed

lemma AddOffsets_replaces:
  assumes "mgr_wf m" "AddOffsets now tid p e ops m = (err, m')" "counters_room tid m" "clock_ok now m"
  shows "m' = m \<or> (\<exists>tx'. m' = put_txn tid tx' m \<and> replaces m tid tx')"
proof (rule AddOffsets_cases [of now tid p e ops m])
  fix err'
  assume "AddOffsets now tid p e ops m = (Some err', m)"
  with assms(2) show ?thesis by simp
next
  fix tx current finished
  assume tx: "map_of (mTxns m) tid = Some tx" "tState tx = StateOpen" "\<not> tExpired tx"
    and loop: "ops \<noteq> []" "addOffsetsLoop ops (tOffsets tx) = (current, finished)"
      "\<forall>op \<in> set ops. same_scope op (hd (tOffsets tx @ ops))"
    and res: "AddOffsets now tid p e ops m =
       (if finished then (None, put_txn tid (tx\<lparr>tOffsets := current, tRevision := tRevision tx + 1, tUpdatedAt := now\<rparr>) m)
        else (Some OffsetRegression, put_txn tid (tx\<lparr>tOffsets := current\<rparr>) m))"
  have wf: "txn_wf tx"
    using mgr_wf_lookup [OF assms(1) tx(1)] by simp
  note current = AddOffsets_wf_offsets [OF wf loop(2,1,3)]
  have "txn_wf (tx\<lparr>tOffsets := current, tRevision := tRevision tx + 1, tUpdatedAt := now\<rparr>)"
    "txn_wf (tx\<lparr>tOffsets := current\<rparr>)"
    using wf tx(2,3) current by (simp_all add: txn_wf_def)
  then have "replaces m tid (tx\<lparr>tOffsets := current, tRevision := tRevision tx + 1, tUpdatedAt := now\<rparr>)"
    "replaces m tid (tx\<lparr>tOffsets := current\<rparr>)"
    using assms(1,3,4) tx by (auto intro!: replaces_same [of m tid tx now] simp: decided_def)
  then show ?thesis
    using assms(2) res by (auto split: if_splits)
qed

lemma PrepareCommit_replaces:
  assumes "mgr_wf m" "PrepareCommit now tid p e m = Inr (out, m')" "counters_room tid m" "clock_ok now m"
  shows "m' = m \<or> (\<exists>tx'. m' = put_txn tid tx' m \<and> replaces m tid tx')"
proof (rule PrepareCommit_Inr [OF assms(2)])
  fix tx
  assume tx: "map_of (mTxns m) tid = Some tx" "\<not> tExpired tx"
    and m': "m' = m \<and> out = tx \<and> tState tx \<in> {StateCommitting, StateCommitted} \<or>
     tState tx = StateOpen \<and> m' = put_txn tid out m \<and>
     out = tx\<lparr>tState := StateCommitting, tRevision := tRevision tx + 1, tUpdatedAt := now\<rparr>"
  have "replaces m tid out" if "tState tx = StateOpen"
    "out = tx\<lparr>tState := StateCommitting, tRevision := tRevision tx + 1, tUpdatedAt := now\<rparr>"
  proof (rule replaces_same [OF assms(1) tx(1) _ assms(3,4)])
    show "txn_wf out"
      using mgr_wf_lookup [OF assms(1) tx(1)] that tx(2) by (simp add: txn_wf_def)
  qed (simp_all add: that decided_def)
  with m' show ?thesis by blast
qed

lemma Commit_replaces:
  assumes "mgr_wf m" "Commit now tid m = Inr m'" "counters_room tid m" "clock_ok now m"
  shows "\<exists>tx'. m' = put_txn tid tx' m \<and> replaces m tid tx'"
proof (rule Commit_Inr [OF assms(2)])
  fix tx :: transaction
  let ?tx = "tx\<lparr>tState := StateCommitted, tRevision := tRevision tx + 1, tUpdatedAt := now\<rparr>"
  assume tx: "map_of (mTxns m) tid = Some tx" "tState tx = StateCommitting" and m': "m' = put_txn tid ?tx m"
  have "replaces m tid ?tx"
  proof (rule replaces_same [OF assms(1) tx(1) _ assms(3,4)])
    show "txn_wf ?tx"
      using mgr_wf_lookup [OF assms(1) tx(1)] tx(2) by (auto simp: txn_wf_def)
  qed (simp_all add: tx decided_def)
  with m' show ?thesis by blast
qed

lemma Abort_replaces:
  assumes "mgr_wf m" "Abort now tid p e m = Inr m'" "counters_room tid m" "clock_ok now m"
  shows "m' = m \<or> (\<exists>tx'. m' = put_txn tid tx' m \<and> replaces m tid tx')"
proof (rule Abort_Inr [OF assms(2)])
  fix tx :: transaction
  let ?tx = "tx\<lparr>tState := StateAborted, tMessages := [], tOffsets := [], tRevision := tRevision tx + 1, tUpdatedAt := now\<rparr>"
  assume tx: "map_of (mTxns m) tid = Some tx" "\<not> tExpired tx"
    and m': "m' = m \<and> tState tx = StateAborted \<or>
      tState tx \<notin> {StateCommitted, StateAborted, StateCommitting} \<and> m' = put_txn tid ?tx m"
  have "replaces m tid ?tx" if open_tx: "tState tx \<notin> {StateCommitted, StateAborted, StateCommitting}"
  proof (rule replaces_same [OF assms(1) tx(1) _ assms(3,4)])
    show "txn_wf ?tx"
      using mgr_wf_lookup [OF assms(1) tx(1)] that tx(2) by (auto simp: txn_wf_def offsets_wf_def)
  qed (use open_tx in \<open>simp_all add: decided_def\<close>)
  with m' show ?thesis by blast
qed

lemma coord_step_replaces:
  assumes "coord_step m m'" "mgr_wf m"
  shows "m' = m \<or> (\<exists>tid tx'. m' = put_txn tid tx' m \<and> replaces m tid tx')"
  using assms
proof (induction rule: coord_step.induct)
  case (init now tid m p e m')
  then show ?case using InitProducer_replaces by blast
next
  case (start now tid p e m m')
  then show ?case using Begin_replaces by blast
next
  case (message now tid p e op m m')
  then show ?case using AddMessage_replaces by blast
next
  case (offsets now tid p e ops m err m')
  then show ?case using AddOffsets_replaces by blast
next
  case (prepare now tid p e m tx m')
  then show ?case using PrepareCommit_replaces by blast
next
  case (commit now tid m m')
  then show ?case using Commit_replaces by blast
next
  case (abort now tid p e m m')
  then show ?case using Abort_replaces by blast
qed

subsection \<open>Maintenance operations\<close>

definition pruned :: "instant \<Rightarrow> instant \<Rightarrow> transaction \<Rightarrow> transaction option" where
  "pruned cutoff now tx =
     (if tExpired tx then (if tUpdatedAt tx < cutoff then None else Some tx)
      else Some (fst (expireTransactionLocked tx cutoff now)))"

lemma pruneLoop_fst:
  "fst (pruneLoop cutoff now M) =
     List.map_filter (\<lambda>(tid, tx). map_option (Pair tid) (pruned cutoff now tx)) M"
  by (induction cutoff now M rule: pruneLoop.induct)
    (auto simp: pruned_def map_filter_simps Let_def split: prod.splits)

lemma map_filter_keys:
  "set (map fst (List.map_filter (\<lambda>(k, v). map_option (Pair k) (f v)) M)) \<subseteq> set (map fst M)"
  by (induction M) (auto simp: map_filter_simps split: option.splits)

lemma map_filter_mwf: "mwf M \<Longrightarrow> mwf (List.map_filter (\<lambda>(k, v). map_option (Pair k) (f v)) M)"
proof (induction M)
  case (Cons kv M)
  then show ?case
    using map_filter_keys [of f M] by (cases kv) (auto simp: mwf_def map_filter_simps split: option.splits)
qed (simp add: map_filter_simps)

lemma map_filter_lookup:
  "mwf M \<Longrightarrow> map_of (List.map_filter (\<lambda>(k, v). map_option (Pair k) (f v)) M) k = Option.bind (map_of M k) f"
proof (induction M)
  case (Cons kv M)
  obtain k' v where kv: "kv = (k', v)" by (cases kv)
  have "k' \<notin> set (map fst M)"
    using Cons.prems by (simp add: mwf_def kv)
  then have "map_of (List.map_filter (\<lambda>(k, v). map_option (Pair k) (f v)) M) k' = None"
    using map_filter_keys [of f M] by (auto simp: map_of_eq_None_iff)
  then show ?case
    using Cons by (auto simp: kv mwf_def map_filter_simps split: option.splits)
qed (simp add: map_filter_simps)

lemma PruneExpired_lookup:
  assumes "mgr_wf m" "PruneExpired now m = (m', n)"
  shows "map_of (mTxns m') tid = Option.bind (map_of (mTxns m) tid) (pruned (now - mExpiration m) now)"
    and "mwf (mTxns m')" "mExpiration m' = mExpiration m"
proof -
  have "0 < mExpiration m" and wf: "mwf (mTxns m)"
    using assms(1) by (simp_all add: mgr_wf_def)
  then have m': "m' = m\<lparr>mTxns := fst (pruneLoop (now - mExpiration m) now (mTxns m))\<rparr>"
    using assms(2) by (auto simp: PruneExpired_def split: prod.splits)
  show "map_of (mTxns m') tid = Option.bind (map_of (mTxns m) tid) (pruned (now - mExpiration m) now)"
    and "mwf (mTxns m')" "mExpiration m' = mExpiration m"
    by (simp_all add: m' pruneLoop_fst map_filter_mwf [OF wf] map_filter_lookup [OF wf])
qed

text \<open>What topic deletion leaves of one transaction.\<close>

definition references :: "string \<Rightarrow> transaction \<Rightarrow> bool" where
  "references topicName tx \<longleftrightarrow>
     (\<exists>op \<in> set (tMessages tx). moTopic op = topicName) \<or> (\<exists>op \<in> set (tOffsets tx). ooTopic op = topicName)"

definition active :: "transaction \<Rightarrow> bool" where
  "active tx \<longleftrightarrow> \<not> tExpired tx \<and> (tState tx = StateOpen \<or> tState tx = StateCommitting)"

definition scrubbed :: "string \<Rightarrow> transaction \<Rightarrow> transaction" where
  "scrubbed topicName tx =
     tx\<lparr>tMessages := filter (\<lambda>op. moTopic op \<noteq> topicName) (tMessages tx),
        tOffsets := filter (\<lambda>op. ooTopic op \<noteq> topicName) (tOffsets tx)\<rparr>"

lemma references_snapshot: "transactionReferencesTopic (snapshot_of tx) topicName = references topicName tx"
  by (simp add: transactionReferencesTopic_def snapshot_of_def references_def list_ex_iff)

lemma scrubbed_unreferenced: "\<not> references topicName tx \<Longrightarrow> scrubbed topicName tx = tx"
proof -
  assume "\<not> references topicName tx"
  then have "filter (\<lambda>op. moTopic op \<noteq> topicName) (tMessages tx) = tMessages tx"
    "filter (\<lambda>op. ooTopic op \<noteq> topicName) (tOffsets tx) = tOffsets tx"
    by (auto simp: references_def filter_id_conv)
  then show ?thesis by (simp add: scrubbed_def)
qed

lemma topicReferencesLoop_result:
  "topicReferencesLoop topicName M =
     (mvals (\<lambda>tx. snapshot_of (if active tx then tx else scrubbed topicName tx)) M,
      map fst (filter (\<lambda>(tid, tx). references topicName tx \<and> \<not> active tx) M),
      map fst (filter (\<lambda>(tid, tx). references topicName tx \<and> active tx) M))"
proof (induction topicName M rule: topicReferencesLoop.induct)
  case (2 topicName tid tx rest)
  have "(snapshot_of tx)\<lparr>sMessages := filterTopicMessages (sMessages (snapshot_of tx)) topicName,
          sOffsets := filterTopicOffsets (sOffsets (snapshot_of tx)) topicName\<rparr> = snapshot_of (scrubbed topicName tx)"
    by (simp add: snapshot_of_def scrubbed_def filterTopicMessages_def filterTopicOffsets_def)
  then show ?case
    using "2.IH" scrubbed_unreferenced [of topicName tx]
    by (simp add: references_snapshot mvals_def active_def Let_def)
qed (simp add: mvals_def)

lemma mvals_mvals: "mvals f (mvals g m) = mvals (\<lambda>v. f (g v)) m"
  by (simp add: mvals_def case_prod_beta')

lemma PruneTopicReferences_result:
  "PruneTopicReferences topicName m =
     (if \<exists>(tid, tx) \<in> set (mTxns m). references topicName tx \<and> active tx
      then Inl (TopicReferenced (sort (map fst (filter (\<lambda>(tid, tx). references topicName tx \<and> active tx) (mTxns m)))))
      else Inr (sort (map fst (filter (\<lambda>(tid, tx). references topicName tx \<and> \<not> active tx) (mTxns m))),
                m\<lparr>mTxns := mvals (\<lambda>tx. if active tx then tx else scrubbed topicName tx) (mTxns m)\<rparr>))"
  by (auto simp: PruneTopicReferences_def stateWithoutTopicReferences_def topicReferencesLoop_result mvals_mvals
      filter_empty_conv)

lemma scrubbed_wf: "txn_wf tx \<Longrightarrow> txn_wf (scrubbed topicName tx)"
  by (auto simp: txn_wf_def scrubbed_def offsets_wf_def distinct_map inj_on_def)

lemma ApplyReplicated_Inr:
  assumes "ApplyReplicatedSnapshot (Some s) m = Inr m'"
  shows "validateSnapshot s = None"
    and "m' = m \<or> m' = put_txn (sID s) (transactionFromSnapshot s) m"
  using assms by (auto simp: ApplyReplicatedSnapshot_def split: option.splits if_splits)

lemma validateSnapshot_None:
  "validateSnapshot s = None \<longleftrightarrow>
     sID s \<noteq> [] \<and> sProducer s \<noteq> [] \<and> 0 \<le> sint (sEpoch s) \<and> sRevision s \<noteq> 0 \<and>
     sState s \<in> {StateOpen, StateCommitting, StateCommitted, StateAborted} \<and>
     sCreatedAt s \<noteq> 0 \<and> sUpdatedAt s \<noteq> 0 \<and> sCreatedAt s \<le> sUpdatedAt s"
  by (auto simp: validateSnapshot_def not_less)

subsection \<open>Reachable managers\<close>

text \<open>Every way the table changes: the client operations and the maintenance and replication paths. A
  replicated or restored snapshot is the snapshot of a well-formed transaction of another replica.\<close>

inductive txn_step :: "manager \<Rightarrow> manager \<Rightarrow> bool" where
  coordinate: "coord_step m m' \<Longrightarrow> txn_step m m'"
| prune: "PruneExpired now m = (m', n) \<Longrightarrow> clock_ok now m \<Longrightarrow>
    (\<forall>tid. counters_room tid m) \<Longrightarrow> txn_step m m'"
| delete_topic: "PruneTopicReferences topicName m = Inr (affected, m') \<Longrightarrow> txn_step m m'"
| replicate: "ApplyReplicatedSnapshot (Some s) m = Inr m' \<Longrightarrow> txn_wf (transactionFromSnapshot s) \<Longrightarrow>
    0 < sCreatedAt s \<Longrightarrow> txn_step m m'"
| remove: "txn_step m (Delete tid m)"

lemma mgr_durable_iff:
  "mwf (mTxns m) \<Longrightarrow> mgr_durable m \<longleftrightarrow> (\<forall>tid tx. map_of (mTxns m) tid = Some tx \<longrightarrow> durable tx)"
  by (simp add: mgr_durable_def mwf_in_set [symmetric]) blast

lemma mgr_durable_put: "mgr_wf m \<Longrightarrow> mgr_durable m \<Longrightarrow> durable tx \<Longrightarrow> mgr_durable (put_txn tid tx m)"
  by (auto simp: mgr_wf_def put_txn_def mgr_durable_iff)

lemma pruned_wf: "txn_wf tx \<Longrightarrow> pruned cutoff now tx = Some tx' \<Longrightarrow> txn_wf tx' \<and> tID tx' = tID tx"
  using expire_wf by (auto simp: pruned_def split: if_splits)

lemma pruned_durable:
  assumes "durable tx" "tUpdatedAt tx \<le> now" "tRevision tx + 1 \<noteq> 0" "pruned cutoff now tx = Some tx'"
  shows "durable tx'"
proof -
  have "durable (fst (expireTransactionLocked tx cutoff now))"
    using assms(1-3) by (auto simp: expireTransactionLocked_def durable_def)
  then show ?thesis
    using assms(1,4) by (auto simp: pruned_def split: if_splits)
qed

lemma txn_step_wf:
  assumes "txn_step m m'" "mgr_wf m" "mgr_durable m"
  shows "mgr_wf m' \<and> mgr_durable m'"
  using assms
proof (induction rule: txn_step.induct)
  case (coordinate m m')
  then show ?case
    using coord_step_replaces [of m m'] mgr_wf_put mgr_durable_put by (auto simp: replaces_def)
next
  case (prune now m m' n)
  note look = PruneExpired_lookup [OF prune(4,1)]
  have "tid \<noteq> [] \<and> tID tx' = tid \<and> txn_wf tx' \<and> durable tx'" if tx': "map_of (mTxns m') tid = Some tx'" for tid tx'
  proof -
    obtain tx where tx: "map_of (mTxns m) tid = Some tx" "pruned (now - mExpiration m) now tx = Some tx'"
      using tx' look(1) by (auto simp: bind_eq_Some_conv)
    have "tid \<noteq> [] \<and> tID tx = tid \<and> txn_wf tx"
      using mgr_wf_lookup [OF prune(4) tx(1)] .
    moreover have "durable tx'"
      using pruned_durable [OF durable_lookup [OF prune(5) tx(1)] clock_lookup [OF prune(2) tx(1)] _ tx(2)]
        counters_lookup [OF _ tx(1)] prune(3) by blast
    ultimately show ?thesis
      using pruned_wf [OF _ tx(2)] by blast
  qed
  then show ?case
    using look(2,3) prune(4) by (simp add: mgr_wf_iff mgr_durable_iff)
next
  case (delete_topic topicName m affected m')
  then have m': "m' = m\<lparr>mTxns := mvals (\<lambda>tx. if active tx then tx else scrubbed topicName tx) (mTxns m)\<rparr>"
    by (simp add: PruneTopicReferences_result split: if_splits)
  have "tID (scrubbed topicName tx) = tID tx" "durable (scrubbed topicName tx) = durable tx" for tx
    by (simp_all add: scrubbed_def durable_def)
  then show ?case
    using delete_topic(2,3) scrubbed_wf
    by (auto simp: m' mgr_wf_iff mgr_durable_iff)
next
  case (replicate s m m')
  note inr = ApplyReplicated_Inr [OF replicate(1)]
  have "durable (transactionFromSnapshot s)" "sID s \<noteq> []"
    using inr(1) replicate(3) by (auto simp: validateSnapshot_None durable_def transactionFromSnapshot_def)
  then show ?case
    using inr(2) replicate(2,4,5) mgr_wf_put mgr_durable_put by (auto simp: transactionFromSnapshot_def)
next
  case (remove m tid)
  then show ?case
    by (auto simp: Delete_def mgr_wf_iff mgr_durable_iff split: if_splits)
qed

lemma txn_reachable_wf:
  "txn_step\<^sup>*\<^sup>* m m' \<Longrightarrow> mgr_wf m \<Longrightarrow> mgr_durable m \<Longrightarrow> mgr_wf m' \<and> mgr_durable m'"
  by (induction rule: rtranclp_induct) (use txn_step_wf in blast)+

lemma coord_steps_txn: "coord_step\<^sup>*\<^sup>* m m' \<Longrightarrow> txn_step\<^sup>*\<^sup>* m m'"
  by (induction rule: rtranclp_induct) (auto intro: rtranclp.rtrancl_into_rtrancl txn_step.coordinate)

lemma NewManager_durable: "mgr_durable (NewManagerWithExpiration d)"
  by (simp add: mgr_durable_def NewManagerWithExpiration_def)

text \<open>One step keeps a decided transaction as it is, or fences it with a higher epoch.\<close>

lemma coord_step_lookup:
  assumes "coord_step m m'" "mgr_wf m" "map_of (mTxns m) tid = Some tx"
  shows "\<exists>tx'. map_of (mTxns m') tid = Some tx' \<and>
    (sint (tEpoch tx) < sint (tEpoch tx') \<or> tEpoch tx' = tEpoch tx \<and> (decided tx \<longrightarrow> tx' = tx))"
  using coord_step_replaces [OF assms(1,2)] assms(3) by (auto simp: replaces_def)

lemma coord_steps_lookup:
  assumes "coord_step\<^sup>*\<^sup>* m m'" "mgr_wf m" "mgr_durable m" "map_of (mTxns m) tid = Some tx"
  shows "\<exists>tx'. map_of (mTxns m') tid = Some tx' \<and>
    (sint (tEpoch tx) < sint (tEpoch tx') \<or> tEpoch tx' = tEpoch tx \<and> (decided tx \<longrightarrow> tx' = tx))"
  using assms(1)
proof (induction rule: rtranclp_induct)
  case base
  then show ?case using assms(4) by simp
next
  case (step m1 m2)
  then obtain tx1 where tx1: "map_of (mTxns m1) tid = Some tx1"
    "sint (tEpoch tx) < sint (tEpoch tx1) \<or> tEpoch tx1 = tEpoch tx \<and> (decided tx \<longrightarrow> tx1 = tx)"
    by blast
  have "mgr_wf m1"
    using txn_reachable_wf [OF coord_steps_txn [OF step(1)] assms(2,3)] by simp
  from coord_step_lookup [OF step(2) this tx1(1)] obtain tx2 where "map_of (mTxns m2) tid = Some tx2"
    "sint (tEpoch tx1) < sint (tEpoch tx2) \<or> tEpoch tx2 = tEpoch tx1 \<and> (decided tx1 \<longrightarrow> tx2 = tx1)"
    by blast
  with tx1(2) show ?case
    by (intro exI [of _ tx2]) auto
qed

subsection \<open>Properties of the coordinator\<close>

text \<open>C16: every manager reachable from a new one by client operations, expiration, topic deletion,
  replicated snapshots and removals is well formed: identifiers match their keys, a ready transaction
  is empty and aborted, an expired one is an emptied tombstone of a finished transaction, offsets belong to one
  consumer and name each partition once; and every entry passes the checks of \<open>validateSnapshot\<close>.\<close>

theorem txn_reachable_invariant:
  assumes "txn_step\<^sup>*\<^sup>* (NewManagerWithExpiration d) m"
  shows "mgr_wf m \<and> mgr_durable m"
  using txn_reachable_wf [OF assms NewManager_wf NewManager_durable] .

definition sample_init :: manager where
  "sample_init = put_txn ''tx'' \<lparr>tID = ''tx'', tProducer = producerIDForTransactionalID ''tx'', tEpoch = 0,
     tRevision = 1, tReady = True, tExpired = False, tState = StateAborted, tMessages = [], tOffsets = [],
     tCreatedAt = 5, tUpdatedAt = 5\<rparr> (NewManagerWithExpiration 100)"

lemma sample_InitProducer:
  "InitProducer 5 ''tx'' (NewManagerWithExpiration 100) = Inr (producerIDForTransactionalID ''tx'', 0, sample_init)"
  by (simp add: InitProducer_def NewManagerWithExpiration_def sample_init_def Let_def)

lemma sample_init_step: "coord_step (NewManagerWithExpiration 100) sample_init"
  using sample_InitProducer
  by (rule coord_step.init) (simp_all add: counters_room_def clock_ok_def NewManagerWithExpiration_def)

lemma sample_init_wf: "mgr_wf sample_init" "mgr_durable sample_init"
  using txn_step_wf [OF txn_step.coordinate [OF sample_init_step] NewManager_wf NewManager_durable] by simp_all

theorem txn_reachable_invariant_witness:
  "txn_step\<^sup>*\<^sup>* (NewManagerWithExpiration 100) sample_init \<and> mgr_wf sample_init"
proof -
  have run: "txn_step\<^sup>*\<^sup>* (NewManagerWithExpiration 100) sample_init"
    using sample_init_step by (blast intro: txn_step.coordinate)
  then show ?thesis
    using txn_reachable_invariant [OF run] by blast
qed


definition sample_reinit :: manager where
  "sample_reinit = put_txn ''tx'' \<lparr>tID = ''tx'', tProducer = producerIDForTransactionalID ''tx'', tEpoch = 1,
     tRevision = 2, tReady = True, tExpired = False, tState = StateAborted, tMessages = [], tOffsets = [],
     tCreatedAt = 6, tUpdatedAt = 6\<rparr> sample_init"

lemma sample_reinit: "InitProducer 6 ''tx'' sample_init = Inr (producerIDForTransactionalID ''tx'', 1, sample_reinit)"
  by (simp add: InitProducer_def sample_init_def sample_reinit_def Let_def expireTransactionLocked_def
      NewManagerWithExpiration_def)

lemma sample_reinit_room: "counters_room ''tx'' sample_init" "clock_ok 6 sample_init"
  by (simp_all add: counters_room_def clock_ok_def sample_init_def put_txn_def mput_def NewManagerWithExpiration_def)



definition sample_committed :: manager where
  "sample_committed = put_txn ''tx'' \<lparr>tID = ''tx'', tProducer = ''p'', tEpoch = 3, tRevision = 4, tReady = False,
     tExpired = False, tState = StateCommitted, tMessages = [], tOffsets = [], tCreatedAt = 5, tUpdatedAt = 5\<rparr>
     (NewManagerWithExpiration 100)"

lemma sample_committed_wf: "mgr_wf sample_committed" "mgr_durable sample_committed"
  by (simp_all add: sample_committed_def mgr_wf_def mgr_durable_def put_txn_def mput_def txn_wf_def offsets_wf_def
      durable_def NewManagerWithExpiration_def mwf_def)

lemma sample_committed_step: "\<exists>m'. coord_step sample_committed m'"
proof -
  have "\<exists>p e m'. InitProducer 8 ''tx'' sample_committed = Inr (p, e, m')"
    by (simp add: InitProducer_def sample_committed_def NewManagerWithExpiration_def expireTransactionLocked_def Let_def)
  moreover have "counters_room ''tx'' sample_committed" "clock_ok 8 sample_committed"
    by (simp_all add: counters_room_def clock_ok_def sample_committed_def put_txn_def mput_def
        NewManagerWithExpiration_def)
  ultimately show ?thesis
    using coord_step.init by blast
qed


text \<open>C36: \<open>AddOffsets\<close> never moves a recorded offset back. Whether it succeeds or fails, every target recorded
  before is still recorded with an offset at least as large, no other transaction changes, and after a
  success every requested target is recorded at no less than the requested offset.\<close>

theorem add_offsets_monotone:
  assumes "mgr_wf m" "map_of (mTxns m) tid = Some tx" "AddOffsets now tid p e ops m = (err, m')"
  shows "\<exists>tx'. map_of (mTxns m') tid = Some tx' \<and> covers (tOffsets tx') (tOffsets tx) \<and>
           (err = None \<longrightarrow> covers (tOffsets tx') ops) \<and>
           (\<forall>other. other \<noteq> tid \<longrightarrow> map_of (mTxns m') other = map_of (mTxns m) other)"
proof (rule AddOffsets_cases [of now tid p e ops m])
  fix err'
  assume "AddOffsets now tid p e ops m = (Some err', m)"
  then show ?thesis using assms(2,3) by simp
next
  fix tx1 current finished
  assume "map_of (mTxns m) tid = Some tx1"
    and loop: "addOffsetsLoop ops (tOffsets tx1) = (current, finished)"
    and res: "AddOffsets now tid p e ops m =
       (if finished then (None, put_txn tid (tx1\<lparr>tOffsets := current, tRevision := tRevision tx1 + 1, tUpdatedAt := now\<rparr>) m)
        else (Some OffsetRegression, put_txn tid (tx1\<lparr>tOffsets := current\<rparr>) m))"
  then have "tx1 = tx"
    using assms(2) by simp
  then show ?thesis
    using addOffsetsLoop_covers [OF loop] assms(3) res by (auto split: if_splits)
qed

definition sample_offset :: "i64 \<Rightarrow> u64 \<Rightarrow> offsetOperation" where
  "sample_offset part off = \<lparr>ooTopic = ''t'', ooGroup = ''g'', ooMember = ''c'', ooGeneration = 1,
     ooPartition = part, ooOffset = off\<rparr>"

definition sample_open_txn :: transaction where
  "sample_open_txn = \<lparr>tID = ''tx'', tProducer = ''p'', tEpoch = 0, tRevision = 3, tReady = False, tExpired = False,
     tState = StateOpen, tMessages = [], tOffsets = [sample_offset 1 5], tCreatedAt = 5, tUpdatedAt = 5\<rparr>"

definition sample_open :: manager where
  "sample_open = put_txn ''tx'' sample_open_txn (NewManagerWithExpiration 100)"

lemma sample_open_wf: "mgr_wf sample_open" "map_of (mTxns sample_open) ''tx'' = Some sample_open_txn"
  by (simp_all add: mgr_wf_def put_txn_def mput_def txn_wf_def offsets_wf_def same_scope_def mwf_def
      NewManagerWithExpiration_def sample_open_def sample_open_txn_def)

theorem add_offsets_monotone_witness:
  "\<exists>m' tx'. AddOffsets 9 ''tx'' ''p'' 0 [sample_offset 0 10, sample_offset 1 6] sample_open = (None, m') \<and>
     map_of (mTxns m') ''tx'' = Some tx' \<and> covers (tOffsets tx') [sample_offset 0 10, sample_offset 1 6]"
proof -
  have "\<exists>m'. AddOffsets 9 ''tx'' ''p'' 0 [sample_offset 0 10, sample_offset 1 6] sample_open = (None, m')"
    by (simp add: AddOffsets_def activeLocked_def validateOwner_def same_scope_def same_target_def Let_def
        sample_open_def sample_open_txn_def sample_offset_def)
  then obtain m' where m': "AddOffsets 9 ''tx'' ''p'' 0 [sample_offset 0 10, sample_offset 1 6] sample_open = (None, m')" ..
  from add_offsets_monotone [OF sample_open_wf m'] m' show ?thesis by blast
qed






end
