(* ===== verification/Txn_Replication.thy ===== *)
theory Txn_Replication
  imports Txn_Manager
begin

section \<open>Replication and recovery of transactions\<close>

text \<open>
  What \<open>ApplyReplicatedSnapshot\<close>, \<open>ExportState\<close>, \<open>ImportState\<close> and \<open>PruneTopicReferences\<close> of
  \<open>pkg/transaction\<close> promise to the replicas, the journal and the topic manager: convergence of
  replicas, no regression, a lossless export and a topic deletion that fails closed.
\<close>

subsection \<open>Replicated snapshots\<close>

text \<open>Applying snapshots in the order they arrive; a rejected one leaves the table as it is.\<close>

definition apply_snapshot :: "snapshot \<Rightarrow> manager \<Rightarrow> manager" where
  "apply_snapshot s m = (case ApplyReplicatedSnapshot (Some s) m of Inl _ \<Rightarrow> m | Inr m' \<Rightarrow> m')"

text \<open>The position of a snapshot in the history of its transaction.\<close>

definition snap_le :: "snapshot \<Rightarrow> snapshot \<Rightarrow> bool" where
  "snap_le a b \<longleftrightarrow>
     sint (sEpoch a) < sint (sEpoch b) \<or>
     sint (sEpoch a) = sint (sEpoch b) \<and> unat (sRevision a) \<le> unat (sRevision b)"

lemma snap_le_refl [simp]: "snap_le a a"
  by (simp add: snap_le_def)

lemma snap_le_trans: "snap_le a b \<Longrightarrow> snap_le b c \<Longrightarrow> snap_le a c"
  unfolding snap_le_def by linarith

lemma snap_le_total: "\<not> snap_le a b \<Longrightarrow> snap_le b a"
  unfolding snap_le_def by linarith

lemma snap_le_antisym:
  assumes "snap_le a b" "snap_le b a"
  shows "sEpoch a = sEpoch b" "sRevision a = sRevision b"
proof -
  have "sint (sEpoch a) = sint (sEpoch b)" "unat (sRevision a) = unat (sRevision b)"
    using assms unfolding snap_le_def by linarith+
  then show "sEpoch a = sEpoch b" "sRevision a = sRevision b"
    using signed_word_eqI unsigned_word_eqI by blast+
qed

lemma snapshotIsNewer_iff: "snapshotIsNewer current s \<longleftrightarrow> \<not> snap_le s (snapshot_of current)"
proof -
  have epoch: "sEpoch s = tEpoch current \<longleftrightarrow> sint (sEpoch s) = sint (tEpoch current)"
    using signed_word_eqI [of "sEpoch s" "tEpoch current"] by auto
  have revision: "sRevision s = tRevision current \<longleftrightarrow> unat (sRevision s) = unat (tRevision current)"
    using unsigned_word_eqI [of "sRevision s" "tRevision current"] by auto
  show ?thesis
    unfolding snapshotIsNewer_def snap_le_def snapshot_of_def epoch revision word_less_nat_alt snapshot.simps
    by (cases "sint (sEpoch s) = sint (tEpoch current)") auto
qed

text \<open>Two snapshots at one position of one transaction are the same.\<close>

definition coherent :: "snapshot set \<Rightarrow> bool" where
  "coherent S \<longleftrightarrow>
     (\<forall>a \<in> S. \<forall>b \<in> S. sID a = sID b \<and> sEpoch a = sEpoch b \<and> sRevision a = sRevision b \<longrightarrow> a = b)"

text \<open>The newer of what is held and what arrives.\<close>

definition pick :: "snapshot \<Rightarrow> snapshot option \<Rightarrow> snapshot option" where
  "pick s cur = (case cur of None \<Rightarrow> Some s | Some c \<Rightarrow> if snap_le s c then cur else Some s)"

lemma apply_snapshot_lookup:
  assumes "validateSnapshot s = None"
  shows "map_option snapshot_of (map_of (mTxns (apply_snapshot s m)) tid) =
     (if sID s = tid then pick s (map_option snapshot_of (map_of (mTxns m) tid))
      else map_option snapshot_of (map_of (mTxns m) tid))"
  using assms
  by (cases "map_of (mTxns m) (sID s)")
    (auto simp: apply_snapshot_def ApplyReplicatedSnapshot_def snapshotIsNewer_iff pick_def)

lemma apply_snapshots_lookup:
  assumes "\<forall>s \<in> set ss. validateSnapshot s = None"
  shows "map_option snapshot_of (map_of (mTxns (fold apply_snapshot ss m)) tid) =
     fold pick (filter (\<lambda>s. sID s = tid) ss) (map_option snapshot_of (map_of (mTxns m) tid))"
  using assms by (induction ss arbitrary: m) (simp_all add: apply_snapshot_lookup)

lemma fold_pick_newest:
  "\<exists>r. fold pick ss (Some c) = Some r \<and> r \<in> insert c (set ss) \<and> (\<forall>s \<in> insert c (set ss). snap_le s r)"
proof (induction ss arbitrary: c)
  case Nil
  then show ?case by simp
next
  case (Cons s ss)
  define c' where "c' = (if snap_le s c then c else s)"
  have c': "pick s (Some c) = Some c'" "c' \<in> {s, c}" "snap_le s c'" "snap_le c c'"
    using snap_le_total [of s c] by (simp_all add: c'_def pick_def)
  obtain r where r: "fold pick ss (Some c') = Some r" "r \<in> insert c' (set ss)"
    "\<forall>s \<in> insert c' (set ss). snap_le s r"
    using Cons.IH [of c'] by blast
  then have "snap_le s r" "snap_le c r"
    using c'(3,4) snap_le_trans by blast+
  then show ?case
    using r c'(1,2) by (intro exI [of _ r]) auto
qed

lemma fold_pick_set:
  assumes "set ss = set ss'" "\<forall>a \<in> set ss. \<forall>b \<in> set ss. snap_le a b \<and> snap_le b a \<longrightarrow> a = b"
  shows "fold pick ss None = fold pick ss' None"
proof (cases ss)
  case Nil
  then show ?thesis using assms(1) by simp
next
  case (Cons c rest)
  then obtain c' rest' where ss': "ss' = c' # rest'"
    using assms(1) by (cases ss') auto
  obtain r where r: "fold pick ss None = Some r" "r \<in> set ss" "\<forall>s \<in> set ss. snap_le s r"
    using fold_pick_newest [of rest c] by (auto simp: Cons pick_def)
  obtain r' where r': "fold pick ss' None = Some r'" "r' \<in> set ss'" "\<forall>s \<in> set ss'. snap_le s r'"
    using fold_pick_newest [of rest' c'] by (auto simp: ss' pick_def)
  have "r = r'"
    using assms r(2,3) r'(2,3) by blast
  then show ?thesis using r(1) r'(1) by simp
qed

lemma apply_snapshots_converge:
  assumes "coherent (set ss)" "\<forall>s \<in> set ss. validateSnapshot s = None" "set ss' = set ss" "mTxns m = []"
  shows "map_of (mTxns (fold apply_snapshot ss m)) tid = map_of (mTxns (fold apply_snapshot ss' m)) tid"
proof -
  let ?own = "filter (\<lambda>s. sID s = tid)"
  have "fold pick (?own ss) None = fold pick (?own ss') None"
  proof (rule fold_pick_set)
    show "set (?own ss) = set (?own ss')"
      using assms(3) by simp
    show "\<forall>a \<in> set (?own ss). \<forall>b \<in> set (?own ss). snap_le a b \<and> snap_le b a \<longrightarrow> a = b"
      using assms(1) snap_le_antisym by (auto simp: coherent_def)
  qed
  then have "map_option snapshot_of (map_of (mTxns (fold apply_snapshot ss m)) tid) =
      map_option snapshot_of (map_of (mTxns (fold apply_snapshot ss' m)) tid)"
    using assms(2-4) by (simp add: apply_snapshots_lookup)
  from arg_cong [OF this, of "map_option transactionFromSnapshot"] show ?thesis
    by (simp add: option.map_comp comp_def option.map_ident)
qed

lemma ValidateImportState_None:
  "ValidateImportState state = None \<longleftrightarrow>
     (\<forall>(tid, snap) \<in> set state. \<exists>s. snap = Some s \<and> sID s = tid \<and> validateSnapshot s = None)"
  by (induction state rule: ValidateImportState.induct) (auto split: option.splits)

lemma durable_valid:
  "txn_wf tx \<Longrightarrow> durable tx \<Longrightarrow> tID tx \<noteq> [] \<Longrightarrow> validateSnapshot (snapshot_of tx) = None"
  by (simp add: validateSnapshot_None snapshot_of_def txn_wf_def durable_def)

lemma ImportState_ExportState:
  assumes "mgr_wf m" "mgr_durable m"
  shows "ImportState (ExportState m) fresh = Inr (fresh\<lparr>mTxns := mTxns m\<rparr>)"
proof -
  have "ValidateImportState (ExportState m) = None"
    unfolding ValidateImportState_None
  proof (clarify)
    fix tid snap
    assume "(tid, snap) \<in> set (ExportState m)"
    then obtain tx where tx: "(tid, tx) \<in> set (mTxns m)" "snap = Some (snapshot_of tx)"
      by (auto simp: ExportState_def mvals_def)
    then have "tid \<noteq> []" "tID tx = tid" "txn_wf tx" "durable tx"
      using assms by (auto simp: mgr_wf_def mgr_durable_def)
    then show "\<exists>s. snap = Some s \<and> sID s = tid \<and> validateSnapshot s = None"
      using durable_valid tx(2) by (auto simp: snapshot_of_def)
  qed
  moreover have "mvals (\<lambda>tx. tx) M = M" for M :: "(string, transaction) gomap"
    by (simp add: mvals_def)
  ultimately show ?thesis
    by (simp add: ImportState_def ExportState_def mvals_mvals)
qed

subsection \<open>Properties of replication and recovery\<close>


definition sample_snapshot :: "u64 \<Rightarrow> string \<Rightarrow> snapshot" where
  "sample_snapshot r st = \<lparr>sID = ''tx'', sProducer = ''p'', sEpoch = 0, sRevision = r, sReady = False,
     sExpired = False, sState = st, sMessages = [], sOffsets = [], sCreatedAt = 5, sUpdatedAt = 6\<rparr>"


text \<open>C19: a replicated snapshot never moves a transaction back. Whatever is applied, the table afterwards
  holds for each identifier what it held before or something strictly newer in epoch and revision; in
  particular a committed transaction is not undone by the committing snapshot that preceded it, which a
  retrying coordinator sends again and which is accepted without any change.\<close>

theorem replication_never_regresses:
  assumes "ApplyReplicatedSnapshot (Some s) m = Inr m'" "map_of (mTxns m) tid = Some tx"
  shows "\<exists>tx'. map_of (mTxns m') tid = Some tx' \<and>
           (tx' = tx \<or> tx' = transactionFromSnapshot s \<and> snapshotIsNewer tx s \<and> sID s = tid) \<and>
           snap_le (snapshot_of tx) (snapshot_of tx')"
proof -
  have valid: "validateSnapshot s = None"
    using ApplyReplicated_Inr(1) [OF assms(1)] .
  have "m' = m \<or> m' = put_txn (sID s) (transactionFromSnapshot s) m \<and> (sID s = tid \<longrightarrow> snapshotIsNewer tx s)"
    using assms valid by (cases "sID s = tid") (auto simp: ApplyReplicatedSnapshot_def split: option.splits if_splits)
  then consider "m' = m" | "m' = put_txn (sID s) (transactionFromSnapshot s) m" "sID s = tid \<longrightarrow> snapshotIsNewer tx s"
    by blast
  then show ?thesis
  proof cases
    case 1
    then show ?thesis using assms(2) by simp
  next
    case 2
    then show ?thesis
      using assms(2) snap_le_total [of s "snapshot_of tx"] by (auto simp: snapshotIsNewer_iff)
  qed
qed

theorem replication_never_regresses_witness:
  "\<exists>m. map_of (mTxns m) ''tx'' = Some (transactionFromSnapshot (sample_snapshot 5 StateCommitted)) \<and>
     ApplyReplicatedSnapshot (Some (sample_snapshot 4 StateCommitting)) m = Inr m"
proof -
  let ?c = "transactionFromSnapshot (sample_snapshot 5 StateCommitted)"
  let ?m = "put_txn ''tx'' ?c (NewManagerWithExpiration 1)"
  have apply_old: "ApplyReplicatedSnapshot (Some (sample_snapshot 4 StateCommitting)) ?m = Inr ?m"
    by (simp add: ApplyReplicatedSnapshot_def sample_snapshot_def validateSnapshot_def snapshotIsNewer_def
        snapshotsEqual_def committedSnapshotSucceeds_def transactionFromSnapshot_def)
  moreover have "map_of (mTxns ?m) ''tx'' = Some ?c"
    by simp
  ultimately show ?thesis
    using replication_never_regresses [OF apply_old, of "''tx''"] by blast
qed

text \<open>C32: what any reachable manager exports is accepted by \<open>ImportState\<close> on any other manager and restores
  exactly the exported table, so a journal compaction or a Raft snapshot loses nothing.\<close>

theorem export_import_round_trip:
  assumes "txn_step\<^sup>*\<^sup>* (NewManagerWithExpiration d) m"
  shows "ImportState (ExportState m) fresh = Inr (fresh\<lparr>mTxns := mTxns m\<rparr>)"
  using ImportState_ExportState txn_reachable_wf [OF assms NewManager_wf NewManager_durable] by blast

theorem export_import_round_trip_witness:
  "\<exists>fresh. mTxns fresh = [] \<and> ImportState (ExportState sample_init) fresh = Inr (fresh\<lparr>mTxns := mTxns sample_init\<rparr>) \<and>
     mTxns sample_init \<noteq> []"
proof -
  have "txn_step\<^sup>*\<^sup>* (NewManagerWithExpiration 100) sample_init"
    using sample_init_step by (blast intro: txn_step.coordinate)
  moreover have "mTxns (NewManagerWithExpiration 7) = []" "mTxns sample_init \<noteq> []"
    by (simp_all add: NewManagerWithExpiration_def sample_init_def put_txn_def mput_def)
  ultimately show ?thesis
    using export_import_round_trip [of 100 sample_init "NewManagerWithExpiration 7"] by blast
qed

text \<open>C35: deleting a topic. It is refused, with the table unchanged and the offending identifiers reported, exactly
  when an active transaction refers to the topic; otherwise no transaction refers to it afterwards, and
  every operation on another topic, and every transaction that did not refer to it, is kept.\<close>

theorem topic_references_pruned:
  "case PruneTopicReferences topicName m of
     Inl err \<Rightarrow> \<exists>ids. err = TopicReferenced ids \<and> ids \<noteq> [] \<and>
       set ids = {tid. \<exists>tx. (tid, tx) \<in> set (mTxns m) \<and> references topicName tx \<and> active tx}
   | Inr (affected, m') \<Rightarrow>
       (\<forall>(tid, tx) \<in> set (mTxns m). \<not> (references topicName tx \<and> active tx)) \<and>
       (\<forall>(tid, tx) \<in> set (mTxns m'). \<not> references topicName tx) \<and>
       mTxns m' = mvals (scrubbed topicName) (mTxns m) \<and>
       set affected = {tid. \<exists>tx. (tid, tx) \<in> set (mTxns m) \<and> references topicName tx}"
proof (cases "\<exists>(tid, tx) \<in> set (mTxns m). references topicName tx \<and> active tx")
  case True
  let ?ids = "sort (map fst (filter (\<lambda>(tid, tx). references topicName tx \<and> active tx) (mTxns m)))"
  have ids: "set ?ids = {tid. \<exists>tx. (tid, tx) \<in> set (mTxns m) \<and> references topicName tx \<and> active tx}"
    by force
  then have "?ids \<noteq> []"
    using True by fastforce
  moreover have "PruneTopicReferences topicName m = Inl (TopicReferenced ?ids)"
    unfolding PruneTopicReferences_result by (rule if_P [OF True])
  ultimately show ?thesis
    using ids by (simp only: sum.case) blast
next
  case False
  then have "mvals (\<lambda>tx. if active tx then tx else scrubbed topicName tx) (mTxns m) = mvals (scrubbed topicName) (mTxns m)"
    using scrubbed_unreferenced by (force simp: mvals_def)
  moreover have "\<not> references topicName (scrubbed topicName tx)" for tx
    by (simp add: references_def scrubbed_def)
  moreover have "set (sort (map fst (filter (\<lambda>(tid, tx). references topicName tx \<and> \<not> active tx) (mTxns m)))) =
      {tid. \<exists>tx. (tid, tx) \<in> set (mTxns m) \<and> references topicName tx}"
    using False by force
  moreover have "PruneTopicReferences topicName m =
      Inr (sort (map fst (filter (\<lambda>(tid, tx). references topicName tx \<and> \<not> active tx) (mTxns m))),
           m\<lparr>mTxns := mvals (\<lambda>tx. if active tx then tx else scrubbed topicName tx) (mTxns m)\<rparr>)"
    unfolding PruneTopicReferences_result by (rule if_not_P [OF False])
  ultimately show ?thesis
    using False by (auto simp: mvals_def)
qed

theorem topic_references_pruned_witness:
  "\<exists>ids. PruneTopicReferences ''t'' sample_open = Inl (TopicReferenced ids) \<and> set ids = {''tx''}"
proof -
  have table: "mTxns sample_open = [(''tx'', sample_open_txn)]"
    by (simp add: sample_open_def put_txn_def mput_def NewManagerWithExpiration_def)
  have ref: "references ''t'' sample_open_txn" "active sample_open_txn"
    by (simp_all add: references_def active_def sample_open_txn_def sample_offset_def)
  obtain err where err: "PruneTopicReferences ''t'' sample_open = Inl err"
    by (simp add: PruneTopicReferences_result table ref)
  obtain ids where ids: "err = TopicReferenced ids"
    "set ids = {tid. \<exists>tx. (tid, tx) \<in> set (mTxns sample_open) \<and> references ''t'' tx \<and> active tx}"
    using topic_references_pruned [of sample_open "''t''", unfolded err sum.case] by blast
  then have "set ids = {''tx''}"
    using ref by (simp add: table)
  then show ?thesis
    using err ids(1) by blast
qed

end
