(* ===== verification/Group_Metadata.thy ===== *)
theory Group_Metadata
  imports Go_Hash "HOL-Library.List_Lexorder" "HOL-Library.Char_ord"
begin

section \<open>Consumer group metadata\<close>

text \<open>
  The types of \<open>pkg/coordinator\<close> (\<open>GroupMetadata\<close>, \<open>MemberMetadata\<close>, \<open>OffsetItem\<close>), topic patterns
  (\<open>groupTopicMatches\<close>) and the records of the internal metadata topic (\<open>metadata_record.go\<close>): their
  canonical form, validation and keys.

  Partitions, counts and generations are Go ints that only count up from zero and are \<open>int\<close>; offsets,
  epochs and revisions are 64-bit words. Topic names are ASCII, so that a rune of the regular expression
  is a character. The JSON text of a record stands for the record itself: a payload is \<open>Some\<close> record,
  or \<open>None\<close> when \<open>encoding/json\<close> or the version check rejects it.
\<close>

subsection \<open>Types\<close>

record offsetItem =
  oiPartition :: int
  oiOffset :: u64

record memberMetadata =
  mmID :: string
  mmLastHeartbeat :: instant
  mmAssignments :: "int list"

record groupMetadata =
  gTopicName :: string
  gMembers :: "(string, memberMetadata) gomap"
  gGeneration :: int
  gPartitions :: "int list"
  gLastRebalance :: instant
  gLastActivity :: instant
  gOffsets :: "(string, (int, u64) gomap) gomap"
  gRegistrationEpoch :: u64
  gOffsetRevisions :: "(string, u64) gomap"

record topicOffsetSnapshot =
  tsTopic :: string
  tsRevision :: u64
  tsOffsets :: "offsetItem list"

record metadataRecord =
  mrVersion :: int
  mrType :: string
  mrGroup :: string
  mrTopic :: string
  mrPartitionCount :: int
  mrEpoch :: u64
  mrRevision :: u64
  mrOffsets :: "offsetItem list"
  mrInitialOffsets :: "topicOffsetSnapshot list"
  mrTimestamp :: instant

definition RecordRegistration :: string where "RecordRegistration = ''group_registration''"
definition RecordOffsetSnapshot :: string where "RecordOffsetSnapshot = ''offset_snapshot''"
definition RecordTombstone :: string where "RecordTombstone = ''group_tombstone''"
definition RecordVersion :: int where "RecordVersion = 1"

lemmas record_type_defs = RecordRegistration_def RecordOffsetSnapshot_def RecordTombstone_def

datatype group_error =
    EmptyName
  | InvalidPartitionCount
  | TopicMismatch
  | PartitionCountMismatch
  | EpochOverflow
  | LegacyOffsetMismatch
  | PersistFailed
  | GroupChanged
  | ActiveMembers
  | LifecycleInProgress
  | GroupNotFound
  | MissingMember
  | MemberNotFound
  | GenerationMismatch
  | NotOwner
  | InvalidPartition
  | CommittedOffsetRegression
  | RegistrationRequired
  | DuplicatePartition
  | InvalidSnapshot
  | InvalidRecord
  | CorruptLog
  | ConflictingRecords

subsection \<open>Topic patterns\<close>

definition newline :: char where "newline = CHR 0x0A"

text \<open>The expression built from a pattern: \<open>*\<close> is \<open>.*\<close>, \<open>?\<close> is \<open>.\<close>, anything else itself; a dot does
  not match a newline.\<close>

fun glob :: "string \<Rightarrow> string \<Rightarrow> bool" where
  "glob [] s \<longleftrightarrow> s = []"
| "glob (p # ps) [] \<longleftrightarrow> p = CHR ''*'' \<and> glob ps []"
| "glob (p # ps) (c # cs) \<longleftrightarrow>
     (if p = CHR ''*'' then glob ps (c # cs) \<or> c \<noteq> newline \<and> glob (p # ps) cs
      else if p = CHR ''?'' then c \<noteq> newline \<and> glob ps cs
      else c = p \<and> glob ps cs)"

definition groupTopicMatches :: "string \<Rightarrow> string \<Rightarrow> bool" where
  "groupTopicMatches pattern topic \<longleftrightarrow>
     pattern = topic \<or>
     list_ex (\<lambda>c. c = CHR ''*'' \<or> c = CHR ''?'') pattern \<and> glob pattern topic"

subsection \<open>Offsets of a group\<close>

definition getOffset :: "groupMetadata \<Rightarrow> string \<Rightarrow> int \<Rightarrow> u64 option" where
  "getOffset g topic part =
     (case map_of (gOffsets g) topic of None \<Rightarrow> None | Some partitions \<Rightarrow> map_of partitions part)"

definition storeOffset :: "string \<Rightarrow> int \<Rightarrow> u64 \<Rightarrow> groupMetadata \<Rightarrow> groupMetadata" where
  "storeOffset topic part offset g =
     (let partitions = (case map_of (gOffsets g) topic of None \<Rightarrow> [] | Some ps \<Rightarrow> ps)
      in g\<lparr>gOffsets := mput topic (mput part offset partitions) (gOffsets g)\<rparr>)"

definition canonicalOffsetItems :: "offsetItem list \<Rightarrow> offsetItem list" where
  "canonicalOffsetItems offsets = sort_key oiPartition offsets"

definition offsetItems_of :: "(int, u64) gomap \<Rightarrow> offsetItem list" where
  "offsetItems_of m = map (\<lambda>(part, offset). \<lparr>oiPartition = part, oiOffset = offset\<rparr>) m"

definition offsetItemsToMap :: "offsetItem list \<Rightarrow> (int, u64) gomap" where
  "offsetItemsToMap items = fold (\<lambda>item. mput (oiPartition item) (oiOffset item)) items []"

definition mergedOffsetSnapshot :: "groupMetadata \<Rightarrow> string \<Rightarrow> offsetItem list \<Rightarrow> offsetItem list" where
  "mergedOffsetSnapshot g topic updates =
     (let current = (case map_of (gOffsets g) topic of None \<Rightarrow> [] | Some ps \<Rightarrow> ps);
          merged = fold (\<lambda>item. mput (oiPartition item) (oiOffset item)) updates current
      in canonicalOffsetItems (offsetItems_of merged))"

definition makePartitions :: "int \<Rightarrow> int list" where
  "makePartitions partitionCount = map int [0..<nat partitionCount]"

subsection \<open>Metadata records\<close>

definition canonicalRecord :: "metadataRecord \<Rightarrow> metadataRecord" where
  "canonicalRecord r =
     r\<lparr>mrOffsets := canonicalOffsetItems (mrOffsets r),
       mrInitialOffsets := sort_key tsTopic
         (map (\<lambda>s. s\<lparr>tsOffsets := canonicalOffsetItems (tsOffsets s)\<rparr>) (mrInitialOffsets r))\<rparr>"

fun validateOffsetItems :: "int set \<Rightarrow> offsetItem list \<Rightarrow> int \<Rightarrow> bool" where
  "validateOffsetItems seen [] partitionCount = True"
| "validateOffsetItems seen (item # rest) partitionCount =
     (if oiPartition item < 0 then False
      else if partitionCount > 0 \<and> oiPartition item \<ge> partitionCount then False
      else if oiPartition item \<in> seen then False
      else validateOffsetItems (insert (oiPartition item) seen) rest partitionCount)"

fun validateInitialOffsets :: "string set \<Rightarrow> topicOffsetSnapshot list \<Rightarrow> metadataRecord \<Rightarrow> bool" where
  "validateInitialOffsets seen [] r = True"
| "validateInitialOffsets seen (s # rest) r =
     (if tsTopic s = '''' then False
      else if \<not> groupTopicMatches (mrTopic r) (tsTopic s) then False
      else if tsTopic s \<in> seen then False
      else validateOffsetItems {} (tsOffsets s) (mrPartitionCount r) \<and>
           validateInitialOffsets (insert (tsTopic s) seen) rest r)"

definition validateRecord :: "metadataRecord \<Rightarrow> bool" where
  "validateRecord r =
     (if mrVersion r \<noteq> RecordVersion then False
      else if mrGroup r = '''' \<or> mrEpoch r = 0 then False
      else if mrType r = RecordRegistration then
        (if mrTopic r = '''' \<or> mrPartitionCount r \<le> 0 then False
         else if mrRevision r \<noteq> 0 \<or> mrOffsets r \<noteq> [] then False
         else validateInitialOffsets {} (mrInitialOffsets r) r)
      else if mrType r = RecordOffsetSnapshot then
        (if mrTopic r = '''' \<or> mrRevision r = 0 \<or> mrOffsets r = [] then False
         else if mrPartitionCount r \<noteq> 0 \<or> mrInitialOffsets r \<noteq> [] then False
         else validateOffsetItems {} (mrOffsets r) 0)
      else if mrType r = RecordTombstone then
        \<not> (mrPartitionCount r \<noteq> 0 \<or> mrRevision r \<noteq> 0 \<or> mrOffsets r \<noteq> [] \<or> mrInitialOffsets r \<noteq> [])
      else False)"

definition recordKey :: "metadataRecord \<Rightarrow> string" where
  "recordKey r =
     (let (identity, prefix) =
            (if mrType r = RecordOffsetSnapshot then (mrGroup r @ CHR 0x00 # mrTopic r, ''offset'')
             else (mrGroup r, ''group''))
      in ''cursus.consumer.'' @ prefix @ ''.v1.'' @ hex_encode (sha256 (bytes_of_string identity)))"

text \<open>A message of the internal topic: the key, and the payload if it decodes.\<close>

record metadataMessage =
  xKey :: string
  xPayload :: "metadataRecord option"

definition encodeRecord :: "metadataRecord \<Rightarrow> metadataMessage option" where
  "encodeRecord r =
     (let r = canonicalRecord r in
      if \<not> validateRecord r then None
      else Some \<lparr>xKey = recordKey r, xPayload = Some r\<rparr>)"

definition decodeRecord :: "metadataRecord option \<Rightarrow> metadataRecord option" where
  "decodeRecord payload =
     (case payload of
        None \<Rightarrow> None
      | Some r \<Rightarrow> (let r = canonicalRecord r in if \<not> validateRecord r then None else Some r))"

definition sameRecord :: "metadataRecord \<Rightarrow> metadataRecord \<Rightarrow> bool" where
  "sameRecord left right \<longleftrightarrow>
     canonicalRecord (left\<lparr>mrTimestamp := 0\<rparr>) = canonicalRecord (right\<lparr>mrTimestamp := 0\<rparr>)"

definition registrationInitialOffsets :: "groupMetadata \<Rightarrow> topicOffsetSnapshot list" where
  "registrationInitialOffsets g =
     map (\<lambda>topic. \<lparr>tsTopic = topic,
            tsRevision = (case map_of (gOffsetRevisions g) topic of None \<Rightarrow> 0 | Some r \<Rightarrow> r),
            tsOffsets = canonicalOffsetItems (offsetItems_of (the (map_of (gOffsets g) topic)))\<rparr>)
       (sort (mkeys (gOffsets g)))"

definition registrationRecord ::
  "instant \<Rightarrow> string \<Rightarrow> string \<Rightarrow> int \<Rightarrow> u64 \<Rightarrow> topicOffsetSnapshot list \<Rightarrow> metadataRecord" where
  "registrationRecord now groupName topicName partitionCount epoch initial =
     \<lparr>mrVersion = RecordVersion, mrType = RecordRegistration, mrGroup = groupName, mrTopic = topicName,
      mrPartitionCount = partitionCount, mrEpoch = epoch, mrRevision = 0, mrOffsets = [],
      mrInitialOffsets = initial, mrTimestamp = now\<rparr>"

definition offsetRecord ::
  "instant \<Rightarrow> string \<Rightarrow> string \<Rightarrow> u64 \<Rightarrow> u64 \<Rightarrow> offsetItem list \<Rightarrow> metadataRecord" where
  "offsetRecord now groupName topicName epoch revision offsets =
     \<lparr>mrVersion = RecordVersion, mrType = RecordOffsetSnapshot, mrGroup = groupName, mrTopic = topicName,
      mrPartitionCount = 0, mrEpoch = epoch, mrRevision = revision,
      mrOffsets = canonicalOffsetItems offsets, mrInitialOffsets = [], mrTimestamp = now\<rparr>"

definition tombstoneRecord :: "instant \<Rightarrow> string \<Rightarrow> string \<Rightarrow> u64 \<Rightarrow> metadataRecord" where
  "tombstoneRecord now groupName topicName epoch =
     \<lparr>mrVersion = RecordVersion, mrType = RecordTombstone, mrGroup = groupName, mrTopic = topicName,
      mrPartitionCount = 0, mrEpoch = epoch, mrRevision = 0, mrOffsets = [], mrInitialOffsets = [],
      mrTimestamp = now\<rparr>"

end
