(* ===== verification/Group_Coordinator.thy ===== *)
theory Group_Coordinator
  imports Group_Metadata
begin

section \<open>The consumer group coordinator\<close>

text \<open>
  \<open>pkg/coordinator\<close>: \<open>rebalancer.go\<close>, \<open>heartbeat.go\<close>, \<open>coordinator_offset.go\<close>, \<open>topic_lifecycle.go\<close> and the
  state of \<open>coordinator.go\<close>. One definition per method, on the state of the coordinator.

  A durable lifecycle change releases the lock while its record is written, so it is modelled in two
  steps with the write between them: \<open>RegisterGroup_begin\<close> / \<open>RegisterGroup_end\<close> and \<open>DeleteGroup_begin\<close> /
  \<open>DeleteGroup_end\<close>; other operations may run between the steps. The internal topic is the list
  \<open>cLog\<close> of the messages its handler has acknowledged; whether a write is acknowledged is the argument
  \<open>ack\<close>. In distributed mode nothing is written. The group pointer that the second step compares is
  the presence of the group: only these operations add or remove one.
\<close>

record coordinator =
  cGroups :: "(string, groupMetadata) gomap"
  cPending :: "(string, bool) gomap"
  cStandalone :: bool
  cEpochs :: "(string, u64) gomap"
  cOffsetPartitions :: int
  cOwnershipSince :: "(string, instant) gomap"
  cLog :: "metadataMessage list"

definition NewCoordinator :: "bool \<Rightarrow> coordinator" where
  "NewCoordinator standalone =
     \<lparr>cGroups = [], cPending = [], cStandalone = standalone, cEpochs = [], cOffsetPartitions = 4,
      cOwnershipSince = [], cLog = []\<rparr>"

definition groupEpoch :: "coordinator \<Rightarrow> string \<Rightarrow> u64" where
  "groupEpoch c name = (case map_of (cEpochs c) name of None \<Rightarrow> 0 | Some e \<Rightarrow> e)"

definition isPending :: "coordinator \<Rightarrow> string \<Rightarrow> bool" where
  "isPending c name \<longleftrightarrow> map_of (cPending c) name = Some True"

definition put_group :: "string \<Rightarrow> groupMetadata \<Rightarrow> coordinator \<Rightarrow> coordinator" where
  "put_group name g c = c\<lparr>cGroups := mput name g (cGroups c)\<rparr>"

text \<open>Writing a record: nothing in distributed mode; otherwise the encoded record, if it is valid and the
  internal topic acknowledges it.\<close>

definition writeRecord :: "bool \<Rightarrow> metadataRecord \<Rightarrow> coordinator \<Rightarrow> group_error + coordinator" where
  "writeRecord ack r c =
     (if \<not> cStandalone c then Inr c
      else case encodeRecord r of
        None \<Rightarrow> Inl InvalidRecord
      | Some msg \<Rightarrow> if ack then Inr (c\<lparr>cLog := cLog c @ [msg]\<rparr>) else Inl PersistFailed)"

definition calculateOffsetPartitionCount :: "int \<Rightarrow> int" where
  "calculateOffsetPartitionCount groupCount = min (max (groupCount div 10) 4) 50"

definition updateOffsetPartitionCount :: "coordinator \<Rightarrow> coordinator" where
  "updateOffsetPartitionCount c =
     c\<lparr>cOffsetPartitions := calculateOffsetPartitionCount (int (length (cGroups c)))\<rparr>"

subsection \<open>Rebalancing\<close>

text \<open>The loop over the sorted members: the partitions from \<open>partitionIdx\<close> on are dealt out in ranges.\<close>

fun rangeLoop ::
  "int list \<Rightarrow> nat \<Rightarrow> nat \<Rightarrow> nat \<Rightarrow> nat \<Rightarrow> string list \<Rightarrow> (string, memberMetadata) gomap \<Rightarrow>
   (string, memberMetadata) gomap" where
  "rangeLoop partitions perConsumer remainder i partitionIdx [] members = members"
| "rangeLoop partitions perConsumer remainder i partitionIdx (memberID # rest) members =
     (let count = (if i < remainder then perConsumer + 1 else perConsumer);
          pCount = length partitions;
          newAssignments =
            (if partitionIdx < pCount
             then (let stop = min (partitionIdx + count) pCount
                   in take (stop - partitionIdx) (drop partitionIdx partitions))
             else []);
          members' = (case map_of members memberID of
              None \<Rightarrow> members
            | Some m \<Rightarrow> mput memberID (m\<lparr>mmAssignments := newAssignments\<rparr>) members)
      in rangeLoop partitions perConsumer remainder (Suc i) (partitionIdx + length newAssignments) rest members')"

definition rebalance :: "instant \<Rightarrow> groupMetadata \<Rightarrow> groupMetadata" where
  "rebalance now g =
     (let members = sort (mkeys (gMembers g));
          g = g\<lparr>gLastActivity := now, gLastRebalance := now\<rparr>
      in if members = [] then g
         else g\<lparr>gMembers := rangeLoop (gPartitions g) (length (gPartitions g) div length members)
                  (length (gPartitions g) mod length members) 0 0 members (gMembers g)\<rparr>)"

definition rebalanceRange :: "instant \<Rightarrow> string \<Rightarrow> coordinator \<Rightarrow> coordinator" where
  "rebalanceRange now groupName c =
     (case map_of (cGroups c) groupName of
        None \<Rightarrow> c
      | Some g \<Rightarrow> put_group groupName (rebalance now g) c)"

subsection \<open>Group lifecycle\<close>

text \<open>What \<open>RegisterGroup\<close> holds in local variables while its record is written.\<close>

record registration =
  rgGroup :: string
  rgTopic :: string
  rgCount :: int
  rgEpoch :: u64
  rgExisting :: bool
  rgNow :: instant
  rgInitial :: "topicOffsetSnapshot list"

definition RegisterGroup_begin ::
  "instant \<Rightarrow> string \<Rightarrow> string \<Rightarrow> int \<Rightarrow> coordinator \<Rightarrow> group_error + (coordinator \<times> registration option)" where
  "RegisterGroup_begin now topicName groupName partitionCount c =
     (if topicName = '''' \<or> groupName = '''' then Inl EmptyName
      else if partitionCount \<le> 0 then Inl InvalidPartitionCount
      else case map_of (cGroups c) groupName of
        Some g \<Rightarrow>
          if gTopicName g \<noteq> '''' \<and> gTopicName g \<noteq> topicName then Inl TopicMismatch
          else if gPartitions g \<noteq> [] \<and> int (length (gPartitions g)) \<noteq> partitionCount
          then Inl PartitionCountMismatch
          else if gRegistrationEpoch g \<noteq> 0 then
            (let c = (if gRegistrationEpoch g > groupEpoch c groupName
                      then c\<lparr>cEpochs := mput groupName (gRegistrationEpoch g) (cEpochs c)\<rparr> else c);
                 g = g\<lparr>gTopicName := topicName, gLastActivity := now,
                       gPartitions := (if gPartitions g = [] then makePartitions partitionCount else gPartitions g)\<rparr>
             in Inr (put_group groupName g c, None))
          else let epoch = groupEpoch c groupName + 1; initial = registrationInitialOffsets g in
            if epoch = 0 then Inl EpochOverflow
            else if list_ex (\<lambda>s. \<not> groupTopicMatches topicName (tsTopic s)) initial
            then Inl LegacyOffsetMismatch
            else Inr (c\<lparr>cPending := mput groupName True (cPending c)\<rparr>,
                      Some \<lparr>rgGroup = groupName, rgTopic = topicName, rgCount = partitionCount,
                            rgEpoch = epoch, rgExisting = True, rgNow = now, rgInitial = initial\<rparr>)
      | None \<Rightarrow>
          let epoch = groupEpoch c groupName + 1 in
          if epoch = 0 then Inl EpochOverflow
          else Inr (c\<lparr>cPending := mput groupName True (cPending c)\<rparr>,
                    Some \<lparr>rgGroup = groupName, rgTopic = topicName, rgCount = partitionCount,
                          rgEpoch = epoch, rgExisting = False, rgNow = now, rgInitial = []\<rparr>))"

definition registration_record :: "registration \<Rightarrow> metadataRecord" where
  "registration_record rg =
     registrationRecord (rgNow rg) (rgGroup rg) (rgTopic rg) (rgCount rg) (rgEpoch rg) (rgInitial rg)"

text \<open>The second step, given the outcome of the write: the coordinator after it, or the error of it.\<close>

definition RegisterGroup_end :: "registration \<Rightarrow> bool \<Rightarrow> coordinator \<Rightarrow> group_error option \<times> coordinator" where
  "RegisterGroup_end rg ack c =
     (let name = rgGroup rg; unlocked = c\<lparr>cPending := mdel name (cPending c)\<rparr> in
      case writeRecord ack (registration_record rg) unlocked of
        Inl err \<Rightarrow> (Some err, unlocked)
      | Inr written \<Rightarrow>
          (case map_of (cGroups c) name of
             Some g \<Rightarrow>
               if \<not> rgExisting rg then (Some GroupChanged, written)
               else (None, (put_group name (g\<lparr>gRegistrationEpoch := rgEpoch rg, gTopicName := rgTopic rg,
                        gLastActivity := rgNow rg,
                        gPartitions := (if gPartitions g = [] then makePartitions (rgCount rg) else gPartitions g)\<rparr>)
                      written)\<lparr>cEpochs := mput name (rgEpoch rg) (cEpochs c)\<rparr>)
           | None \<Rightarrow>
               if rgExisting rg then (Some GroupChanged, written)
               else (None, updateOffsetPartitionCount
                      ((put_group name \<lparr>gTopicName = rgTopic rg, gMembers = [], gGeneration = 0,
                         gPartitions = makePartitions (rgCount rg), gLastRebalance = 0, gLastActivity = rgNow rg,
                         gOffsets = [], gRegistrationEpoch = rgEpoch rg, gOffsetRevisions = []\<rparr> written)
                       \<lparr>cEpochs := mput name (rgEpoch rg) (cEpochs c)\<rparr>))))"

definition RegisterGroup ::
  "instant \<Rightarrow> string \<Rightarrow> string \<Rightarrow> int \<Rightarrow> bool \<Rightarrow> coordinator \<Rightarrow> group_error option \<times> coordinator" where
  "RegisterGroup now topicName groupName partitionCount ack c =
     (case RegisterGroup_begin now topicName groupName partitionCount c of
        Inl err \<Rightarrow> (Some err, c)
      | Inr (c, None) \<Rightarrow> (None, c)
      | Inr (c, Some rg) \<Rightarrow> RegisterGroup_end rg ack c)"

record deletion =
  dgGroup :: string
  dgTopic :: string
  dgEpoch :: u64

definition DeleteGroup_begin :: "string \<Rightarrow> coordinator \<Rightarrow> group_error + (coordinator \<times> deletion option)" where
  "DeleteGroup_begin groupName c =
     (if groupName = '''' then Inl EmptyName
      else case map_of (cGroups c) groupName of
        None \<Rightarrow> Inr (c, None)
      | Some g \<Rightarrow>
          if gMembers g \<noteq> [] then Inl ActiveMembers
          else let epoch = max (groupEpoch c groupName) (gRegistrationEpoch g) + 1 in
            if epoch = 0 then Inl EpochOverflow
            else Inr (c\<lparr>cPending := mput groupName True (cPending c)\<rparr>,
                      Some \<lparr>dgGroup = groupName, dgTopic = gTopicName g, dgEpoch = epoch\<rparr>))"

definition DeleteGroup_end :: "instant \<Rightarrow> deletion \<Rightarrow> bool \<Rightarrow> coordinator \<Rightarrow> group_error option \<times> coordinator" where
  "DeleteGroup_end now dg ack c =
     (let name = dgGroup dg; unlocked = c\<lparr>cPending := mdel name (cPending c)\<rparr> in
      case writeRecord ack (tombstoneRecord now name (dgTopic dg) (dgEpoch dg)) unlocked of
        Inl err \<Rightarrow> (Some err, unlocked)
      | Inr written \<Rightarrow>
          (case map_of (cGroups c) name of
             None \<Rightarrow> (Some GroupChanged, written)
           | Some g \<Rightarrow>
               (None, updateOffsetPartitionCount
                  (written\<lparr>cGroups := mdel name (cGroups c), cEpochs := mput name (dgEpoch dg) (cEpochs c),
                           cOwnershipSince := mdel name (cOwnershipSince c)\<rparr>))))"

definition DeleteGroup :: "instant \<Rightarrow> string \<Rightarrow> bool \<Rightarrow> coordinator \<Rightarrow> group_error option \<times> coordinator" where
  "DeleteGroup now groupName ack c =
     (case DeleteGroup_begin groupName c of
        Inl err \<Rightarrow> (Some err, c)
      | Inr (c, None) \<Rightarrow> (None, c)
      | Inr (c, Some dg) \<Rightarrow> DeleteGroup_end now dg ack c)"

subsection \<open>Membership\<close>

definition validateMemberGeneration :: "string \<Rightarrow> string \<Rightarrow> int \<Rightarrow> coordinator \<Rightarrow> group_error option" where
  "validateMemberGeneration groupName memberID generation c =
     (case map_of (cGroups c) groupName of
        None \<Rightarrow> Some GroupNotFound
      | Some g \<Rightarrow>
          if memberID = '''' then Some MissingMember
          else if map_of (gMembers g) memberID = None then Some MemberNotFound
          else if generation \<ge> 0 \<and> gGeneration g \<noteq> generation then Some GenerationMismatch
          else None)"

definition AddConsumer :: "instant \<Rightarrow> string \<Rightarrow> string \<Rightarrow> coordinator \<Rightarrow> group_error + (int list \<times> coordinator)" where
  "AddConsumer now groupName consumerID c =
     (if isPending c groupName then Inl LifecycleInProgress
      else case map_of (cGroups c) groupName of
        None \<Rightarrow> Inl GroupNotFound
      | Some g \<Rightarrow>
          (let g = g\<lparr>gMembers := mput consumerID
                       \<lparr>mmID = consumerID, mmLastHeartbeat = now, mmAssignments = []\<rparr> (gMembers g),
                     gGeneration := gGeneration g + 1\<rparr>;
               c = rebalanceRange now groupName (put_group groupName g c);
               assignments = mmAssignments (the (map_of (gMembers (the (map_of (cGroups c) groupName))) consumerID))
           in Inr (assignments, c)))"

definition removeConsumer :: "instant \<Rightarrow> string \<Rightarrow> string \<Rightarrow> coordinator \<Rightarrow> group_error + coordinator" where
  "removeConsumer now groupName consumerID c =
     (case map_of (cGroups c) groupName of
        None \<Rightarrow> Inl GroupNotFound
      | Some g \<Rightarrow>
          if map_of (gMembers g) consumerID = None then Inl MemberNotFound
          else Inr (rebalanceRange now groupName
                 (put_group groupName
                   (g\<lparr>gMembers := mdel consumerID (gMembers g), gGeneration := gGeneration g + 1\<rparr>) c)))"

definition RemoveConsumer :: "instant \<Rightarrow> string \<Rightarrow> string \<Rightarrow> coordinator \<Rightarrow> group_error + coordinator" where
  "RemoveConsumer now groupName consumerID c =
     (case removeConsumer now groupName consumerID c of
        Inl err \<Rightarrow> Inl err
      | Inr c \<Rightarrow> Inr (updateOffsetPartitionCount c))"

definition RemoveConsumerForGeneration ::
  "instant \<Rightarrow> string \<Rightarrow> string \<Rightarrow> int \<Rightarrow> coordinator \<Rightarrow> group_error + coordinator" where
  "RemoveConsumerForGeneration now groupName consumerID generation c =
     (case validateMemberGeneration groupName consumerID generation c of
        Some err \<Rightarrow> Inl err
      | None \<Rightarrow> RemoveConsumer now groupName consumerID c)"

fun removeMembers :: "string list \<Rightarrow> (string, memberMetadata) gomap \<Rightarrow> (string, memberMetadata) gomap \<times> nat" where
  "removeMembers [] members = (members, 0)"
| "removeMembers (consumerID # rest) members =
     (if map_of members consumerID = None then removeMembers rest members
      else let (members', removed) = removeMembers rest (mdel consumerID members) in (members', removed + 1))"

definition ExpireConsumers :: "instant \<Rightarrow> string \<Rightarrow> int \<Rightarrow> string list \<Rightarrow> coordinator \<Rightarrow> group_error + coordinator" where
  "ExpireConsumers now groupName expectedGeneration consumerIDs c =
     (case map_of (cGroups c) groupName of
        None \<Rightarrow> Inl GroupNotFound
      | Some g \<Rightarrow>
          if gGeneration g \<noteq> expectedGeneration then Inl GenerationMismatch
          else let (members, removed) = removeMembers consumerIDs (gMembers g) in
            if removed = 0 then Inr c
            else Inr (rebalanceRange now groupName
                   (put_group groupName (g\<lparr>gMembers := members, gGeneration := gGeneration g + 1\<rparr>) c)))"

definition Rebalance :: "instant \<Rightarrow> string \<Rightarrow> coordinator \<Rightarrow> coordinator" where
  "Rebalance now groupName c = rebalanceRange now groupName c"

definition touchMember :: "instant \<Rightarrow> string \<Rightarrow> string \<Rightarrow> coordinator \<Rightarrow> coordinator" where
  "touchMember now groupName memberID c =
     (case map_of (cGroups c) groupName of
        None \<Rightarrow> c
      | Some g \<Rightarrow>
          (case map_of (gMembers g) memberID of
             None \<Rightarrow> c
           | Some m \<Rightarrow>
               put_group groupName
                 (g\<lparr>gMembers := mput memberID (m\<lparr>mmLastHeartbeat := now\<rparr>) (gMembers g), gLastActivity := now\<rparr>) c))"

definition RecordHeartbeatForGeneration ::
  "instant \<Rightarrow> string \<Rightarrow> string \<Rightarrow> int \<Rightarrow> coordinator \<Rightarrow> group_error + coordinator" where
  "RecordHeartbeatForGeneration now groupName consumerID generation c =
     (case validateMemberGeneration groupName consumerID generation c of
        Some err \<Rightarrow> Inl err
      | None \<Rightarrow> Inr (touchMember now groupName consumerID c))"

definition RecordHeartbeat :: "instant \<Rightarrow> string \<Rightarrow> string \<Rightarrow> coordinator \<Rightarrow> group_error + coordinator" where
  "RecordHeartbeat now groupName consumerID c = RecordHeartbeatForGeneration now groupName consumerID (- 1) c"

definition ResumeConsumer ::
  "instant \<Rightarrow> string \<Rightarrow> string \<Rightarrow> int \<Rightarrow> coordinator \<Rightarrow> group_error + (int list \<times> coordinator)" where
  "ResumeConsumer now groupName memberID generation c =
     (case validateMemberGeneration groupName memberID generation c of
        Some err \<Rightarrow> Inl err
      | None \<Rightarrow>
          Inr (mmAssignments (the (map_of (gMembers (the (map_of (cGroups c) groupName))) memberID)),
               touchMember now groupName memberID c))"

subsection \<open>Session expiration\<close>

text \<open>\<open>owner\<close> is the answer of the configured owner checker, False when there is none.\<close>

definition ownsGroupSession :: "bool \<Rightarrow> string \<Rightarrow> instant \<Rightarrow> int \<Rightarrow> coordinator \<Rightarrow> bool \<times> coordinator" where
  "ownsGroupSession owner groupName now timeout c =
     (if cStandalone c then (True, c)
      else if \<not> owner then (False, c\<lparr>cOwnershipSince := mdel groupName (cOwnershipSince c)\<rparr>)
      else case map_of (cOwnershipSince c) groupName of
        None \<Rightarrow> (False, c\<lparr>cOwnershipSince := mput groupName now (cOwnershipSince c)\<rparr>)
      | Some since \<Rightarrow> (now - since \<ge> timeout, c))"

definition timedOutMembers :: "instant \<Rightarrow> int \<Rightarrow> groupMetadata \<Rightarrow> string list" where
  "timedOutMembers now timeout g =
     map fst (filter (\<lambda>(i, m). now - mmLastHeartbeat m > timeout) (gMembers g))"

text \<open>The check of one group. In distributed mode the second component is the expiration handed to the
  cluster handler, which comes back through the metadata log as \<open>ExpireConsumers\<close>.\<close>

definition checkSingleGroupTimeout ::
  "bool \<Rightarrow> instant \<Rightarrow> int \<Rightarrow> string \<Rightarrow> coordinator \<Rightarrow> coordinator \<times> (string \<times> int \<times> string list) option" where
  "checkSingleGroupTimeout owner now timeout groupName c =
     (let (owns, c) = ownsGroupSession owner groupName now timeout c in
      if \<not> owns then (c, None)
      else case map_of (cGroups c) groupName of
        None \<Rightarrow> (c, None)
      | Some g \<Rightarrow>
          if gMembers g = [] then (c, None)
          else let timedOut = timedOutMembers now timeout g in
            if timedOut = [] then (c, None)
            else if \<not> cStandalone c then (c, Some (groupName, gGeneration g, timedOut))
            else case ExpireConsumers now groupName (gGeneration g) timedOut c of
              Inl err \<Rightarrow> (c, None)
            | Inr c \<Rightarrow> (c, None))"

text \<open>\<open>groupNames\<close> are the names read first, under their own lock; the requests to the handler in order.\<close>

fun checkGroupsTimeout ::
  "(string \<Rightarrow> bool) \<Rightarrow> instant \<Rightarrow> int \<Rightarrow> string list \<Rightarrow> coordinator \<Rightarrow>
   coordinator \<times> (string \<times> int \<times> string list) list" where
  "checkGroupsTimeout owner now timeout [] c = (c, [])"
| "checkGroupsTimeout owner now timeout (name # names) c =
     (let (c, request) = checkSingleGroupTimeout (owner name) now timeout name c;
          (c, requests) = checkGroupsTimeout owner now timeout names c
      in (c, (case request of None \<Rightarrow> requests | Some r \<Rightarrow> r # requests)))"

definition checkAllGroupsTimeout ::
  "(string \<Rightarrow> bool) \<Rightarrow> instant \<Rightarrow> int \<Rightarrow> coordinator \<Rightarrow> coordinator \<times> (string \<times> int \<times> string list) list" where
  "checkAllGroupsTimeout owner now timeout c = checkGroupsTimeout owner now timeout (mkeys (cGroups c)) c"

subsection \<open>Offset commits\<close>

definition validateGroupTopic :: "groupMetadata \<Rightarrow> string \<Rightarrow> bool" where
  "validateGroupTopic g topic \<longleftrightarrow> \<not> (gTopicName g \<noteq> '''' \<and> \<not> groupTopicMatches (gTopicName g) topic)"

fun validateOffsetBatch :: "int set \<Rightarrow> groupMetadata \<Rightarrow> string \<Rightarrow> offsetItem list \<Rightarrow> group_error option" where
  "validateOffsetBatch seen g topic [] = None"
| "validateOffsetBatch seen g topic (item # rest) =
     (if oiPartition item \<in> seen then Some DuplicatePartition
      else if (case getOffset g topic (oiPartition item) of None \<Rightarrow> False | Some current \<Rightarrow> oiOffset item < current)
      then Some CommittedOffsetRegression
      else validateOffsetBatch (insert (oiPartition item) seen) g topic rest)"

definition offsetRevision :: "groupMetadata \<Rightarrow> string \<Rightarrow> u64" where
  "offsetRevision g topic = (case map_of (gOffsetRevisions g) topic of None \<Rightarrow> 0 | Some r \<Rightarrow> r)"

definition inRange :: "groupMetadata \<Rightarrow> int \<Rightarrow> bool" where
  "inRange g part \<longleftrightarrow> \<not> (part < 0 \<or> part \<ge> int (length (gPartitions g)))"

definition storeOffsets :: "string \<Rightarrow> offsetItem list \<Rightarrow> groupMetadata \<Rightarrow> groupMetadata" where
  "storeOffsets topic offsets g = fold (\<lambda>item. storeOffset topic (oiPartition item) (oiOffset item)) offsets g"

text \<open>The durable part both commits share: write the merged snapshot at the next revision, then store.\<close>

definition commitDurable ::
  "instant \<Rightarrow> bool \<Rightarrow> string \<Rightarrow> string \<Rightarrow> offsetItem list \<Rightarrow> groupMetadata \<Rightarrow> coordinator \<Rightarrow> group_error + coordinator" where
  "commitDurable now ack groupName topic offsets g c =
     (let revision = offsetRevision g topic + 1 in
      case writeRecord ack (offsetRecord now groupName topic (gRegistrationEpoch g) revision
             (mergedOffsetSnapshot g topic offsets)) c of
        Inl err \<Rightarrow> Inl err
      | Inr written \<Rightarrow>
          Inr (put_group groupName
                 ((storeOffsets topic offsets g)\<lparr>gOffsetRevisions := mput topic revision (gOffsetRevisions g)\<rparr>)
                 written))"

definition commitOffsetForGroup ::
  "instant \<Rightarrow> bool \<Rightarrow> groupMetadata \<Rightarrow> string \<Rightarrow> string \<Rightarrow> int \<Rightarrow> u64 \<Rightarrow> coordinator \<Rightarrow> group_error + coordinator" where
  "commitOffsetForGroup now ack g groupName topic part offset c =
     (if \<not> validateGroupTopic g topic then Inl TopicMismatch
      else if \<not> inRange g part then Inl InvalidPartition
      else if (case getOffset g topic part of None \<Rightarrow> False | Some current \<Rightarrow> offset < current)
      then Inl CommittedOffsetRegression
      else if cStandalone c then
        (if gRegistrationEpoch g = 0 then Inl RegistrationRequired
         else if getOffset g topic part = Some offset then Inr c
         else commitDurable now ack groupName topic [\<lparr>oiPartition = part, oiOffset = offset\<rparr>] g c)
      else Inr (put_group groupName (storeOffset topic part offset g) c))"

definition CommitOffset ::
  "instant \<Rightarrow> bool \<Rightarrow> string \<Rightarrow> string \<Rightarrow> int \<Rightarrow> u64 \<Rightarrow> coordinator \<Rightarrow> group_error + coordinator" where
  "CommitOffset now ack groupName topic part offset c =
     (if isPending c groupName then Inl LifecycleInProgress
      else case map_of (cGroups c) groupName of
        None \<Rightarrow> Inl GroupNotFound
      | Some g \<Rightarrow> commitOffsetForGroup now ack g groupName topic part offset c)"

definition commitOffsetsBulkForGroup ::
  "instant \<Rightarrow> bool \<Rightarrow> groupMetadata \<Rightarrow> string \<Rightarrow> string \<Rightarrow> offsetItem list \<Rightarrow> coordinator \<Rightarrow> group_error + coordinator" where
  "commitOffsetsBulkForGroup now ack g groupName topic offsets c =
     (if \<not> validateGroupTopic g topic then Inl TopicMismatch
      else case validateOffsetBatch {} g topic offsets of
        Some err \<Rightarrow> Inl err
      | None \<Rightarrow>
          if list_ex (\<lambda>item. \<not> inRange g (oiPartition item)) offsets then Inl InvalidPartition
          else if cStandalone c then
            (if gRegistrationEpoch g = 0 then Inl RegistrationRequired
             else if list_all (\<lambda>item. getOffset g topic (oiPartition item) = Some (oiOffset item)) offsets
             then Inr c
             else commitDurable now ack groupName topic offsets g c)
          else Inr (put_group groupName (storeOffsets topic offsets g) c))"

definition CommitOffsetsBulk ::
  "instant \<Rightarrow> bool \<Rightarrow> string \<Rightarrow> string \<Rightarrow> offsetItem list \<Rightarrow> coordinator \<Rightarrow> group_error + coordinator" where
  "CommitOffsetsBulk now ack groupName topic offsets c =
     (if offsets = [] then Inr c
      else if isPending c groupName then Inl LifecycleInProgress
      else case map_of (cGroups c) groupName of
        None \<Rightarrow> Inl GroupNotFound
      | Some g \<Rightarrow> commitOffsetsBulkForGroup now ack g groupName topic offsets c)"

definition memberOwns :: "groupMetadata \<Rightarrow> string \<Rightarrow> int \<Rightarrow> bool" where
  "memberOwns g memberID part \<longleftrightarrow>
     (case map_of (gMembers g) memberID of None \<Rightarrow> False | Some m \<Rightarrow> part \<in> set (mmAssignments m))"

definition ValidateAndCommitOffsetsBulk ::
  "instant \<Rightarrow> bool \<Rightarrow> string \<Rightarrow> string \<Rightarrow> string \<Rightarrow> int \<Rightarrow> offsetItem list \<Rightarrow> coordinator \<Rightarrow> group_error + coordinator" where
  "ValidateAndCommitOffsetsBulk now ack groupName topic memberID generation offsets c =
     (if isPending c groupName then Inl LifecycleInProgress
      else case validateMemberGeneration groupName memberID generation c of
        Some err \<Rightarrow> Inl err
      | None \<Rightarrow>
          (let g = the (map_of (cGroups c) groupName) in
           if list_ex (\<lambda>item. \<not> memberOwns g memberID (oiPartition item)) offsets then Inl NotOwner
           else commitOffsetsBulkForGroup now ack g groupName topic offsets c))"

definition ValidateAndCommit ::
  "instant \<Rightarrow> bool \<Rightarrow> string \<Rightarrow> string \<Rightarrow> int \<Rightarrow> u64 \<Rightarrow> int \<Rightarrow> string \<Rightarrow> coordinator \<Rightarrow> group_error + coordinator" where
  "ValidateAndCommit now ack groupName topic part offset generation memberID c =
     (if isPending c groupName then Inl LifecycleInProgress
      else case validateMemberGeneration groupName memberID generation c of
        Some err \<Rightarrow> Inl err
      | None \<Rightarrow>
          (let g = the (map_of (cGroups c) groupName) in
           if \<not> memberOwns g memberID part then Inl NotOwner
           else commitOffsetForGroup now ack g groupName topic part offset c))"

definition ApplyFencedOffsetUpdateFromFSM ::
  "string \<Rightarrow> string \<Rightarrow> string \<Rightarrow> int \<Rightarrow> offsetItem list \<Rightarrow> coordinator \<Rightarrow> group_error + coordinator" where
  "ApplyFencedOffsetUpdateFromFSM groupName topic memberID generation offsets c =
     (if isPending c groupName then Inl LifecycleInProgress
      else case validateMemberGeneration groupName memberID generation c of
        Some err \<Rightarrow> Inl err
      | None \<Rightarrow>
          (let g = the (map_of (cGroups c) groupName) in
           if list_ex (\<lambda>item. \<not> memberOwns g memberID (oiPartition item)) offsets then Inl NotOwner
           else if \<not> validateGroupTopic g topic then Inl TopicMismatch
           else case validateOffsetBatch {} g topic offsets of
             Some err \<Rightarrow> Inl err
           | None \<Rightarrow> Inr (put_group groupName (storeOffsets topic offsets g) c)))"

subsection \<open>Queries\<close>

definition GetOffset :: "string \<Rightarrow> string \<Rightarrow> int \<Rightarrow> coordinator \<Rightarrow> u64 option" where
  "GetOffset groupName topic part c =
     (case map_of (cGroups c) groupName of None \<Rightarrow> None | Some g \<Rightarrow> getOffset g topic part)"

definition GetGeneration :: "string \<Rightarrow> coordinator \<Rightarrow> int" where
  "GetGeneration groupName c = (case map_of (cGroups c) groupName of None \<Rightarrow> 0 | Some g \<Rightarrow> gGeneration g)"

definition GetAssignments :: "string \<Rightarrow> coordinator \<Rightarrow> (string, int list) gomap" where
  "GetAssignments groupName c =
     (case map_of (cGroups c) groupName of None \<Rightarrow> [] | Some g \<Rightarrow> mvals mmAssignments (gMembers g))"

definition GetMemberAssignments :: "string \<Rightarrow> string \<Rightarrow> coordinator \<Rightarrow> int list" where
  "GetMemberAssignments groupName memberID c =
     (case map_of (cGroups c) groupName of
        None \<Rightarrow> []
      | Some g \<Rightarrow> (case map_of (gMembers g) memberID of None \<Rightarrow> [] | Some m \<Rightarrow> mmAssignments m))"

definition ListGroups :: "coordinator \<Rightarrow> string list" where
  "ListGroups c = mkeys (cGroups c)"

definition ValidateOwnershipFailure :: "string \<Rightarrow> string \<Rightarrow> int \<Rightarrow> int \<Rightarrow> coordinator \<Rightarrow> group_error option" where
  "ValidateOwnershipFailure groupName memberID generation part c =
     (case validateMemberGeneration groupName memberID generation c of
        Some err \<Rightarrow> Some err
      | None \<Rightarrow>
          if \<not> memberOwns (the (map_of (cGroups c) groupName)) memberID part then Some NotOwner else None)"

definition WithOwnershipFence ::
  "string \<Rightarrow> string \<Rightarrow> int \<Rightarrow> int list \<Rightarrow> coordinator \<Rightarrow> group_error option" where
  "WithOwnershipFence groupName memberID generation partitions c =
     (case validateMemberGeneration groupName memberID generation c of
        Some err \<Rightarrow> Some err
      | None \<Rightarrow>
          if list_ex (\<lambda>p. \<not> memberOwns (the (map_of (cGroups c) groupName)) memberID p) partitions
          then Some NotOwner else None)"

definition ValidateOwnershipAtomic :: "string \<Rightarrow> string \<Rightarrow> int \<Rightarrow> int \<Rightarrow> coordinator \<Rightarrow> bool" where
  "ValidateOwnershipAtomic groupName memberID generation part c =
     (case map_of (cGroups c) groupName of
        None \<Rightarrow> False
      | Some g \<Rightarrow>
          (case map_of (gMembers g) memberID of
             None \<Rightarrow> False
           | Some m \<Rightarrow> gGeneration g = generation \<and> part \<in> set (mmAssignments m)))"

subsection \<open>Topic deletion\<close>

definition TopicGroupReferences :: "string \<Rightarrow> coordinator \<Rightarrow> (string \<times> nat) list" where
  "TopicGroupReferences topicName c =
     (if topicName = '''' then []
      else sort_key fst
        (map (\<lambda>(name, g). (name, length (gMembers g)))
          (filter (\<lambda>(name, g). gTopicName g = topicName \<or> map_of (gOffsets g) topicName \<noteq> None) (cGroups c))))"

fun deleteGroups ::
  "instant \<Rightarrow> bool list \<Rightarrow> string list \<Rightarrow> string list \<Rightarrow> coordinator \<Rightarrow> (group_error option \<times> string list) \<times> coordinator" where
  "deleteGroups now acks [] deleted c = ((None, deleted), c)"
| "deleteGroups now acks (name # rest) deleted c =
     (case DeleteGroup now name (acks \<noteq> [] \<and> hd acks) c of
        (Some err, c) \<Rightarrow> ((Some err, deleted), c)
      | (None, c) \<Rightarrow> deleteGroups now (tl acks) rest (deleted @ [name]) c)"

text \<open>\<open>acks\<close> are the outcomes of the tombstone writes, in order.\<close>

definition DeleteInactiveGroupsForTopic ::
  "instant \<Rightarrow> bool list \<Rightarrow> string \<Rightarrow> coordinator \<Rightarrow> (group_error option \<times> string list) \<times> coordinator" where
  "DeleteInactiveGroupsForTopic now acks topicName c =
     (let references = TopicGroupReferences topicName c in
      if list_ex (\<lambda>(name, members). members \<noteq> 0) references then ((Some ActiveMembers, []), c)
      else deleteGroups now acks (map fst references) [] c)"

subsection \<open>Snapshots of the coordinator\<close>

record groupStateSnapshot =
  ssTopicName :: string
  ssGeneration :: int
  ssMembers :: "(string, int list) gomap"
  ssPartitions :: "int list"
  ssLastRebalance :: instant
  ssLastActivity :: instant
  ssOffsets :: "(string, (int, u64) gomap) gomap"
  ssRegistrationEpoch :: u64
  ssOffsetRevisions :: "(string, u64) gomap"
  ssDeleted :: bool

definition export_group :: "groupMetadata \<Rightarrow> groupStateSnapshot" where
  "export_group g =
     \<lparr>ssTopicName = gTopicName g, ssGeneration = gGeneration g, ssMembers = mvals mmAssignments (gMembers g),
      ssPartitions = gPartitions g, ssLastRebalance = gLastRebalance g, ssLastActivity = gLastActivity g,
      ssOffsets = gOffsets g, ssRegistrationEpoch = gRegistrationEpoch g,
      ssOffsetRevisions = gOffsetRevisions g, ssDeleted = False\<rparr>"

definition export_tombstone :: "u64 \<Rightarrow> groupStateSnapshot" where
  "export_tombstone epoch =
     \<lparr>ssTopicName = '''', ssGeneration = 0, ssMembers = [], ssPartitions = [], ssLastRebalance = 0,
      ssLastActivity = 0, ssOffsets = [], ssRegistrationEpoch = epoch, ssOffsetRevisions = [], ssDeleted = True\<rparr>"

definition ExportState :: "coordinator \<Rightarrow> (string, groupStateSnapshot) gomap" where
  "ExportState c =
     mvals export_group (cGroups c) @
     mvals export_tombstone (filter (\<lambda>(name, epoch). map_of (cGroups c) name = None) (cEpochs c))"

text \<open>The members of a snapshot: declared partitions only, none twice, none with two owners.\<close>

fun assignmentsValid :: "int set \<Rightarrow> int set \<Rightarrow> (string \<times> int list) list \<Rightarrow> bool" where
  "assignmentsValid declared assigned [] = True"
| "assignmentsValid declared assigned ((memberID, assignments) # rest) =
     (if memberID = '''' then False
      else if \<not> (set assignments \<subseteq> declared \<and> distinct assignments \<and> set assignments \<inter> assigned = {}) then False
      else assignmentsValid declared (assigned \<union> set assignments) rest)"

definition validateGroupSnapshot :: "string \<Rightarrow> groupStateSnapshot \<Rightarrow> bool" where
  "validateGroupSnapshot name snap =
     (if name = '''' then False
      else if ssRegistrationEpoch snap = 0 then False
      else if ssDeleted snap then
        \<not> (ssTopicName snap \<noteq> '''' \<or> ssGeneration snap \<noteq> 0 \<or> ssMembers snap \<noteq> [] \<or> ssPartitions snap \<noteq> [] \<or>
           ssOffsets snap \<noteq> [] \<or> ssOffsetRevisions snap \<noteq> [])
      else if ssTopicName snap = '''' then False
      else if ssGeneration snap < 0 then False
      else if ssPartitions snap = [] then False
      else if ssLastActivity snap = 0 then False
      else let declared = set (ssPartitions snap) in
        if list_ex (\<lambda>p. p < 0) (ssPartitions snap) \<or> \<not> distinct (ssPartitions snap) then False
        else if list_ex (\<lambda>i. int i \<notin> declared) [0..<length (ssPartitions snap)] then False
        else if \<not> assignmentsValid declared {} (ssMembers snap) then False
        else if list_ex (\<lambda>(topicName, offsets). \<not> groupTopicMatches (ssTopicName snap) topicName \<or>
                  list_ex (\<lambda>(p, off). p \<notin> declared) offsets) (ssOffsets snap) then False
        else \<not> list_ex (\<lambda>(topicName, revision). \<not> groupTopicMatches (ssTopicName snap) topicName \<or> revision = 0)
               (ssOffsetRevisions snap))"

definition ValidateImportState :: "(string, groupStateSnapshot) gomap \<Rightarrow> bool" where
  "ValidateImportState state = list_all (\<lambda>(name, snap). validateGroupSnapshot name snap) state"

definition import_group :: "instant \<Rightarrow> groupStateSnapshot \<Rightarrow> groupMetadata" where
  "import_group now snap =
     \<lparr>gTopicName = ssTopicName snap,
      gMembers = map (\<lambda>(mid, assignments).
          (mid, \<lparr>mmID = mid, mmLastHeartbeat = now, mmAssignments = assignments\<rparr>)) (ssMembers snap),
      gGeneration = ssGeneration snap, gPartitions = ssPartitions snap, gLastRebalance = ssLastRebalance snap,
      gLastActivity = ssLastActivity snap, gOffsets = ssOffsets snap,
      gRegistrationEpoch = ssRegistrationEpoch snap, gOffsetRevisions = ssOffsetRevisions snap\<rparr>"

definition ImportState ::
  "instant \<Rightarrow> (string, groupStateSnapshot) gomap \<Rightarrow> coordinator \<Rightarrow> group_error + coordinator" where
  "ImportState now state c =
     (if \<not> ValidateImportState state then Inl InvalidSnapshot
      else Inr (c\<lparr>cGroups := mvals (import_group now) (filter (\<lambda>(name, snap). \<not> ssDeleted snap) state),
                  cEpochs := mvals ssRegistrationEpoch state, cPending := [], cOwnershipSince := []\<rparr>))"

end
