(* ===== verification/Group_Membership.thy ===== *)
theory Group_Membership
  imports Group_Coordinator
begin

section \<open>Partition assignment\<close>

text \<open>
  What the range assignment of \<open>rebalanceRange\<close> gives: read in the order of the sorted member names, the
  assignments are the partitions of the group cut into consecutive ranges whose sizes differ by at most
  one. \<open>deal\<close> is the reference definition: it cuts the list and never indexes into it.
\<close>

definition assigned :: "groupMetadata \<Rightarrow> string \<Rightarrow> int list" where
  "assigned g m = (case map_of (gMembers g) m of None \<Rightarrow> [] | Some x \<Rightarrow> mmAssignments x)"

definition member_ids :: "groupMetadata \<Rightarrow> string list" where
  "member_ids g = sort (mkeys (gMembers g))"

definition fairly_assigned :: "groupMetadata \<Rightarrow> bool" where
  "fairly_assigned g \<longleftrightarrow>
     (gMembers g \<noteq> [] \<longrightarrow>
      concat (map (assigned g) (member_ids g)) = gPartitions g \<and>
      list_all (\<lambda>m. length (assigned g m) = length (gPartitions g) div length (gMembers g) \<or>
                    length (assigned g m) = length (gPartitions g) div length (gMembers g) + 1) (member_ids g))"

fun deal :: "nat \<Rightarrow> nat \<Rightarrow> nat \<Rightarrow> 'a list \<Rightarrow> 'b list \<Rightarrow> ('b \<times> 'a list) list" where
  "deal per extra i parts [] = []"
| "deal per extra i parts (m # ms) =
     (let n = (if i < extra then per + 1 else per) in (m, take n parts) # deal per extra (Suc i) (drop n parts) ms)"

subsection \<open>The loop deals\<close>

lemma keys_deal [simp]: "map fst (deal per extra i parts ms) = ms"
  by (induction per extra i parts ms rule: deal.induct) (auto simp: Let_def)

lemma take_to_end: "take (min (i + n) (length xs) - i) (drop i xs) = take n (drop i xs)"
  by (cases "i + n \<le> length xs") (simp_all add: min_def)

lemma drop_past_take: "drop (i + length (take n (drop i xs))) xs = drop n (drop i xs)"
  by (cases "i + n \<le> length xs") (simp_all add: add.commute)

lemma rangeLoop_deal:
  assumes "distinct ids"
  shows "map_of (rangeLoop parts per extra i idx ids members) m =
    (case map_of (deal per extra i (drop idx parts) ids) m of
       None \<Rightarrow> map_of members m
     | Some a \<Rightarrow> map_option (\<lambda>x. x\<lparr>mmAssignments := a\<rparr>) (map_of members m))"
  using assms
proof (induction ids arbitrary: i idx members)
  case (Cons k ids)
  let ?n = "if i < extra then per + 1 else per"
  have slice: "(if idx < length parts
      then let stop = min (idx + ?n) (length parts) in take (stop - idx) (drop idx parts) else []) =
      take ?n (drop idx parts)"
    by (simp only: Let_def take_to_end) simp
  have fresh: "map_of (deal per extra j xs ids) k = None" for j and xs :: "int list"
    using Cons.prems by (simp add: map_of_eq_None_iff flip: set_map)
  let ?a = "take ?n (drop idx parts)"
  define members' where "members' =
    (case map_of members k of None \<Rightarrow> members | Some x \<Rightarrow> mput k (x\<lparr>mmAssignments := ?a\<rparr>) members)"
  have step: "rangeLoop parts per extra i idx (k # ids) members =
      rangeLoop parts per extra (Suc i) (idx + length ?a) ids members'"
    by (simp only: rangeLoop.simps Let_def members'_def slice [unfolded Let_def])
  have members': "map_of members' m =
      (if m = k then map_option (\<lambda>x. x\<lparr>mmAssignments := ?a\<rparr>) (map_of members k) else map_of members m)"
    by (simp add: members'_def split: option.split)
  have rest: "distinct ids" using Cons.prems by simp
  show ?case
    unfolding step Cons.IH [OF rest] drop_past_take members'
    by (cases "m = k") (simp_all add: Let_def fresh del: drop_drop)
qed simp

subsection \<open>What is dealt\<close>

lemma concat_deal: "concat (map snd (deal per extra i parts ms)) =
    take (per * length ms + (min extra (i + length ms) - min extra i)) parts"
proof (induction per extra i parts ms rule: deal.induct)
  case (2 per extra i parts m ms)
  let ?n = "if i < extra then per + 1 else per"
  have count: "?n + (per * length ms + (min extra (Suc i + length ms) - min extra (Suc i))) =
      per * length (m # ms) + (min extra (i + length (m # ms)) - min extra i)"
    by (auto simp: min_def)
  have "concat (map snd (deal per extra i parts (m # ms))) =
      take ?n parts @ take (per * length ms + (min extra (Suc i + length ms) - min extra (Suc i))) (drop ?n parts)"
    by (simp only: deal.simps Let_def list.map concat.simps snd_conv 2 [OF refl])
  then show ?case by (simp only: count [symmetric] take_add)
qed simp

lemma concat_deal_all:
  assumes "ms \<noteq> []"
  shows "concat (map snd (deal (length parts div length ms) (length parts mod length ms) 0 parts ms)) = parts"
proof -
  have "length parts mod length ms \<le> length ms" using assms by (simp add: less_imp_le)
  moreover have "length parts div length ms * length ms + length parts mod length ms = length parts" by simp
  ultimately show ?thesis by (simp add: concat_deal min_absorb1 del: div_mult_mod_eq)
qed

lemma length_dealt:
  assumes "per * length ms + (min extra (i + length ms) - min extra i) \<le> length parts"
    and "(m, a) \<in> set (deal per extra i parts ms)"
  shows "length a = per \<or> length a = per + 1"
  using assms
proof (induction per extra i parts ms rule: deal.induct)
  case (2 per extra i parts k ms)
  let ?n = "if i < extra then per + 1 else per"
  have room: "?n + (per * length ms + (min extra (Suc i + length ms) - min extra (Suc i))) \<le> length parts"
    using 2(2) by (auto simp: min_def split: if_splits)
  then have "per * length ms + (min extra (Suc i + length ms) - min extra (Suc i)) \<le> length (drop ?n parts)"
    by simp
  note IH = 2(1) [OF refl this]
  from 2(3) consider "a = take ?n parts" | "(m, a) \<in> set (deal per extra (Suc i) (drop ?n parts) ms)"
    by (auto simp: Let_def)
  then show ?case
  proof cases
    case 1
    with room show ?thesis by (auto split: if_splits)
  next
    case 2
    then show ?thesis by (rule IH)
  qed
qed simp

subsection \<open>Rebalancing\<close>

lemma rebalance_fields [simp]:
  "gTopicName (rebalance now g) = gTopicName g" "gGeneration (rebalance now g) = gGeneration g"
  "gPartitions (rebalance now g) = gPartitions g" "gOffsets (rebalance now g) = gOffsets g"
  "gRegistrationEpoch (rebalance now g) = gRegistrationEpoch g"
  "gOffsetRevisions (rebalance now g) = gOffsetRevisions g"
  "gLastActivity (rebalance now g) = now" "gLastRebalance (rebalance now g) = now"
  by (simp_all add: rebalance_def Let_def)

lemma mkeys_mput_present: "map_of m k \<noteq> None \<Longrightarrow> mkeys (mput k v m) = mkeys m"
  by (induction m) (auto simp: mkeys_def mput_def)

lemma mkeys_rangeLoop [simp]: "mkeys (rangeLoop parts per extra i idx ids members) = mkeys members"
  by (induction ids arbitrary: i idx members)
    (auto simp: Let_def mkeys_mput_present split: option.split)

lemma mkeys_rebalance [simp]: "mkeys (gMembers (rebalance now g)) = mkeys (gMembers g)"
  by (simp add: rebalance_def Let_def)

lemma member_ids_rebalance [simp]: "member_ids (rebalance now g) = member_ids g"
  by (simp add: member_ids_def)

lemma length_mkeys [simp]: "length (mkeys m) = length m"
  by (simp add: mkeys_def)

lemma length_rebalance [simp]: "length (gMembers (rebalance now g)) = length (gMembers g)"
  by (metis length_mkeys mkeys_rebalance)

lemma mwf_rebalance [simp]: "mwf (gMembers (rebalance now g)) = mwf (gMembers g)"
  unfolding mwf_def using mkeys_rebalance by (simp add: mkeys_def)

lemma mkeys_Nil_iff [simp]: "mkeys m = [] \<longleftrightarrow> m = []"
  by (simp add: mkeys_def)

lemma member_ids_Nil_iff [simp]: "member_ids g = [] \<longleftrightarrow> gMembers g = []"
  by (metis length_0_conv length_mkeys length_sort member_ids_def)

lemma assigned_member: "p \<in> set (assigned g m) \<Longrightarrow> m \<in> set (mkeys (gMembers g))"
  by (cases "map_of (gMembers g) m") (auto simp: assigned_def set_mkeys)

lemma rebalance_lookup:
  assumes "mwf (gMembers g)" and "gMembers g \<noteq> []"
  shows "map_of (gMembers (rebalance now g)) m =
    (case map_of (deal (length (gPartitions g) div length (member_ids g))
        (length (gPartitions g) mod length (member_ids g)) 0 (gPartitions g) (member_ids g)) m of
       None \<Rightarrow> map_of (gMembers g) m
     | Some a \<Rightarrow> map_option (\<lambda>x. x\<lparr>mmAssignments := a\<rparr>) (map_of (gMembers g) m))"
proof -
  have "distinct (member_ids g)"
    using assms(1) by (simp add: member_ids_def mwf_def mkeys_def)
  moreover have "member_ids g \<noteq> []" using assms(2) by simp
  ultimately show ?thesis
    by (simp add: rebalance_def Let_def rangeLoop_deal flip: member_ids_def)
qed

lemma rebalance_fairly_assigned:
  assumes wf: "mwf (gMembers g)"
  shows "fairly_assigned (rebalance now g)"
  unfolding fairly_assigned_def
proof
  assume "gMembers (rebalance now g) \<noteq> []"
  then have some: "gMembers g \<noteq> []" by (metis length_0_conv length_rebalance)
  let ?ms = "member_ids g" and ?ps = "gPartitions g"
  define dealt where "dealt = deal (length ?ps div length ?ms) (length ?ps mod length ?ms) 0 ?ps ?ms"
  have ms: "?ms \<noteq> []" "length ?ms = length (gMembers g)" "distinct ?ms"
    using some wf by simp_all (simp_all add: member_ids_def mwf_def mkeys_def)
  have keys: "map fst dealt = ?ms" by (simp add: dealt_def)
  have assigned: "assigned (rebalance now g) m = a" if "(m, a) \<in> set dealt" for m a
  proof -
    from that keys ms(3) have "map_of dealt m = Some a" by simp
    moreover from that keys have "m \<in> set ?ms" by (metis fst_conv image_eqI set_map)
    then obtain x where "map_of (gMembers g) m = Some x"
      by (auto simp: member_ids_def set_mkeys dom_def)
    ultimately show ?thesis
      using rebalance_lookup [OF wf some] by (simp add: assigned_def dealt_def)
  qed
  have all: "map (assigned (rebalance now g)) ?ms = map snd dealt"
    unfolding keys [symmetric] using assigned by (auto simp: map_eq_conv)
  have sizes: "length a = length ?ps div length (gMembers g) \<or> length a = length ?ps div length (gMembers g) + 1"
    if "(m, a) \<in> set dealt" for m a
    using length_dealt [of "length ?ps div length ?ms" ?ms "length ?ps mod length ?ms" 0 ?ps m a] that ms
    by (simp add: dealt_def min_absorb1 less_imp_le)
  have "list_all (\<lambda>m. length (assigned (rebalance now g) m) = length ?ps div length (gMembers g) \<or>
      length (assigned (rebalance now g) m) = length ?ps div length (gMembers g) + 1) ?ms"
    unfolding list_all_iff
  proof
    fix m assume "m \<in> set ?ms"
    then obtain a where a: "(m, a) \<in> set dealt" unfolding keys [symmetric] by auto
    then show "length (assigned (rebalance now g) m) = length ?ps div length (gMembers g) \<or>
      length (assigned (rebalance now g) m) = length ?ps div length (gMembers g) + 1"
      using assigned [OF a] sizes [OF a] by simp
  qed
  moreover have "concat (map (assigned (rebalance now g)) ?ms) = ?ps"
    unfolding all dealt_def using ms(1) by (rule concat_deal_all)
  ultimately show "concat (map (assigned (rebalance now g)) (member_ids (rebalance now g))) =
      gPartitions (rebalance now g) \<and>
      list_all (\<lambda>m. length (assigned (rebalance now g) m) =
           length (gPartitions (rebalance now g)) div length (gMembers (rebalance now g)) \<or>
         length (assigned (rebalance now g) m) =
           length (gPartitions (rebalance now g)) div length (gMembers (rebalance now g)) + 1)
       (member_ids (rebalance now g))" by simp
qed

text \<open>A fair assignment gives every partition exactly one owner.\<close>

lemma fairly_assigned_unique:
  assumes "fairly_assigned g" "distinct (gPartitions g)" "mwf (gMembers g)"
    and p: "p \<in> set (assigned g m)" "p \<in> set (assigned g m')"
  shows "m = m'"
proof (rule ccontr)
  assume "m \<noteq> m'"
  have ids: "k \<in> set (member_ids g)" if "p \<in> set (assigned g k)" for k
    using assigned_member [OF that] by (simp add: member_ids_def)
  with p have some: "gMembers g \<noteq> []" by (auto simp flip: member_ids_Nil_iff)
  with assms have d: "distinct (concat (map (assigned g) (member_ids g)))" by (simp add: fairly_assigned_def)
  from ids [OF p(1)] obtain xs ys where split: "member_ids g = xs @ m # ys" by (meson split_list)
  with ids [OF p(2)] \<open>m \<noteq> m'\<close> have "m' \<in> set xs \<or> m' \<in> set ys" by auto
  with d p show False unfolding split by auto
qed

lemma fairly_assigned_owner:
  assumes "fairly_assigned g" "gMembers g \<noteq> []" "p \<in> set (gPartitions g)"
  shows "\<exists>m. m \<in> set (mkeys (gMembers g)) \<and> p \<in> set (assigned g m)"
proof -
  from assms have "p \<in> set (concat (map (assigned g) (member_ids g)))" by (simp add: fairly_assigned_def)
  then show ?thesis by (auto simp: member_ids_def)
qed

lemma fairly_assigned_declared:
  assumes "fairly_assigned g" "p \<in> set (assigned g m)"
  shows "p \<in> set (gPartitions g)"
proof -
  have "m \<in> set (member_ids g)"
    using assigned_member [OF assms(2)] by (simp add: member_ids_def)
  moreover from this have "gMembers g \<noteq> []" by (auto simp flip: member_ids_Nil_iff)
  ultimately have "p \<in> set (concat (map (assigned g) (member_ids g)))" using assms(2) by auto
  with assms(1) \<open>gMembers g \<noteq> []\<close> show ?thesis by (simp add: fairly_assigned_def)
qed

lemma fairly_assigned_cong:
  assumes "gPartitions g' = gPartitions g" "mkeys (gMembers g') = mkeys (gMembers g)" "assigned g' = assigned g"
  shows "fairly_assigned g' = fairly_assigned g"
proof -
  have "length (gMembers g') = length (gMembers g)" using assms(2) by (metis length_mkeys)
  moreover from this have "(gMembers g' = []) = (gMembers g = [])" by (metis length_0_conv)
  ultimately show ?thesis using assms by (simp add: fairly_assigned_def member_ids_def)
qed

text \<open>C18: Rebalancing a consumer group divides its partitions among the members: read in member-name order
  the assignments are exactly the partition list of the group, cut into ranges whose sizes differ by at
  most one; every partition has exactly one owner, whatever the order in which the members are stored.\<close>

theorem rebalance_divides_partitions:
  fixes g :: groupMetadata and now :: instant
  assumes "mwf (gMembers g)" and "gMembers g \<noteq> []" and "distinct (gPartitions g)"
  defines "g' \<equiv> rebalance now g"
  shows "concat (map (assigned g') (member_ids g)) = gPartitions g \<and>
    (\<forall>m m'. m \<in> set (member_ids g) \<and> m' \<in> set (member_ids g) \<longrightarrow>
       length (assigned g' m) \<le> length (assigned g' m') + 1) \<and>
    (\<forall>p \<in> set (gPartitions g). \<exists>!m. p \<in> set (assigned g' m))"
proof (intro conjI ballI allI impI)
  have fair: "fairly_assigned g'" unfolding g'_def by (rule rebalance_fairly_assigned [OF assms(1)])
  have some: "gMembers g' \<noteq> []" unfolding g'_def using assms(2) by (metis length_0_conv length_rebalance)
  show "concat (map (assigned g') (member_ids g)) = gPartitions g"
    using fair some by (simp add: fairly_assigned_def g'_def)
  fix m m' assume m: "m \<in> set (member_ids g) \<and> m' \<in> set (member_ids g)"
  let ?q = "length (gPartitions g) div length (gMembers g)"
  have "length (assigned g' k) = ?q \<or> length (assigned g' k) = ?q + 1" if "k \<in> set (member_ids g)" for k
    using fair some that by (simp add: fairly_assigned_def list_all_iff g'_def)
  from this [of m] this [of m'] m show "length (assigned g' m) \<le> length (assigned g' m') + 1" by auto
next
  have fair: "fairly_assigned g'" unfolding g'_def by (rule rebalance_fairly_assigned [OF assms(1)])
  fix p assume "p \<in> set (gPartitions g)"
  moreover have "gMembers g' \<noteq> []" unfolding g'_def using assms(2) by (metis length_0_conv length_rebalance)
  ultimately have "\<exists>m. p \<in> set (assigned g' m)"
    using fairly_assigned_owner [OF fair] by (auto simp: g'_def)
  moreover have "m = m'" if "p \<in> set (assigned g' m)" "p \<in> set (assigned g' m')" for m m'
    using fairly_assigned_unique [OF fair _ _ that] assms(1,3) by (simp add: g'_def)
  ultimately show "\<exists>!m. p \<in> set (assigned g' m)" by blast
qed

definition witness_group :: groupMetadata where
  "witness_group = \<lparr>gTopicName = ''t'',
     gMembers = [(''b'', \<lparr>mmID = ''b'', mmLastHeartbeat = 1, mmAssignments = []\<rparr>),
                 (''a'', \<lparr>mmID = ''a'', mmLastHeartbeat = 1, mmAssignments = []\<rparr>)],
     gGeneration = 2, gPartitions = [0, 1, 2], gLastRebalance = 1, gLastActivity = 1, gOffsets = [],
     gRegistrationEpoch = 1, gOffsetRevisions = []\<rparr>"

theorem rebalance_divides_partitions_witness:
  "concat (map (assigned (rebalance 5 witness_group)) (member_ids witness_group)) = [0, 1, 2] \<and>
   length (assigned (rebalance 5 witness_group) ''a'') \<le> length (assigned (rebalance 5 witness_group) ''b'') + 1"
proof -
  have ids: "''a'' \<in> set (member_ids witness_group) \<and> ''b'' \<in> set (member_ids witness_group)"
    and parts: "gPartitions witness_group = [0, 1, 2]"
    by (simp_all add: witness_group_def member_ids_def mkeys_def)
  have "mwf (gMembers witness_group)" "gMembers witness_group \<noteq> []" "distinct (gPartitions witness_group)"
    by (simp_all add: witness_group_def mwf_def)
  note shared = rebalance_divides_partitions [OF this, of 5]
  show ?thesis
    using conjunct1 [OF shared] conjunct1 [OF conjunct2 [OF shared], rule_format, OF ids] parts by simp
qed

end
