(* ===== verification/Group_Invariant.thy ===== *)
theory Group_Invariant
  imports Group_Membership "HOL-Library.Product_Lexorder"
begin

section \<open>The invariant of the group coordinator\<close>

text \<open>
  The coordinator as a transition system: every public operation, and the two halves of a lifecycle change
  with other operations between them. \<open>lifecycleMu\<close> admits one lifecycle change at a time, so a state
  is the coordinator with at most one of them in flight. \<open>op_effect\<close> lists what an operation inside a
  group can do; the invariant and the fences are proved over it, not over the operations one by one.
\<close>

subsection \<open>The transition system\<close>

datatype lifecycle = Registering registration | Deleting deletion

type_synonym group_system = "coordinator \<times> lifecycle option"

text \<open>The commands that reach the coordinator carry a member name (\<open>handleJoinGroup\<close> refuses an empty one)
  and the clock is past the zero time; the metadata log is applied in distributed mode only.\<close>

inductive group_step :: "group_system \<Rightarrow> group_system \<Rightarrow> bool" where
  register_known: "0 < now \<Longrightarrow> RegisterGroup_begin now t n k c = Inr (c', None) \<Longrightarrow> group_step (c, None) (c', None)"
| register_start: "0 < now \<Longrightarrow> RegisterGroup_begin now t n k c = Inr (c', Some rg) \<Longrightarrow>
    group_step (c, None) (c', Some (Registering rg))"
| register_finish: "RegisterGroup_end rg ack c = (err, c') \<Longrightarrow> group_step (c, Some (Registering rg)) (c', None)"
| delete_unknown: "DeleteGroup_begin n c = Inr (c', None) \<Longrightarrow> group_step (c, None) (c', None)"
| delete_start: "DeleteGroup_begin n c = Inr (c', Some dg) \<Longrightarrow> group_step (c, None) (c', Some (Deleting dg))"
| delete_finish: "DeleteGroup_end now dg ack c = (err, c') \<Longrightarrow> group_step (c, Some (Deleting dg)) (c', None)"
| join: "0 < now \<Longrightarrow> m \<noteq> '''' \<Longrightarrow> AddConsumer now n m c = Inr (a, c') \<Longrightarrow> group_step (c, l) (c', l)"
| leave: "0 < now \<Longrightarrow> RemoveConsumer now n m c = Inr c' \<Longrightarrow> group_step (c, l) (c', l)"
| leave_generation: "0 < now \<Longrightarrow> RemoveConsumerForGeneration now n m gen c = Inr c' \<Longrightarrow> group_step (c, l) (c', l)"
| expire: "0 < now \<Longrightarrow> ExpireConsumers now n gen ms c = Inr c' \<Longrightarrow> group_step (c, l) (c', l)"
| timeouts: "0 < now \<Longrightarrow> checkSingleGroupTimeout owner now timeout n c = (c', request) \<Longrightarrow> group_step (c, l) (c', l)"
| force_rebalance: "0 < now \<Longrightarrow> Rebalance now n c = c' \<Longrightarrow> group_step (c, l) (c', l)"
| heartbeat: "0 < now \<Longrightarrow> RecordHeartbeatForGeneration now n m gen c = Inr c' \<Longrightarrow> group_step (c, l) (c', l)"
| resume: "0 < now \<Longrightarrow> ResumeConsumer now n m gen c = Inr (a, c') \<Longrightarrow> group_step (c, l) (c', l)"
| commit: "CommitOffset now ack n t p off c = Inr c' \<Longrightarrow> group_step (c, l) (c', l)"
| commit_bulk: "CommitOffsetsBulk now ack n t items c = Inr c' \<Longrightarrow> group_step (c, l) (c', l)"
| commit_fenced: "ValidateAndCommit now ack n t p off gen m c = Inr c' \<Longrightarrow> group_step (c, l) (c', l)"
| commit_bulk_fenced: "ValidateAndCommitOffsetsBulk now ack n t m gen items c = Inr c' \<Longrightarrow> group_step (c, l) (c', l)"
| commit_replicated: "\<not> cStandalone c \<Longrightarrow> ApplyFencedOffsetUpdateFromFSM n t m gen items c = Inr c' \<Longrightarrow>
    group_step (c, l) (c', l)"

definition group_start :: "bool \<Rightarrow> group_system" where
  "group_start standalone = (NewCoordinator standalone, None)"

subsection \<open>Well-formed states\<close>

definition offsets_wf :: "groupMetadata \<Rightarrow> bool" where
  "offsets_wf g \<longleftrightarrow>
     mwf (gOffsets g) \<and> mwf (gOffsetRevisions g) \<and>
     (\<forall>(t, ps) \<in> set (gOffsets g).
        groupTopicMatches (gTopicName g) t \<and> mwf ps \<and> fst ` set ps \<subseteq> set (gPartitions g)) \<and>
     (\<forall>(t, r) \<in> set (gOffsetRevisions g). groupTopicMatches (gTopicName g) t \<and> r \<noteq> 0)"

definition members_wf :: "groupMetadata \<Rightarrow> bool" where
  "members_wf g \<longleftrightarrow> mwf (gMembers g) \<and> '''' \<notin> set (mkeys (gMembers g)) \<and> fairly_assigned g \<and> 0 \<le> gGeneration g"

definition group_wf :: "groupMetadata \<Rightarrow> bool" where
  "group_wf g \<longleftrightarrow>
     gTopicName g \<noteq> '''' \<and> gRegistrationEpoch g \<noteq> 0 \<and> 0 < gLastActivity g \<and>
     gPartitions g \<noteq> [] \<and> gPartitions g = makePartitions (int (length (gPartitions g))) \<and>
     members_wf g \<and> offsets_wf g"

fun lifecycle_wf :: "coordinator \<Rightarrow> lifecycle option \<Rightarrow> bool" where
  "lifecycle_wf c None \<longleftrightarrow> cPending c = []"
| "lifecycle_wf c (Some (Registering rg)) \<longleftrightarrow>
     cPending c = [(rgGroup rg, True)] \<and> map_of (cGroups c) (rgGroup rg) = None \<and> \<not> rgExisting rg \<and>
     rgEpoch rg = groupEpoch c (rgGroup rg) + 1 \<and> rgEpoch rg \<noteq> 0 \<and> rgInitial rg = [] \<and>
     rgGroup rg \<noteq> '''' \<and> rgTopic rg \<noteq> '''' \<and> 0 < rgCount rg \<and> 0 < rgNow rg"
| "lifecycle_wf c (Some (Deleting dg)) \<longleftrightarrow>
     cPending c = [(dgGroup dg, True)] \<and> dgEpoch dg = groupEpoch c (dgGroup dg) + 1 \<and> dgEpoch dg \<noteq> 0 \<and>
     (case map_of (cGroups c) (dgGroup dg) of None \<Rightarrow> False | Some g \<Rightarrow> gMembers g = [] \<and> dgTopic dg = gTopicName g)"

fun group_sys_wf :: "group_system \<Rightarrow> bool" where
  "group_sys_wf (c, l) \<longleftrightarrow>
     mwf (cGroups c) \<and> mwf (cEpochs c) \<and>
     (\<forall>(n, g) \<in> set (cGroups c). n \<noteq> '''' \<and> group_wf g \<and> gRegistrationEpoch g = groupEpoch c n) \<and>
     (\<forall>(n, e) \<in> set (cEpochs c). n \<noteq> '''' \<and> e \<noteq> 0) \<and>
     lifecycle_wf c l"

subsection \<open>What an operation inside a group does\<close>

definition item_pairs :: "offsetItem list \<Rightarrow> (int \<times> u64) list" where
  "item_pairs items = map (\<lambda>i. (oiPartition i, oiOffset i)) items"

definition agree :: "coordinator \<Rightarrow> coordinator \<Rightarrow> bool" where
  "agree c c' \<longleftrightarrow> cGroups c' = cGroups c \<and> cEpochs c' = cEpochs c \<and> cPending c' = cPending c \<and>
     cStandalone c' = cStandalone c \<and> cLog c' = cLog c"

text \<open>A commit passed its checks: the topic belongs to the group, no partition appears twice or moves
  back, every partition is in range or owned.\<close>

definition commit_valid :: "groupMetadata \<Rightarrow> string \<Rightarrow> offsetItem list \<Rightarrow> bool" where
  "commit_valid g t items \<longleftrightarrow>
     validateGroupTopic g t \<and> validateOffsetBatch {} g t items = None \<and>
     (\<forall>i \<in> set items. inRange g (oiPartition i) \<or> (\<exists>m. memberOwns g m (oiPartition i)))"

inductive op_effect :: "coordinator \<Rightarrow> coordinator \<Rightarrow> bool" where
  unchanged: "agree c c' \<Longrightarrow> op_effect c c'"
| membership: "map_of (cGroups c) n = Some g \<Longrightarrow> 0 < now \<Longrightarrow>
    (mwf (gMembers g) \<Longrightarrow> mwf ms) \<Longrightarrow> set (mkeys ms) \<subseteq> insert m (set (mkeys (gMembers g))) \<Longrightarrow> m \<noteq> '''' \<Longrightarrow>
    \<not> isPending c n \<or> gMembers g \<noteq> [] \<Longrightarrow>
    agree (put_group n (rebalance now (g\<lparr>gMembers := ms, gGeneration := gGeneration g + 1\<rparr>)) c) c' \<Longrightarrow>
    op_effect c c'"
| rebalanced: "map_of (cGroups c) n = Some g \<Longrightarrow> 0 < now \<Longrightarrow>
    agree (put_group n (rebalance now g) c) c' \<Longrightarrow> op_effect c c'"
| refreshed: "map_of (cGroups c) n = Some g \<Longrightarrow> map_of (gMembers g) m = Some x \<Longrightarrow> 0 < now \<Longrightarrow>
    agree (put_group n (g\<lparr>gMembers := mput m (x\<lparr>mmLastHeartbeat := now\<rparr>) (gMembers g), gLastActivity := now\<rparr>) c) c' \<Longrightarrow>
    op_effect c c'"
| replicated: "map_of (cGroups c) n = Some g \<Longrightarrow> \<not> isPending c n \<Longrightarrow> \<not> cStandalone c \<Longrightarrow> commit_valid g t items \<Longrightarrow>
    agree (put_group n (storeOffsets t items g) c) c' \<Longrightarrow> op_effect c c'"
| durable: "map_of (cGroups c) n = Some g \<Longrightarrow> \<not> isPending c n \<Longrightarrow> cStandalone c \<Longrightarrow> commit_valid g t items \<Longrightarrow>
    commitDurable now True n t items g c = Inr c' \<Longrightarrow> op_effect c c'"

lemma agree_refl [simp, intro]: "agree c c"
  by (simp add: agree_def)

lemma agree_trans: "agree a b \<Longrightarrow> agree b c \<Longrightarrow> agree a c"
  by (simp add: agree_def)

lemma agree_put_group: "agree c c' \<Longrightarrow> agree (put_group n g c) (put_group n g c')"
  by (simp add: agree_def put_group_def)

lemma put_group_fields [simp]:
  "cGroups (put_group n g c) = mput n g (cGroups c)" "cEpochs (put_group n g c) = cEpochs c"
  "cPending (put_group n g c) = cPending c" "cStandalone (put_group n g c) = cStandalone c"
  "cLog (put_group n g c) = cLog c" "cOwnershipSince (put_group n g c) = cOwnershipSince c"
  "cOffsetPartitions (put_group n g c) = cOffsetPartitions c"
  by (simp_all add: put_group_def)

lemma put_group_twice [simp]: "put_group n g' (put_group n g c) = put_group n g' c"
proof -
  have "mput n g' (mput n g m) = mput n g' m" for m :: "(string, groupMetadata) gomap"
    by (induction m) (auto simp: mput_def)
  then show ?thesis by (simp add: put_group_def)
qed

lemma rebalanceRange_put [simp]: "rebalanceRange now n (put_group n g c) = put_group n (rebalance now g) c"
  by (simp add: rebalanceRange_def)

lemma agree_updateOffsetPartitionCount [simp, intro]: "agree c (updateOffsetPartitionCount c)"
  by (simp add: updateOffsetPartitionCount_def agree_def)

lemma agree_ownership [simp, intro]: "agree c (c\<lparr>cOwnershipSince := x\<rparr>)"
  by (simp add: agree_def)

lemma map_of_not_Nil: "map_of m k = Some v \<Longrightarrow> m \<noteq> []"
  by auto

lemma AddConsumer_effect:
  assumes "AddConsumer now n m c = Inr (a, c')" "0 < now" "m \<noteq> ''''"
  shows "op_effect c c'"
proof -
  from assms(1) obtain g where g: "map_of (cGroups c) n = Some g" "\<not> isPending c n"
    and c': "c' = put_group n (rebalance now (g\<lparr>gMembers :=
        mput m \<lparr>mmID = m, mmLastHeartbeat = now, mmAssignments = []\<rparr> (gMembers g), gGeneration := gGeneration g + 1\<rparr>)) c"
    by (auto simp: AddConsumer_def Let_def split: if_splits option.splits)
  show ?thesis
    unfolding c'
    by (rule op_effect.membership [OF g(1) assms(2) _ _ assms(3) disjI1 [OF g(2)] agree_refl])
      (auto simp: set_mkeys)
qed

lemma removeConsumer_effect:
  assumes "removeConsumer now n m c = Inr c1" "agree c1 c'" "0 < now"
  shows "op_effect c c'"
proof -
  from assms(1) obtain g x where g: "map_of (cGroups c) n = Some g" and x: "map_of (gMembers g) m = Some x"
    and c1: "c1 = put_group n (rebalance now
        (g\<lparr>gMembers := mdel m (gMembers g), gGeneration := gGeneration g + 1\<rparr>)) c"
    by (auto simp: removeConsumer_def split: if_splits option.splits)
  show ?thesis
    by (rule op_effect.membership [where m = "''m''", OF g assms(3) _ _ _ disjI2 [OF map_of_not_Nil [OF x]] assms(2) [unfolded c1]])
      (auto simp: set_mkeys)
qed

lemma RemoveConsumer_effect:
  assumes "RemoveConsumer now n m c = Inr c'" "0 < now"
  shows "op_effect c c'"
  using assms removeConsumer_effect [OF _ agree_updateOffsetPartitionCount]
  by (auto simp: RemoveConsumer_def split: sum.splits)

lemma removeMembers_wf: "mwf m \<Longrightarrow> mwf (fst (removeMembers ids m))"
  by (induction ids m rule: removeMembers.induct) (auto simp: Let_def split: prod.split)

lemma removeMembers_keys: "set (mkeys (fst (removeMembers ids m))) \<subseteq> set (mkeys m)"
proof (induction ids m rule: removeMembers.induct)
  case (2 k rest m)
  have "set (mkeys (mdel k m)) \<subseteq> set (mkeys m)" by (auto simp: set_mkeys)
  moreover have "fst (removeMembers (k # rest) m) =
      fst (removeMembers rest (if map_of m k = None then m else mdel k m))" by (simp add: Let_def split_beta)
  ultimately show ?case using 2 by (cases "map_of m k = None") auto
qed simp

lemma removeMembers_Nil [simp]: "removeMembers ids [] = ([], 0)"
  by (induction ids) auto

lemma ExpireConsumers_effect:
  assumes "ExpireConsumers now n gen ids c = Inr c'" "0 < now"
  shows "op_effect c c'"
proof -
  obtain ms k where rm: "removeMembers ids (gMembers (the (map_of (cGroups c) n))) = (ms, k)" by fastforce
  from assms(1) rm obtain g where g: "map_of (cGroups c) n = Some g"
    and cases: "c' = c \<or> gMembers g \<noteq> [] \<and>
      c' = put_group n (rebalance now (g\<lparr>gMembers := ms, gGeneration := gGeneration g + 1\<rparr>)) c"
    by (cases "gMembers (the (map_of (cGroups c) n)) = []")
      (auto simp: ExpireConsumers_def Let_def split: if_splits option.splits)
  from cases show ?thesis
  proof
    assume "c' = c"
    then show ?thesis by (simp add: op_effect.unchanged)
  next
    assume c': "gMembers g \<noteq> [] \<and>
      c' = put_group n (rebalance now (g\<lparr>gMembers := ms, gGeneration := gGeneration g + 1\<rparr>)) c"
    have ms: "ms = fst (removeMembers ids (gMembers g))" using rm g by simp
    show ?thesis
      by (rule op_effect.membership [where m = "''m''" and ms = ms, OF g assms(2)])
        (use c' removeMembers_wf removeMembers_keys [of ids "gMembers g"] ms in auto)
  qed
qed

lemma checkSingleGroupTimeout_effect:
  assumes "checkSingleGroupTimeout owner now timeout n c = (c', request)" "0 < now"
  shows "op_effect c c'"
proof (cases "cStandalone c")
  case True
  then have owns: "ownsGroupSession owner n now timeout c = (True, c)" by (simp add: ownsGroupSession_def)
  from assms(1) True consider "c' = c" | gen ids where "ExpireConsumers now n gen ids c = Inr c'"
    by (auto simp: checkSingleGroupTimeout_def owns Let_def split: option.splits if_splits sum.splits)
  then show ?thesis by cases (auto intro: op_effect.unchanged ExpireConsumers_effect assms(2))
next
  case False
  obtain owns c1 where c1: "ownsGroupSession owner n now timeout c = (owns, c1)" by fastforce
  then have "agree c c1" using False by (auto simp: ownsGroupSession_def split: if_splits option.splits)
  moreover from this False have "\<not> cStandalone c1" by (simp add: agree_def)
  with assms(1) c1 have "c' = c1"
    by (auto simp: checkSingleGroupTimeout_def Let_def split: option.splits if_splits)
  ultimately show ?thesis by (simp add: op_effect.unchanged)
qed

lemma rebalanceRange_effect: "0 < now \<Longrightarrow> op_effect c (rebalanceRange now n c)"
  by (auto simp: rebalanceRange_def intro: op_effect.unchanged op_effect.rebalanced split: option.split)

lemma touchMember_effect: "0 < now \<Longrightarrow> op_effect c (touchMember now n m c)"
  by (auto simp: touchMember_def intro: op_effect.unchanged op_effect.refreshed split: option.split)

lemma single_valid:
  assumes "validateGroupTopic g t" "inRange g p"
    "\<not> (case getOffset g t p of None \<Rightarrow> False | Some current \<Rightarrow> off < current)"
  shows "commit_valid g t [\<lparr>oiPartition = p, oiOffset = off\<rparr>]"
  using assms by (cases "getOffset g t p") (auto simp: commit_valid_def)

lemma commitDurable_ack: "cStandalone c \<Longrightarrow> commitDurable now ack n t items g c = Inr c' \<Longrightarrow>
    commitDurable now True n t items g c = Inr c'"
  by (auto simp: commitDurable_def writeRecord_def Let_def split: option.splits if_splits)

lemma commitOffsetForGroup_effect:
  assumes "commitOffsetForGroup now ack g n t p off c = Inr c'" "map_of (cGroups c) n = Some g" "\<not> isPending c n"
  shows "op_effect c c'"
proof -
  let ?items = "[\<lparr>oiPartition = p, oiOffset = off\<rparr>]"
  from assms(1) have valid: "commit_valid g t ?items"
    and cases: "c' = c \<or> cStandalone c \<and> commitDurable now ack n t ?items g c = Inr c' \<or>
      \<not> cStandalone c \<and> c' = put_group n (storeOffsets t ?items g) c"
    by (auto simp: commitOffsetForGroup_def storeOffsets_def intro!: single_valid split: if_splits)
  from cases consider "c' = c" | "cStandalone c" "commitDurable now True n t ?items g c = Inr c'"
    | "\<not> cStandalone c" "c' = put_group n (storeOffsets t ?items g) c"
    using commitDurable_ack by blast
  then show ?thesis
  proof cases
    case 1
    then show ?thesis by (simp add: op_effect.unchanged)
  next
    case 2
    show ?thesis by (rule op_effect.durable [OF assms(2,3) 2(1) valid 2(2)])
  next
    case 3
    show ?thesis unfolding 3(2) by (rule op_effect.replicated [OF assms(2,3) 3(1) valid agree_refl])
  qed
qed

lemma commitOffsetsBulkForGroup_effect:
  assumes "commitOffsetsBulkForGroup now ack g n t items c = Inr c'" "map_of (cGroups c) n = Some g" "\<not> isPending c n"
  shows "op_effect c c'"
proof -
  from assms(1) have valid: "commit_valid g t items"
    and cases: "c' = c \<or> cStandalone c \<and> commitDurable now ack n t items g c = Inr c' \<or>
      \<not> cStandalone c \<and> c' = put_group n (storeOffsets t items g) c"
    by (auto simp: commitOffsetsBulkForGroup_def commit_valid_def list_ex_iff split: if_splits option.splits)
  from cases consider "c' = c" | "cStandalone c" "commitDurable now True n t items g c = Inr c'"
    | "\<not> cStandalone c" "c' = put_group n (storeOffsets t items g) c"
    using commitDurable_ack by blast
  then show ?thesis
  proof cases
    case 1
    then show ?thesis by (simp add: op_effect.unchanged)
  next
    case 2
    show ?thesis by (rule op_effect.durable [OF assms(2,3) 2(1) valid 2(2)])
  next
    case 3
    show ?thesis unfolding 3(2) by (rule op_effect.replicated [OF assms(2,3) 3(1) valid agree_refl])
  qed
qed

lemma validateMemberGeneration_None:
  "validateMemberGeneration n m gen c = None \<longleftrightarrow>
   (\<exists>g x. map_of (cGroups c) n = Some g \<and> m \<noteq> '''' \<and> map_of (gMembers g) m = Some x \<and>
      (gen \<ge> 0 \<longrightarrow> gGeneration g = gen))"
  by (auto simp: validateMemberGeneration_def split: option.splits)

lemma ApplyFenced_effect:
  assumes "ApplyFencedOffsetUpdateFromFSM n t m gen items c = Inr c'" "\<not> cStandalone c"
  shows "op_effect c c'"
proof -
  from assms(1) obtain g where g: "map_of (cGroups c) n = Some g" "\<not> isPending c n"
    and valid: "commit_valid g t items" and c': "c' = put_group n (storeOffsets t items g) c"
    by (auto simp: ApplyFencedOffsetUpdateFromFSM_def validateMemberGeneration_None commit_valid_def list_ex_iff Let_def
        split: if_splits option.splits)
  show ?thesis unfolding c' by (rule op_effect.replicated [OF g assms(2) valid agree_refl])
qed

text \<open>Every step that is not part of a lifecycle change is such an effect.\<close>

lemma group_step_cases:
  assumes "group_step (c, l) (c', l')"
  obtains (effect) "l' = l" "op_effect c c'"
  | (register_known) now t n k where "l = None" "l' = None" "0 < now" "RegisterGroup_begin now t n k c = Inr (c', None)"
  | (register_start) now t n k rg where "l = None" "l' = Some (Registering rg)" "0 < now"
      "RegisterGroup_begin now t n k c = Inr (c', Some rg)"
  | (register_finish) rg ack err where "l = Some (Registering rg)" "l' = None" "RegisterGroup_end rg ack c = (err, c')"
  | (delete_start) n dg where "l = None" "l' = Some (Deleting dg)" "DeleteGroup_begin n c = Inr (c', Some dg)"
  | (delete_finish) now dg ack err where "l = Some (Deleting dg)" "l' = None" "DeleteGroup_end now dg ack c = (err, c')"
  using assms
proof cases
  case (delete_unknown n)
  then have "c' = c" by (auto simp: DeleteGroup_begin_def Let_def split: if_splits option.splits)
  with delete_unknown show ?thesis using effect by (simp add: op_effect.unchanged)
next
  case (leave_generation now n m gen)
  then show ?thesis using effect RemoveConsumer_effect
    by (auto simp: RemoveConsumerForGeneration_def split: option.splits)
next
  case (heartbeat now n m gen)
  then show ?thesis using effect touchMember_effect
    by (auto simp: RecordHeartbeatForGeneration_def split: option.splits)
next
  case (resume now n m gen a)
  then show ?thesis using effect touchMember_effect
    by (auto simp: ResumeConsumer_def split: option.splits)
next
  case (commit now ack n t p off)
  then show ?thesis using effect commitOffsetForGroup_effect
    by (auto simp: CommitOffset_def split: option.splits if_splits)
next
  case (commit_bulk now ack n t items)
  then show ?thesis using effect commitOffsetsBulkForGroup_effect
    by (auto simp: CommitOffsetsBulk_def intro: op_effect.unchanged split: option.splits if_splits)
next
  case (commit_fenced now ack n t p off gen m)
  then show ?thesis using effect commitOffsetForGroup_effect
    by (auto simp: ValidateAndCommit_def validateMemberGeneration_None Let_def split: option.splits if_splits)
next
  case (commit_bulk_fenced now ack n t m gen items)
  then show ?thesis using effect commitOffsetsBulkForGroup_effect
    by (auto simp: ValidateAndCommitOffsetsBulk_def validateMemberGeneration_None Let_def split: option.splits if_splits)
next
  case (join now m n a)
  then show ?thesis using effect AddConsumer_effect by blast
next
  case (leave now n m)
  then show ?thesis using effect RemoveConsumer_effect by blast
next
  case (expire now n gen ms)
  then show ?thesis using effect ExpireConsumers_effect by blast
next
  case (timeouts now owner timeout n request)
  then show ?thesis using effect checkSingleGroupTimeout_effect by blast
next
  case (force_rebalance now n)
  then show ?thesis using effect rebalanceRange_effect by (auto simp: Rebalance_def)
next
  case (commit_replicated n t m gen items)
  then show ?thesis using effect ApplyFenced_effect by blast
qed (use register_known register_start register_finish delete_start delete_finish in blast)+

subsection \<open>The invariant is kept inside a group\<close>

lemma ball_mput:
  assumes "\<forall>(k, v) \<in> set m. P k v" "P k' v'"
  shows "\<forall>(k, v) \<in> set (mput k' v' m). P k v"
  using assms by (induction m) (auto simp: mput_def)

lemma ball_map_of: "\<forall>(k, v) \<in> set m. P k v \<Longrightarrow> map_of m k = Some v \<Longrightarrow> P k v"
  by (auto dest: map_of_SomeD)

lemma set_makePartitions: "set (makePartitions k) = {0..<k}"
proof -
  have "int ` {0..<nat k} = {0..<k}" by (cases "0 \<le> k") (auto simp: image_int_atLeastLessThan)
  then show ?thesis by (simp add: makePartitions_def)
qed

lemma distinct_makePartitions [simp]: "distinct (makePartitions k)"
  by (simp add: makePartitions_def distinct_map inj_on_def)

lemma length_makePartitions [simp]: "length (makePartitions k) = nat k"
  by (simp add: makePartitions_def)

lemma inRange_declared: "group_wf g \<Longrightarrow> inRange g p \<longleftrightarrow> p \<in> set (gPartitions g)"
proof -
  assume "group_wf g"
  then have "set (gPartitions g) = {0..<int (length (gPartitions g))}"
    using set_makePartitions [of "int (length (gPartitions g))"] by (simp add: group_wf_def)
  then show ?thesis by (auto simp: inRange_def)
qed

lemma group_wf_distinct: "group_wf g \<Longrightarrow> distinct (gPartitions g)"
  unfolding group_wf_def by (metis distinct_makePartitions)

lemma memberOwns_assigned: "memberOwns g m p \<longleftrightarrow> p \<in> set (assigned g m)"
  by (simp add: memberOwns_def assigned_def split: option.split)

lemma commit_valid_declared:
  "group_wf g \<Longrightarrow> commit_valid g t items \<Longrightarrow> i \<in> set items \<Longrightarrow> oiPartition i \<in> set (gPartitions g)"
  by (auto simp: commit_valid_def inRange_declared memberOwns_assigned group_wf_def members_wf_def
      intro: fairly_assigned_declared)

lemma storeOffset_fields [simp]:
  "gTopicName (storeOffset t p off g) = gTopicName g" "gMembers (storeOffset t p off g) = gMembers g"
  "gGeneration (storeOffset t p off g) = gGeneration g" "gPartitions (storeOffset t p off g) = gPartitions g"
  "gLastActivity (storeOffset t p off g) = gLastActivity g"
  "gLastRebalance (storeOffset t p off g) = gLastRebalance g"
  "gRegistrationEpoch (storeOffset t p off g) = gRegistrationEpoch g"
  "gOffsetRevisions (storeOffset t p off g) = gOffsetRevisions g"
  by (simp_all add: storeOffset_def Let_def)

lemma storeOffsets_Nil [simp]: "storeOffsets t [] g = g"
  by (simp add: storeOffsets_def)

lemma storeOffsets_Cons [simp]:
  "storeOffsets t (i # items) g = storeOffsets t items (storeOffset t (oiPartition i) (oiOffset i) g)"
  by (simp add: storeOffsets_def)

lemma storeOffsets_fields [simp]:
  "gTopicName (storeOffsets t items g) = gTopicName g" "gMembers (storeOffsets t items g) = gMembers g"
  "gGeneration (storeOffsets t items g) = gGeneration g" "gPartitions (storeOffsets t items g) = gPartitions g"
  "gLastActivity (storeOffsets t items g) = gLastActivity g"
  "gLastRebalance (storeOffsets t items g) = gLastRebalance g"
  "gRegistrationEpoch (storeOffsets t items g) = gRegistrationEpoch g"
  "gOffsetRevisions (storeOffsets t items g) = gOffsetRevisions g"
  by (induction items arbitrary: g) simp_all

lemma storeOffset_wf:
  assumes "offsets_wf g" "groupTopicMatches (gTopicName g) t" "p \<in> set (gPartitions g)"
  shows "offsets_wf (storeOffset t p off g)"
proof -
  let ?P = "\<lambda>t ps. groupTopicMatches (gTopicName g) t \<and> mwf ps \<and> fst ` set ps \<subseteq> set (gPartitions g)"
  define ps where "ps = (case map_of (gOffsets g) t of None \<Rightarrow> [] | Some ps \<Rightarrow> ps)"
  have all: "\<forall>(t, ps) \<in> set (gOffsets g). ?P t ps" using assms(1) unfolding offsets_wf_def by blast
  have ps: "mwf ps \<and> fst ` set ps \<subseteq> set (gPartitions g)"
  proof (cases "map_of (gOffsets g) t")
    case (Some qs)
    from ball_map_of [OF all Some] Some show ?thesis by (simp add: ps_def)
  qed (simp add: ps_def)
  then have "set (mkeys (mput p off ps)) \<subseteq> set (gPartitions g)"
    using assms(3) by (auto simp: set_mkeys dom_map_of_conv_image_fst)
  then have "?P t (mput p off ps)" using ps assms(2) by (simp add: mkeys_def)
  from ball_mput [OF all this] assms(1) show ?thesis
    by (simp only: offsets_wf_def storeOffset_def Let_def groupMetadata.simps mwf_mput flip: ps_def)
      (simp add: offsets_wf_def)
qed

lemma storeOffsets_wf:
  assumes "offsets_wf g" "groupTopicMatches (gTopicName g) t" "\<forall>i \<in> set items. oiPartition i \<in> set (gPartitions g)"
  shows "offsets_wf (storeOffsets t items g)"
  using assms by (induction items arbitrary: g) (simp_all add: storeOffset_wf)

lemma members_wf_cong:
  "gMembers g' = gMembers g \<Longrightarrow> gPartitions g' = gPartitions g \<Longrightarrow> gGeneration g' = gGeneration g \<Longrightarrow>
   members_wf g' = members_wf g"
  by (simp add: members_wf_def fairly_assigned_def member_ids_def assigned_def [abs_def])

lemma offsets_wf_cong:
  "gOffsets g' = gOffsets g \<Longrightarrow> gPartitions g' = gPartitions g \<Longrightarrow> gTopicName g' = gTopicName g \<Longrightarrow>
   gOffsetRevisions g' = gOffsetRevisions g \<Longrightarrow> offsets_wf g' = offsets_wf g"
  by (simp add: offsets_wf_def)

lemma rebalance_wf:
  assumes "group_wf g" "0 < now" "mwf ms" "'''' \<notin> set (mkeys ms)" "gGeneration g \<le> gen"
  shows "group_wf (rebalance now (g\<lparr>gMembers := ms, gGeneration := gen\<rparr>))"
proof -
  let ?g = "g\<lparr>gMembers := ms, gGeneration := gen\<rparr>"
  have "members_wf (rebalance now ?g)"
    using rebalance_fairly_assigned [of ?g now] assms by (simp add: members_wf_def group_wf_def)
  moreover have "offsets_wf (rebalance now ?g) = offsets_wf g" by (rule offsets_wf_cong) simp_all
  ultimately show ?thesis using assms by (simp add: group_wf_def)
qed

lemma refresh_wf:
  assumes "group_wf g" "map_of (gMembers g) m = Some x" "0 < now"
  shows "group_wf (g\<lparr>gMembers := mput m (x\<lparr>mmLastHeartbeat := now\<rparr>) (gMembers g), gLastActivity := now\<rparr>)"
proof -
  let ?g = "g\<lparr>gMembers := mput m (x\<lparr>mmLastHeartbeat := now\<rparr>) (gMembers g), gLastActivity := now\<rparr>"
  have keys: "mkeys (gMembers ?g) = mkeys (gMembers g)" using assms(2) by (simp add: mkeys_mput_present)
  moreover have "assigned ?g = assigned g" using assms(2) by (auto simp: assigned_def fun_eq_iff)
  ultimately have "fairly_assigned ?g = fairly_assigned g" by (intro fairly_assigned_cong) simp_all
  with keys have "members_wf ?g" using assms(1) by (simp add: members_wf_def group_wf_def)
  moreover have "offsets_wf ?g = offsets_wf g" by (rule offsets_wf_cong) simp_all
  ultimately show ?thesis using assms by (simp add: group_wf_def)
qed

lemma commit_wf:
  assumes "group_wf g" "commit_valid g t items"
  shows "group_wf (storeOffsets t items g)"
proof -
  have "groupTopicMatches (gTopicName g) t" using assms by (simp add: group_wf_def commit_valid_def validateGroupTopic_def)
  moreover have "\<forall>i \<in> set items. oiPartition i \<in> set (gPartitions g)" using commit_valid_declared assms by blast
  ultimately have "offsets_wf (storeOffsets t items g)" using assms(1) by (intro storeOffsets_wf) (simp_all add: group_wf_def)
  moreover have "members_wf (storeOffsets t items g) = members_wf g" by (rule members_wf_cong) simp_all
  ultimately show ?thesis using assms(1) by (simp add: group_wf_def)
qed

lemma revision_wf:
  assumes "group_wf g" "groupTopicMatches (gTopicName g) t" "r \<noteq> 0"
  shows "group_wf (g\<lparr>gOffsetRevisions := mput t r (gOffsetRevisions g)\<rparr>)"
proof -
  have "offsets_wf (g\<lparr>gOffsetRevisions := mput t r (gOffsetRevisions g)\<rparr>)"
    using assms ball_mput [where P = "\<lambda>t r. groupTopicMatches (gTopicName g) t \<and> r \<noteq> 0" and
        m = "gOffsetRevisions g" and k' = t and v' = r]
    by (simp add: offsets_wf_def group_wf_def)
  moreover have "members_wf (g\<lparr>gOffsetRevisions := mput t r (gOffsetRevisions g)\<rparr>) = members_wf g"
    by (rule members_wf_cong) simp_all
  ultimately show ?thesis using assms by (simp add: group_wf_def)
qed

subsection \<open>The invariant is kept by every step\<close>

lemma sys_wf_group:
  assumes "group_sys_wf (c, l)" "map_of (cGroups c) n = Some g"
  shows "n \<noteq> '''' \<and> group_wf g \<and> gRegistrationEpoch g = groupEpoch c n"
proof -
  have "\<forall>(n, g) \<in> set (cGroups c). n \<noteq> '''' \<and> group_wf g \<and> gRegistrationEpoch g = groupEpoch c n"
    using assms(1) unfolding group_sys_wf.simps by (elim conjE)
  from ball_map_of [OF this assms(2)] show ?thesis .
qed

lemma put_group_wf:
  assumes wf: "group_sys_wf (c, l)" and g: "map_of (cGroups c) n = Some g"
    and g': "group_wf g'" "gRegistrationEpoch g' = gRegistrationEpoch g" "gTopicName g' = gTopicName g"
    and empty: "isPending c n \<Longrightarrow> gMembers g = [] \<Longrightarrow> gMembers g' = []"
    and c': "cGroups c' = mput n g' (cGroups c)" "cEpochs c' = cEpochs c" "cPending c' = cPending c"
  shows "group_sys_wf (c', l)"
proof -
  have epoch: "groupEpoch c' = groupEpoch c" using c' by (simp add: groupEpoch_def fun_eq_iff)
  let ?P = "\<lambda>n g. n \<noteq> '''' \<and> group_wf g \<and> gRegistrationEpoch g = groupEpoch c n"
  have "\<forall>(n, g) \<in> set (cGroups c). ?P n g" using wf unfolding group_sys_wf.simps by (elim conjE)
  moreover have "?P n g'" using sys_wf_group [OF wf g] g' by simp
  ultimately have groups: "\<forall>(n, g) \<in> set (cGroups c'). ?P n g" unfolding c' by (rule ball_mput)
  have "lifecycle_wf c' l"
  proof (cases "(c, l)" rule: lifecycle_wf.cases)
    case (2 _ rg)
    with wf g c' epoch show ?thesis by (auto simp: fun_upd_def)
  next
    case (3 _ dg)
    with wf g c' epoch empty g' show ?thesis
      by (auto simp: isPending_def split: option.splits if_splits)
  qed (use wf c' in auto)
  moreover have "mwf (cGroups c')" using wf by (simp add: c')
  ultimately show ?thesis
    using wf groups unfolding group_sys_wf.simps epoch c'(2) by (elim conjE) (intro conjI, assumption+)
qed

lemma agree_fields:
  "agree c c' \<Longrightarrow> cGroups c' = cGroups c" "agree c c' \<Longrightarrow> cEpochs c' = cEpochs c"
  "agree c c' \<Longrightarrow> cPending c' = cPending c" "agree c c' \<Longrightarrow> cStandalone c' = cStandalone c"
  "agree c c' \<Longrightarrow> cLog c' = cLog c"
  by (simp_all add: agree_def)

lemma agree_wf:
  assumes "group_sys_wf (c, l)" "agree c c'"
  shows "group_sys_wf (c', l)"
proof -
  have "groupEpoch c' = groupEpoch c" using assms(2) by (simp add: groupEpoch_def fun_eq_iff agree_def)
  moreover have "lifecycle_wf c' l = lifecycle_wf c l"
    using calculation assms(2) by (cases "(c, l)" rule: lifecycle_wf.cases) (simp_all add: agree_def)
  ultimately show ?thesis using assms by (simp add: agree_def)
qed

text \<open>A durable commit, spelled out.\<close>

lemma commitDurable_Inr:
  assumes "commitDurable now True n t items g c = Inr c'" "cStandalone c"
  obtains msg where
    "encodeRecord (offsetRecord now n t (gRegistrationEpoch g) (offsetRevision g t + 1) (mergedOffsetSnapshot g t items)) = Some msg"
    "c' = (put_group n ((storeOffsets t items g)\<lparr>gOffsetRevisions :=
        mput t (offsetRevision g t + 1) (gOffsetRevisions g)\<rparr>) c)\<lparr>cLog := cLog c @ [msg]\<rparr>"
  using assms by (auto simp: commitDurable_def writeRecord_def put_group_def Let_def split: option.splits)

lemma encodeRecord_offset_revision:
  assumes "encodeRecord (offsetRecord now n t e r items) = Some msg"
  shows "r \<noteq> 0 \<and> t \<noteq> '''' \<and> n \<noteq> '''' \<and> e \<noteq> 0"
  using assms
  by (simp add: encodeRecord_def offsetRecord_def canonicalRecord_def validateRecord_def Let_def record_type_defs split: if_splits)

lemma effect_wf:
  assumes wf: "group_sys_wf (c, l)" and "op_effect c c'"
  shows "group_sys_wf (c', l)"
  using assms(2)
proof cases
  case unchanged
  with wf show ?thesis by (rule agree_wf)
next
  case (membership n g now ms m)
  note g = sys_wf_group [OF wf membership(1)]
  have "group_wf (rebalance now (g\<lparr>gMembers := ms, gGeneration := gGeneration g + 1\<rparr>))"
    using g membership by (intro rebalance_wf) (auto simp: group_wf_def members_wf_def)
  then show ?thesis
    using membership by (intro put_group_wf [OF wf membership(1)]) (auto simp: agree_fields)
next
  case (rebalanced n g now)
  from sys_wf_group [OF wf rebalanced(1)] have g: "group_wf g" by simp
  then have "mwf (gMembers g)" "'''' \<notin> set (mkeys (gMembers g))" by (simp_all add: group_wf_def members_wf_def)
  with g rebalanced(2) have "group_wf (rebalance now (g\<lparr>gMembers := gMembers g, gGeneration := gGeneration g\<rparr>))"
    by (intro rebalance_wf) simp_all
  then have "group_wf (rebalance now g)" by simp
  moreover have "gMembers g = [] \<Longrightarrow> gMembers (rebalance now g) = []"
    by (metis length_0_conv length_rebalance)
  ultimately show ?thesis
    using rebalanced by (intro put_group_wf [OF wf rebalanced(1)]) (auto simp: agree_fields)
next
  case (refreshed n g m x now)
  from sys_wf_group [OF wf refreshed(1)] refresh_wf [of g m x now] refreshed show ?thesis
    by (intro put_group_wf [OF wf refreshed(1)]) (auto simp: agree_fields)
next
  case (replicated n g t items)
  from sys_wf_group [OF wf replicated(1)] commit_wf [of g t items] replicated show ?thesis
    by (intro put_group_wf [OF wf replicated(1)]) (auto simp: agree_fields)
next
  case (durable n g t items now)
  obtain msg where msg:
    "encodeRecord (offsetRecord now n t (gRegistrationEpoch g) (offsetRevision g t + 1) (mergedOffsetSnapshot g t items)) = Some msg"
    "c' = (put_group n ((storeOffsets t items g)\<lparr>gOffsetRevisions :=
        mput t (offsetRevision g t + 1) (gOffsetRevisions g)\<rparr>) c)\<lparr>cLog := cLog c @ [msg]\<rparr>"
    using commitDurable_Inr durable by blast
  note g = sys_wf_group [OF wf durable(1)]
  have "groupTopicMatches (gTopicName g) t"
    using g durable by (simp add: group_wf_def commit_valid_def validateGroupTopic_def)
  then have "group_wf ((storeOffsets t items g)\<lparr>gOffsetRevisions := mput t (offsetRevision g t + 1) (gOffsetRevisions g)\<rparr>)"
    using revision_wf [of "storeOffsets t items g" t "offsetRevision g t + 1"] commit_wf [of g t items] g durable
      encodeRecord_offset_revision [OF msg(1)] by simp
  then show ?thesis by (rule put_group_wf [OF wf durable(1)]) (simp_all add: msg(2))
qed

lemma register_known_wf:
  assumes wf: "group_sys_wf (c, None)" and reg: "RegisterGroup_begin now t n k c = Inr (c', None)" and now: "0 < now"
  shows "group_sys_wf (c', None)"
proof -
  from reg obtain g where g: "map_of (cGroups c) n = Some g" "t \<noteq> ''''" "gTopicName g = '''' \<or> gTopicName g = t"
    by (auto simp: RegisterGroup_begin_def Let_def split: if_splits option.splits)
  note w = sys_wf_group [OF wf g(1)]
  with g have t: "gTopicName g = t" "gRegistrationEpoch g \<noteq> 0" "gPartitions g \<noteq> []" by (auto simp: group_wf_def)
  have c': "c' = put_group n (g\<lparr>gLastActivity := now\<rparr>) c"
    using reg g t w by (auto simp: RegisterGroup_begin_def Let_def split: if_splits)
  have "members_wf (g\<lparr>gLastActivity := now\<rparr>) = members_wf g" "offsets_wf (g\<lparr>gLastActivity := now\<rparr>) = offsets_wf g"
    by (rule members_wf_cong offsets_wf_cong; simp)+
  moreover from w have "group_wf g" by simp
  ultimately have "group_wf (g\<lparr>gLastActivity := now\<rparr>)" using now by (simp add: group_wf_def)
  then show ?thesis by (rule put_group_wf [OF wf g(1)]) (simp_all add: c')
qed

lemma register_start_Some:
  assumes wf: "group_sys_wf (c, None)" and reg: "RegisterGroup_begin now t n k c = Inr (c', Some rg)" and now: "0 < now"
  shows "map_of (cGroups c) n = None \<and> c' = c\<lparr>cPending := [(n, True)]\<rparr> \<and> n \<noteq> '''' \<and> t \<noteq> '''' \<and> 0 < k \<and>
    groupEpoch c n + 1 \<noteq> 0 \<and>
    rg = \<lparr>rgGroup = n, rgTopic = t, rgCount = k, rgEpoch = groupEpoch c n + 1, rgExisting = False, rgNow = now, rgInitial = []\<rparr>"
proof -
  have none: "map_of (cGroups c) n = None"
  proof (rule ccontr)
    assume "map_of (cGroups c) n \<noteq> None"
    then obtain g where g: "map_of (cGroups c) n = Some g" by auto
    with reg sys_wf_group [OF wf g] show False
      by (auto simp: RegisterGroup_begin_def Let_def group_wf_def split: if_splits)
  qed
  have "mput n True (cPending c) = [(n, True)]" using wf by (simp add: mput_def)
  with none reg show ?thesis by (auto simp: RegisterGroup_begin_def Let_def split: if_splits)
qed

lemma sys_wf_pending:
  assumes "group_sys_wf (c, l)" "lifecycle_wf (c\<lparr>cPending := p\<rparr>) l'"
  shows "group_sys_wf (c\<lparr>cPending := p\<rparr>, l')"
proof -
  have "groupEpoch (c\<lparr>cPending := p\<rparr>) = groupEpoch c" by (simp add: groupEpoch_def fun_eq_iff)
  with assms show ?thesis by simp
qed

lemma register_start_wf:
  assumes wf: "group_sys_wf (c, None)" and reg: "RegisterGroup_begin now t n k c = Inr (c', Some rg)" and now: "0 < now"
  shows "group_sys_wf (c', Some (Registering rg))"
proof -
  note start = register_start_Some [OF assms]
  have "group_sys_wf (c\<lparr>cPending := [(n, True)]\<rparr>, Some (Registering rg))"
    by (rule sys_wf_pending [OF wf]) (use start now in \<open>auto simp: groupEpoch_def\<close>)
  with start show ?thesis by (simp only: simp_thms)
qed

lemma delete_start_Some:
  assumes wf: "group_sys_wf (c, None)" and del: "DeleteGroup_begin n c = Inr (c', Some dg)"
  obtains g where "map_of (cGroups c) n = Some g" "gMembers g = []" "c' = c\<lparr>cPending := [(n, True)]\<rparr>"
    "groupEpoch c n + 1 \<noteq> 0" "dg = \<lparr>dgGroup = n, dgTopic = gTopicName g, dgEpoch = groupEpoch c n + 1\<rparr>"
proof -
  from del obtain g where g: "map_of (cGroups c) n = Some g"
    by (auto simp: DeleteGroup_begin_def Let_def split: if_splits option.splits)
  have "mput n True (cPending c) = [(n, True)]" using wf by (simp add: mput_def)
  with g del sys_wf_group [OF wf g] show ?thesis
    by (intro that [of g]) (auto simp: DeleteGroup_begin_def Let_def split: if_splits)
qed

lemma delete_start_wf:
  assumes wf: "group_sys_wf (c, None)" and del: "DeleteGroup_begin n c = Inr (c', Some dg)"
  shows "group_sys_wf (c', Some (Deleting dg))"
  using assms
  by (elim delete_start_Some [OF wf]) (auto intro!: sys_wf_pending [OF wf] simp: groupEpoch_def)

lemma writeRecord_fields:
  assumes "writeRecord ack r c = Inr c'"
  shows "cGroups c' = cGroups c" "cEpochs c' = cEpochs c" "cPending c' = cPending c" "cStandalone c' = cStandalone c"
    "cOwnershipSince c' = cOwnershipSince c"
  using assms by (auto simp: writeRecord_def split: if_splits option.splits)

lemma new_group_wf:
  assumes "t \<noteq> ''''" "0 < k" "e \<noteq> 0" "0 < now"
  shows "group_wf \<lparr>gTopicName = t, gMembers = [], gGeneration = 0, gPartitions = makePartitions k, gLastRebalance = 0,
    gLastActivity = now, gOffsets = [], gRegistrationEpoch = e, gOffsetRevisions = []\<rparr>"
proof -
  have "makePartitions k \<noteq> []" using assms(2) by (simp add: makePartitions_def)
  with assms show ?thesis
    by (simp add: group_wf_def members_wf_def offsets_wf_def fairly_assigned_def mkeys_def)
qed

text \<open>The end of a registration: refused, or the group is there with the next epoch.\<close>

lemma register_finish_cases:
  assumes wf: "group_sys_wf (c, Some (Registering rg))" and reg: "RegisterGroup_end rg ack c = (err, c')"
  obtains (refused) "err \<noteq> None" "c' = c\<lparr>cPending := []\<rparr>"
  | (registered) written where "err = None" "writeRecord ack (registration_record rg) (c\<lparr>cPending := []\<rparr>) = Inr written"
      "agree (written\<lparr>cGroups := mput (rgGroup rg) \<lparr>gTopicName = rgTopic rg, gMembers = [], gGeneration = 0,
           gPartitions = makePartitions (rgCount rg), gLastRebalance = 0, gLastActivity = rgNow rg, gOffsets = [],
           gRegistrationEpoch = rgEpoch rg, gOffsetRevisions = []\<rparr> (cGroups c),
         cEpochs := mput (rgGroup rg) (rgEpoch rg) (cEpochs c)\<rparr>) c'"
proof -
  have p: "mdel (rgGroup rg) (cPending c) = []" and n: "map_of (cGroups c) (rgGroup rg) = None" "\<not> rgExisting rg"
    using wf by (auto simp: mdel_def)
  show ?thesis
  proof (cases "writeRecord ack (registration_record rg) (c\<lparr>cPending := []\<rparr>)")
    case (Inl e)
    then show ?thesis using reg refused by (auto simp: RegisterGroup_end_def p)
  next
    case (Inr written)
    then show ?thesis using reg registered n writeRecord_fields [OF Inr]
      by (auto simp: RegisterGroup_end_def p Let_def put_group_def agree_def updateOffsetPartitionCount_def)
  qed
qed

lemma delete_finish_cases:
  assumes wf: "group_sys_wf (c, Some (Deleting dg))" and del: "DeleteGroup_end now dg ack c = (err, c')"
  obtains (refused) "err \<noteq> None" "c' = c\<lparr>cPending := []\<rparr>"
  | (deleted) written where "err = None"
      "writeRecord ack (tombstoneRecord now (dgGroup dg) (dgTopic dg) (dgEpoch dg)) (c\<lparr>cPending := []\<rparr>) = Inr written"
      "agree (written\<lparr>cGroups := mdel (dgGroup dg) (cGroups c), cEpochs := mput (dgGroup dg) (dgEpoch dg) (cEpochs c)\<rparr>) c'"
proof -
  have p: "mdel (dgGroup dg) (cPending c) = []" using wf by (auto simp: mdel_def)
  obtain g where g: "map_of (cGroups c) (dgGroup dg) = Some g" using wf by (auto split: option.splits)
  show ?thesis
  proof (cases "writeRecord ack (tombstoneRecord now (dgGroup dg) (dgTopic dg) (dgEpoch dg)) (c\<lparr>cPending := []\<rparr>)")
    case (Inl e)
    then show ?thesis using del refused by (auto simp: DeleteGroup_end_def p)
  next
    case (Inr written)
    then show ?thesis using del deleted g writeRecord_fields [OF Inr]
      by (auto simp: DeleteGroup_end_def p Let_def agree_def updateOffsetPartitionCount_def)
  qed
qed

lemma ball_mdel: "\<forall>(k, v) \<in> set m. P k v \<Longrightarrow> \<forall>(k, v) \<in> set (mdel k' m). P k v"
  by (auto simp: mdel_def AList.delete_eq)

lemma sys_wf_lifecycle:
  assumes wf: "group_sys_wf (c, l)" and keep: "mwf gs" "\<forall>(n, g) \<in> set gs. n \<noteq> '''' \<and> group_wf g \<and>
      gRegistrationEpoch g = (if n = k then e else groupEpoch c n)"
    and k: "k \<noteq> ''''" "e \<noteq> 0"
    and c': "cGroups c' = gs" "cEpochs c' = mput k e (cEpochs c)" "cPending c' = []"
  shows "group_sys_wf (c', None)"
proof -
  have epoch: "groupEpoch c' n = (if n = k then e else groupEpoch c n)" for n by (simp add: groupEpoch_def c')
  have "\<forall>(n, e) \<in> set (cEpochs c). n \<noteq> '''' \<and> e \<noteq> 0"
    using wf unfolding group_sys_wf.simps by (elim conjE)
  moreover have "k \<noteq> '''' \<and> e \<noteq> 0" using k by simp
  ultimately have epochs: "\<forall>(n, e) \<in> set (cEpochs c'). n \<noteq> '''' \<and> e \<noteq> 0" unfolding c' by (rule ball_mput)
  have "mwf (cEpochs c')" using wf by (simp add: c')
  with epochs keep show ?thesis
    unfolding group_sys_wf.simps epoch c'(1) lifecycle_wf.simps c'(3) by (intro conjI refl)
qed

lemma register_finish_wf:
  assumes wf: "group_sys_wf (c, Some (Registering rg))" and reg: "RegisterGroup_end rg ack c = (err, c')"
  shows "group_sys_wf (c', None)"
  using assms
proof (cases rule: register_finish_cases)
  case refused
  then show ?thesis using sys_wf_pending [OF wf, of "[]" None] by simp
next
  case (registered written)
  let ?n = "rgGroup rg" and ?e = "rgEpoch rg"
  have rg: "?n \<noteq> '''' \<and> rgTopic rg \<noteq> '''' \<and> 0 < rgCount rg \<and> ?e \<noteq> 0 \<and> 0 < rgNow rg \<and> map_of (cGroups c) ?n = None"
    using wf unfolding group_sys_wf.simps lifecycle_wf.simps by (elim conjE) (intro conjI, assumption+)
  have "mwf (cGroups c)" using wf by simp
  let ?P = "\<lambda>n g. n \<noteq> '''' \<and> group_wf g \<and> gRegistrationEpoch g = (if n = ?n then ?e else groupEpoch c n)"
  have "?P n g" if "(n, g) \<in> set (cGroups c)" for n g
  proof -
    from that \<open>mwf (cGroups c)\<close> have "map_of (cGroups c) n = Some g" by (simp add: mwf_in_set)
    with sys_wf_group [OF wf this] rg show ?thesis by auto
  qed
  then have old: "\<forall>(n, g) \<in> set (cGroups c). ?P n g" by blast
  let ?g = "\<lparr>gTopicName = rgTopic rg, gMembers = [], gGeneration = 0, gPartitions = makePartitions (rgCount rg),
    gLastRebalance = 0, gLastActivity = rgNow rg, gOffsets = [], gRegistrationEpoch = ?e, gOffsetRevisions = []\<rparr>"
  have "?P ?n ?g" using rg new_group_wf by simp
  note all = ball_mput [where P = ?P, OF old this]
  have c': "cGroups c' = mput ?n ?g (cGroups c)" "cEpochs c' = mput ?n ?e (cEpochs c)" "cPending c' = []"
    using agree_fields(1,2,3) [OF registered(3)] writeRecord_fields(3) [OF registered(2)] by simp_all
  show ?thesis by (rule sys_wf_lifecycle [OF wf _ all _ _ c']) (use rg \<open>mwf (cGroups c)\<close> in simp_all)
qed

lemma delete_finish_wf:
  assumes wf: "group_sys_wf (c, Some (Deleting dg))" and del: "DeleteGroup_end now dg ack c = (err, c')"
  shows "group_sys_wf (c', None)"
  using assms
proof (cases rule: delete_finish_cases)
  case refused
  then show ?thesis using sys_wf_pending [OF wf, of "[]" None] by simp
next
  case (deleted written)
  let ?n = "dgGroup dg" and ?e = "dgEpoch dg"
  have "mwf (cGroups c)" using wf by simp
  have "?e \<noteq> 0" using wf unfolding group_sys_wf.simps lifecycle_wf.simps by (elim conjE)
  obtain g where "map_of (cGroups c) ?n = Some g" using wf by (auto split: option.splits)
  with sys_wf_group [OF wf this] have "?n \<noteq> ''''" by simp
  let ?P = "\<lambda>n g. n \<noteq> '''' \<and> group_wf g \<and> gRegistrationEpoch g = (if n = ?n then ?e else groupEpoch c n)"
  have "?P n g" if "(n, g) \<in> set (mdel ?n (cGroups c))" for n g
  proof -
    have "mwf (mdel ?n (cGroups c))" using \<open>mwf (cGroups c)\<close> by (rule mwf_mdel)
    with that have "n \<noteq> ?n" "map_of (cGroups c) n = Some g" by (auto simp: mwf_in_set split: if_splits)
    with sys_wf_group [OF wf this(2)] show ?thesis by auto
  qed
  then have all: "\<forall>(n, g) \<in> set (mdel ?n (cGroups c)). ?P n g" by blast
  have c': "cGroups c' = mdel ?n (cGroups c)" "cEpochs c' = mput ?n ?e (cEpochs c)" "cPending c' = []"
    using deleted(3) writeRecord_fields [OF deleted(2)] by (simp_all add: agree_def)
  show ?thesis
    by (rule sys_wf_lifecycle [OF wf _ all \<open>?n \<noteq> ''''\<close> \<open>?e \<noteq> 0\<close> c']) (rule mwf_mdel [OF \<open>mwf (cGroups c)\<close>])
qed

lemma group_step_wf:
  assumes "group_sys_wf s" "group_step s s'"
  shows "group_sys_wf s'"
proof -
  obtain c l c' l' where s: "s = (c, l)" "s' = (c', l')" by fastforce
  from assms(2) [unfolded s] show ?thesis
    using assms(1) unfolding s
    by (cases rule: group_step_cases)
      (auto simp only: intro: effect_wf register_known_wf register_start_wf register_finish_wf delete_start_wf delete_finish_wf)
qed

lemma group_reachable_wf:
  assumes "group_step\<^sup>*\<^sup>* (group_start standalone) s"
  shows "group_sys_wf s"
  using assms
proof (induction rule: rtranclp_induct)
  case base
  show ?case by (simp add: group_start_def NewCoordinator_def)
qed (rule group_step_wf)

end
