(* ===== verification/Group_Fencing.thy ===== *)
theory Group_Fencing
  imports Group_Invariant
begin

section \<open>Fencing, committed offsets and sessions\<close>

text \<open>
  What members of a group rely on: a generation that has been left behind is never served again (through
  the \<open>fencing\<close> interface), committed offsets only move forward, and expired sessions hand their
  partitions to the members that remain.
\<close>

subsection \<open>Generations fence members\<close>

definition group_token :: "string \<Rightarrow> group_system \<Rightarrow> nat \<times> int" where
  "group_token n s = (unat (groupEpoch (fst s) n),
     (case map_of (cGroups (fst s)) n of None \<Rightarrow> - 1 | Some g \<Rightarrow> gGeneration g))"

definition group_accepts :: "string \<Rightarrow> string \<Rightarrow> group_system \<Rightarrow> nat \<times> int \<Rightarrow> bool" where
  "group_accepts n m s tok \<longleftrightarrow>
     fst tok = unat (groupEpoch (fst s) n) \<and> 0 \<le> snd tok \<and> validateMemberGeneration n m (snd tok) (fst s) = None"

lemma groupEpoch_cong: "cEpochs c' = cEpochs c \<Longrightarrow> groupEpoch c' = groupEpoch c"
  by (simp add: groupEpoch_def fun_eq_iff)

lemma group_token_put:
  assumes "map_of (cGroups c) k = Some g" "gGeneration g \<le> gGeneration g'"
    and "cGroups c' = mput k g' (cGroups c)" "cEpochs c' = cEpochs c"
  shows "group_token n (c, l) \<le> group_token n (c', l')"
  using assms groupEpoch_cong [OF assms(4)] by (auto simp: group_token_def)

lemma effect_token:
  assumes "op_effect c c'"
  shows "group_token n (c, l) \<le> group_token n (c', l)"
  using assms
proof cases
  case unchanged
  then show ?thesis using groupEpoch_cong [of c' c] by (simp add: group_token_def agree_def)
next
  case (membership k g now ms m)
  then show ?thesis by (intro group_token_put [of c k g]) (auto simp: agree_fields)
next
  case (rebalanced k g now)
  then show ?thesis by (intro group_token_put [of c k g]) (auto simp: agree_fields)
next
  case (refreshed k g m x now)
  then show ?thesis by (intro group_token_put [of c k g]) (auto simp: agree_fields)
next
  case (replicated k g t items)
  then show ?thesis by (intro group_token_put [of c k g]) (auto simp: agree_fields)
next
  case (durable k g t items now)
  then obtain msg where "c' = (put_group k ((storeOffsets t items g)\<lparr>gOffsetRevisions :=
        mput t (offsetRevision g t + 1) (gOffsetRevisions g)\<rparr>) c)\<lparr>cLog := cLog c @ [msg]\<rparr>"
    by (auto elim: commitDurable_Inr)
  then show ?thesis by (intro group_token_put [OF durable(1)]) simp_all
qed

lemma unat_succ: "x + 1 \<noteq> 0 \<Longrightarrow> unat (x + 1) = unat x + 1" for x :: u64
proof -
  assume "x + 1 \<noteq> 0"
  have mod: "unat (x + 1) = (unat x + 1) mod 2 ^ 64" by (simp add: unat_word_ariths)
  have "unat x < 2 ^ 64" using unsigned_less [of x] by simp
  moreover have "unat x + 1 \<noteq> 2 ^ 64" using mod \<open>x + 1 \<noteq> 0\<close> by (metis mod_self unat_eq_zero)
  ultimately show ?thesis using mod by simp
qed

lemma lifecycle_token:
  assumes "groupEpoch c k + 1 \<noteq> 0" "cEpochs c' = mput k (groupEpoch c k + 1) (cEpochs c)"
    and "\<And>x. x \<noteq> k \<Longrightarrow> map_of (cGroups c') x = map_of (cGroups c) x"
  shows "group_token n (c, l) \<le> group_token n (c', l')"
proof (cases "n = k")
  case True
  have "groupEpoch c' k = groupEpoch c k + 1" by (simp add: groupEpoch_def [of c'] assms(2))
  with True assms(1) show ?thesis by (simp add: group_token_def unat_succ)
next
  case False
  with assms show ?thesis by (simp add: group_token_def groupEpoch_def)
qed

lemma register_start_token:
  assumes "group_sys_wf (c, None)" "RegisterGroup_begin now t k count c = Inr (c', Some rg)" "0 < now"
  shows "group_token n (c', l) = group_token n (c, l')"
  using register_start_Some [OF assms] by (auto simp: group_token_def groupEpoch_def)

lemma group_step_token:
  assumes wf: "group_sys_wf s" and "group_step s s'"
  shows "group_token n s \<le> group_token n s'"
proof -
  obtain c l c' l' where s: "s = (c, l)" "s' = (c', l')" by fastforce
  note wf = wf [unfolded s]
  from assms(2) [unfolded s] have "group_token n (c, l) \<le> group_token n (c', l')"
  proof (cases rule: group_step_cases)
    case effect
    then show ?thesis using effect_token by simp
  next
    case (register_known now t k count)
    then obtain g where g: "map_of (cGroups c) k = Some g"
      by (auto simp: RegisterGroup_begin_def Let_def split: if_splits option.splits)
    note w = sys_wf_group [OF wf g]
    with register_known g obtain g' where "c' = put_group k g' c" "gGeneration g' = gGeneration g"
      by (auto simp: RegisterGroup_begin_def Let_def group_wf_def split: if_splits)
    then show ?thesis by (intro group_token_put [OF g]) simp_all
  next
    case (register_start now t k count rg)
    then show ?thesis using register_start_token wf by (metis order_refl)
  next
    case (register_finish rg ack err)
    note wf = wf [unfolded register_finish(1)]
    from wf register_finish(3) show ?thesis
    proof (cases rule: register_finish_cases)
      case refused
      then show ?thesis by (simp add: group_token_def groupEpoch_def)
    next
      case (registered written)
      have "rgEpoch rg = groupEpoch c (rgGroup rg) + 1" "groupEpoch c (rgGroup rg) + 1 \<noteq> 0" using wf by simp_all (metis)
      then show ?thesis
        by (intro lifecycle_token [of c "rgGroup rg"]) (use agree_fields(1,2) [OF registered(3)] in auto)
    qed
  next
    case (delete_start k dg)
    then show ?thesis using wf
      by (auto elim!: delete_start_Some [rotated] simp: group_token_def groupEpoch_def)
  next
    case (delete_finish now dg ack err)
    note wf = wf [unfolded delete_finish(1)]
    from wf delete_finish(3) show ?thesis
    proof (cases rule: delete_finish_cases)
      case refused
      then show ?thesis by (simp add: group_token_def groupEpoch_def)
    next
      case (deleted written)
      have "dgEpoch dg = groupEpoch c (dgGroup dg) + 1" "groupEpoch c (dgGroup dg) + 1 \<noteq> 0" using wf by simp_all (metis)
      then show ?thesis
        by (intro lifecycle_token [of c "dgGroup dg"]) (use agree_fields(1,2) [OF deleted(3)] in auto)
    qed
  qed
  then show ?thesis by (simp only: s)
qed

interpretation group_fence: fencing group_sys_wf group_step "group_token n" "group_accepts n m" for n m
proof
  fix s s'
  assume "group_sys_wf s" "group_step s s'"
  then show "group_sys_wf s'" "group_token n s \<le> group_token n s'" by (rule group_step_wf, rule group_step_token)
next
  fix s t
  assume "group_accepts n m s t"
  then show "t = group_token n s"
    by (cases t) (auto simp: group_accepts_def group_token_def validateMemberGeneration_None)
qed

subsection \<open>Committed offsets only move forward\<close>

definition offsets_le :: "groupMetadata \<Rightarrow> groupMetadata \<Rightarrow> bool" where
  "offsets_le g g' \<longleftrightarrow>
     (\<forall>t p off. getOffset g t p = Some off \<longrightarrow> (\<exists>off'. getOffset g' t p = Some off' \<and> off \<le> off'))"

lemma offsets_le_refl [simp]: "getOffset g' = getOffset g \<Longrightarrow> offsets_le g g'"
  by (simp add: offsets_le_def)

lemma offsets_le_trans: "offsets_le g g' \<Longrightarrow> offsets_le g' g'' \<Longrightarrow> offsets_le g g''"
  unfolding offsets_le_def by (meson order_trans)

lemma getOffset_storeOffset:
  "getOffset (storeOffset t p off g) t' p' = (if t' = t \<and> p' = p then Some off else getOffset g t' p')"
  by (auto simp: getOffset_def storeOffset_def Let_def split: option.split)

lemma storeOffsets_lookup:
  assumes "distinct (map oiPartition items)"
  shows "getOffset (storeOffsets t items g) t' p =
    (case map_of (item_pairs items) p of
       Some off \<Rightarrow> if t' = t then Some off else getOffset g t' p
     | None \<Rightarrow> getOffset g t' p)"
  using assms
proof (induction items arbitrary: g)
  case (Cons i items)
  have "map_of (item_pairs items) (oiPartition i) = None"
    using Cons.prems by (auto simp: item_pairs_def map_of_eq_None_iff)
  with Cons show ?case by (auto simp: getOffset_storeOffset item_pairs_def split: option.split)
qed (simp add: item_pairs_def)

lemma validateOffsetBatch_None:
  "validateOffsetBatch seen g t items = None \<longleftrightarrow>
   distinct (map oiPartition items) \<and> oiPartition ` set items \<inter> seen = {} \<and>
   (\<forall>i \<in> set items. \<forall>cur. getOffset g t (oiPartition i) = Some cur \<longrightarrow> cur \<le> oiOffset i)"
  by (induction seen g t items rule: validateOffsetBatch.induct) (auto split: option.split)

lemma commit_valid_le: "commit_valid g t items \<Longrightarrow> offsets_le g (storeOffsets t items g)"
proof -
  assume "commit_valid g t items"
  then have d: "distinct (map oiPartition items)"
    and le: "\<And>i cur. i \<in> set items \<Longrightarrow> getOffset g t (oiPartition i) = Some cur \<Longrightarrow> cur \<le> oiOffset i"
    by (auto simp: commit_valid_def validateOffsetBatch_None)
  have "off \<le> off'" if "map_of (item_pairs items) p = Some off'" "getOffset g t p = Some off" for p off off'
    using le that by (auto simp: item_pairs_def dest!: map_of_SomeD)
  then show ?thesis unfolding offsets_le_def storeOffsets_lookup [OF d]
    by (auto split: option.splits)
qed

lemma getOffset_cong: "gOffsets g' = gOffsets g \<Longrightarrow> getOffset g' = getOffset g"
  by (simp add: getOffset_def fun_eq_iff)

lemma put_offsets_le:
  assumes "map_of (cGroups c) n = Some g" "map_of (cGroups c) k = Some h" "cGroups c' = mput k h' (cGroups c)" "offsets_le h h'"
  shows "\<exists>g'. map_of (cGroups c') n = Some g' \<and> offsets_le g g'"
  using assms by (cases "n = k") auto

lemma effect_offsets_le:
  assumes "op_effect c c'" "map_of (cGroups c) n = Some g"
  shows "\<exists>g'. map_of (cGroups c') n = Some g' \<and> offsets_le g g'"
  using assms(1)
proof cases
  case unchanged
  with assms(2) show ?thesis by (simp add: agree_def)
next
  case (membership k h now ms m)
  then show ?thesis by (intro put_offsets_le [OF assms(2)]) (auto simp: agree_fields intro!: offsets_le_refl getOffset_cong)
next
  case (rebalanced k h now)
  then show ?thesis by (intro put_offsets_le [OF assms(2)]) (auto simp: agree_fields intro!: offsets_le_refl getOffset_cong)
next
  case (refreshed k h m x now)
  then show ?thesis by (intro put_offsets_le [OF assms(2)]) (auto simp: agree_fields intro!: offsets_le_refl getOffset_cong)
next
  case (replicated k h t items)
  then show ?thesis by (intro put_offsets_le [OF assms(2)]) (auto simp: agree_fields commit_valid_le)
next
  case (durable k h t items now)
  then obtain msg where c': "c' = (put_group k ((storeOffsets t items h)\<lparr>gOffsetRevisions :=
        mput t (offsetRevision h t + 1) (gOffsetRevisions h)\<rparr>) c)\<lparr>cLog := cLog c @ [msg]\<rparr>"
    by (auto elim: commitDurable_Inr)
  let ?h = "(storeOffsets t items h)\<lparr>gOffsetRevisions := mput t (offsetRevision h t + 1) (gOffsetRevisions h)\<rparr>"
  have "offsets_le (storeOffsets t items h) ?h" by (rule offsets_le_refl, rule getOffset_cong) simp
  with durable have "offsets_le h ?h" using commit_valid_le offsets_le_trans by blast
  with durable(1) c' show ?thesis by (intro put_offsets_le [OF assms(2)]) auto
qed

lemma step_offsets_le:
  assumes wf: "group_sys_wf (c, l)" and "group_step (c, l) (c', l')"
    and g: "map_of (cGroups c) n = Some g" and epoch: "groupEpoch c' n = groupEpoch c n"
  shows "\<exists>g'. map_of (cGroups c') n = Some g' \<and> offsets_le g g'"
  using assms(2)
proof (cases rule: group_step_cases)
  case effect
  with effect_offsets_le g show ?thesis by blast
next
  case (register_known now t k count)
  then obtain h where h: "map_of (cGroups c) k = Some h"
    by (auto simp: RegisterGroup_begin_def Let_def split: if_splits option.splits)
  with register_known sys_wf_group [OF wf h] obtain h' where "c' = put_group k h' c" "gOffsets h' = gOffsets h"
    by (auto simp: RegisterGroup_begin_def Let_def group_wf_def split: if_splits)
  then show ?thesis by (intro put_offsets_le [OF g h]) (auto intro!: offsets_le_refl getOffset_cong)
next
  case (register_start now t k count rg)
  with register_start_Some [of c now t k count c' rg] wf g show ?thesis by auto
next
  case (register_finish rg ack err)
  note wf = wf [unfolded register_finish(1)]
  from wf register_finish(3) show ?thesis
  proof (cases rule: register_finish_cases)
    case refused
    with g show ?thesis by simp
  next
    case (registered written)
    from wf g have "n \<noteq> rgGroup rg" by auto
    with agree_fields(1) [OF registered(3)] g show ?thesis by auto
  qed
next
  case (delete_start k dg)
  with wf g show ?thesis by (auto elim!: delete_start_Some [rotated])
next
  case (delete_finish now dg ack err)
  note wf = wf [unfolded delete_finish(1)]
  from wf delete_finish(3) show ?thesis
  proof (cases rule: delete_finish_cases)
    case refused
    with g show ?thesis by simp
  next
    case (deleted written)
    have "n \<noteq> dgGroup dg"
    proof
      assume "n = dgGroup dg"
      with agree_fields(2) [OF deleted(3)] epoch wf have "groupEpoch c n = groupEpoch c n + 1"
        by (simp add: groupEpoch_def [of c'])
      then show False by simp
    qed
    with agree_fields(1) [OF deleted(3)] g show ?thesis by auto
  qed
qed

lemma steps_offsets_le:
  assumes "group_step\<^sup>*\<^sup>* s s'" "group_sys_wf s" "map_of (cGroups (fst s)) n = Some g"
    and "groupEpoch (fst s') n = groupEpoch (fst s) n"
  shows "\<exists>g'. map_of (cGroups (fst s')) n = Some g' \<and> offsets_le g g'"
  using assms
proof (induction rule: rtranclp_induct)
  case (step s1 s2)
  have wf1: "group_sys_wf s1" and low: "group_token n s \<le> group_token n s1"
    using group_fence.steps_mono [OF step(1,4)] by auto
  have high: "group_token n s1 \<le> group_token n s2" using group_step_token [OF wf1 step(2)] .
  have "unat (groupEpoch (fst s1) n) = unat (groupEpoch (fst s) n)"
    using low high step(6) by (auto simp: group_token_def less_eq_prod_def)
  then have e: "groupEpoch (fst s1) n = groupEpoch (fst s) n" by (rule unsigned_word_eqI)
  with step obtain g1 where "map_of (cGroups (fst s1)) n = Some g1" "offsets_le g g1" by blast
  with step_offsets_le [of "fst s1" "snd s1" "fst s2" "snd s2" n g1] wf1 step(2,6) e show ?case
    by (auto intro: offsets_le_trans)
qed (auto intro: offsets_le_refl)

subsection \<open>Sessions that time out\<close>

lemma removeMembers_lookup:
  "map_of (fst (removeMembers ids m)) k = (if k \<in> set ids then None else map_of m k)"
  by (induction ids m rule: removeMembers.induct) (auto simp: Let_def split_beta)

lemma removeMembers_count: "snd (removeMembers ids m) = 0 \<Longrightarrow> k \<in> set ids \<Longrightarrow> map_of m k = None"
  by (induction ids m rule: removeMembers.induct) (auto simp: Let_def split_beta split: if_splits)

lemma rebalance_heartbeat:
  assumes "mwf (gMembers g)"
  shows "map_option mmLastHeartbeat (map_of (gMembers (rebalance now g)) m) =
    map_option mmLastHeartbeat (map_of (gMembers g) m)"
proof (cases "gMembers g = []")
  case True
  then show ?thesis by (simp add: rebalance_def Let_def mkeys_def)
next
  case False
  then show ?thesis
    by (simp add: rebalance_lookup [OF assms False] option.map_comp comp_def split: option.split)
qed

lemma timedOutMembers_iff:
  assumes "mwf (gMembers g)"
  shows "m \<in> set (timedOutMembers now timeout g) \<longleftrightarrow>
    (\<exists>x. map_of (gMembers g) m = Some x \<and> timeout < now - mmLastHeartbeat x)"
  using assms by (force simp: timedOutMembers_def mwf_in_set)

lemma timeout_survivors:
  assumes wf: "group_sys_wf (c, l)" and g: "map_of (cGroups c) n = Some g" and sa: "cStandalone c"
  obtains g' where "map_of (cGroups (fst (checkSingleGroupTimeout owner now timeout n c))) n = Some g'"
    "gPartitions g' = gPartitions g"
    "\<And>m. map_option mmLastHeartbeat (map_of (gMembers g') m) =
       (if m \<in> set (timedOutMembers now timeout g) then None else map_option mmLastHeartbeat (map_of (gMembers g) m))"
proof (cases "timedOutMembers now timeout g = []")
  case True
  then have "checkSingleGroupTimeout owner now timeout n c = (c, None)"
    using g sa by (simp add: checkSingleGroupTimeout_def ownsGroupSession_def)
  with True g that [of g] show ?thesis by simp
next
  case False
  let ?ids = "timedOutMembers now timeout g"
  have mwf: "mwf (gMembers g)" using sys_wf_group [OF wf g] by (simp add: group_wf_def members_wf_def)
  obtain k x where k: "k \<in> set ?ids" "map_of (gMembers g) k = Some x"
    using False timedOutMembers_iff [OF mwf] by (metis list.set_intros(1) neq_Nil_conv)
  then have "snd (removeMembers ?ids (gMembers g)) \<noteq> 0" using removeMembers_count by fastforce
  moreover have "gMembers g \<noteq> []" using k by auto
  moreover obtain ms r where rm: "removeMembers ?ids (gMembers g) = (ms, r)" by fastforce
  ultimately have check: "checkSingleGroupTimeout owner now timeout n c =
      (put_group n (rebalance now (g\<lparr>gMembers := ms, gGeneration := gGeneration g + 1\<rparr>)) c, None)"
    using g sa False by (simp add: checkSingleGroupTimeout_def ownsGroupSession_def ExpireConsumers_def Let_def)
  have "mwf ms" using removeMembers_wf [OF mwf, of ?ids] rm by simp
  show ?thesis
  proof (rule that)
    show "map_of (cGroups (fst (checkSingleGroupTimeout owner now timeout n c))) n =
        Some (rebalance now (g\<lparr>gMembers := ms, gGeneration := gGeneration g + 1\<rparr>))" by (simp add: check)
    fix m
    show "map_option mmLastHeartbeat (map_of (gMembers (rebalance now (g\<lparr>gMembers := ms, gGeneration := gGeneration g + 1\<rparr>))) m) =
       (if m \<in> set ?ids then None else map_option mmLastHeartbeat (map_of (gMembers g) m))"
      using rebalance_heartbeat [of "g\<lparr>gMembers := ms, gGeneration := gGeneration g + 1\<rparr>" now m] \<open>mwf ms\<close>
        removeMembers_lookup [of ?ids "gMembers g" m] rm by simp
  qed simp
qed

subsection \<open>Properties\<close>


text \<open>C9: Two members that pass the ownership check for the same partition of a group, in the same reachable state,
  are the same member, whatever generations they present.\<close>

theorem partition_has_one_owner:
  assumes "group_step\<^sup>*\<^sup>* (group_start standalone) (c, l)"
    and "ValidateOwnershipFailure n m gen p c = None" and "ValidateOwnershipFailure n m' gen' p c = None"
  shows "m = m'"
proof -
  note wf = group_reachable_wf [OF assms(1)]
  from assms(2,3) obtain g where g: "map_of (cGroups c) n = Some g" "memberOwns g m p" "memberOwns g m' p"
    by (auto simp: ValidateOwnershipFailure_def validateMemberGeneration_None split: option.splits if_splits)
  from sys_wf_group [OF wf g(1)] have "group_wf g" by simp
  then show ?thesis
    using fairly_assigned_unique [of g p m m'] group_wf_distinct [of g] g
    by (simp add: group_wf_def members_wf_def memberOwns_assigned)
qed


text \<open>C11: The committed offset of a partition never moves back and never disappears while the registration of its
  group lasts, whatever operations run in between.\<close>

theorem committed_offsets_monotone:
  assumes "group_step\<^sup>*\<^sup>* (group_start standalone) (c, l)" and "group_step\<^sup>*\<^sup>* (c, l) (c', l')"
    and "GetOffset n t p c = Some off" and "groupEpoch c' n = groupEpoch c n"
  shows "\<exists>off'. GetOffset n t p c' = Some off' \<and> off \<le> off'"
proof -
  from assms(3) obtain g where g: "map_of (cGroups c) n = Some g" "getOffset g t p = Some off"
    by (auto simp: GetOffset_def split: option.splits)
  from steps_offsets_le [OF assms(2) group_reachable_wf [OF assms(1)]] g(1) assms(4)
  obtain g' where "map_of (cGroups c') n = Some g'" "offsets_le g g'" by auto
  with g(2) show ?thesis by (auto simp: offsets_le_def GetOffset_def)
qed


subsection \<open>A run\<close>

text \<open>Group \<open>g\<close> on topic \<open>t\<close> with two partitions: registered, joined by \<open>a\<close> and then by \<open>b\<close>, and in distributed
  mode a commit of \<open>a\<close>.\<close>

definition demo :: "bool \<Rightarrow> groupMetadata \<Rightarrow> coordinator" where
  "demo standalone g =
     \<lparr>cGroups = [(''g'', g)], cPending = [], cStandalone = standalone, cEpochs = [(''g'', 1)], cOffsetPartitions = 4,
      cOwnershipSince = [],
      cLog = (if standalone then [the (encodeRecord (registrationRecord 1 ''g'' ''t'' 2 1 []))] else [])\<rparr>"

definition demo_group :: "int \<Rightarrow> instant \<Rightarrow> (string, memberMetadata) gomap \<Rightarrow> (string, (int, u64) gomap) gomap \<Rightarrow> groupMetadata" where
  "demo_group gen now members offsets =
     \<lparr>gTopicName = ''t'', gMembers = members, gGeneration = gen, gPartitions = [0, 1],
      gLastRebalance = (if gen = 0 then 0 else now), gLastActivity = now,
      gOffsets = offsets, gRegistrationEpoch = 1, gOffsetRevisions = []\<rparr>"

definition demo_a :: "(string, memberMetadata) gomap" where
  "demo_a = [(''a'', \<lparr>mmID = ''a'', mmLastHeartbeat = 2, mmAssignments = [0, 1]\<rparr>)]"

definition demo_ab :: "(string, memberMetadata) gomap" where
  "demo_ab = [(''a'', \<lparr>mmID = ''a'', mmLastHeartbeat = 2, mmAssignments = [0]\<rparr>),
              (''b'', \<lparr>mmID = ''b'', mmLastHeartbeat = 3, mmAssignments = [1]\<rparr>)]"

lemmas demo_defs = demo_def demo_group_def demo_a_def demo_ab_def

lemma makePartitions_2: "makePartitions 2 = [0, 1]"
  by (simp add: makePartitions_def upt_rec)

lemma demo_registered: "group_step\<^sup>*\<^sup>* (group_start sa) (demo sa (demo_group 0 1 [] []), None)"
proof -
  let ?rg = "\<lparr>rgGroup = ''g'', rgTopic = ''t'', rgCount = 2, rgEpoch = 1, rgExisting = False, rgNow = 1, rgInitial = []\<rparr>"
  have "group_step (group_start sa) ((NewCoordinator sa)\<lparr>cPending := [(''g'', True)]\<rparr>, Some (Registering ?rg))"
    unfolding group_start_def
    by (rule group_step.register_start [where now = 1 and t = "''t''" and n = "''g''" and k = 2])
      (simp_all add: RegisterGroup_begin_def NewCoordinator_def groupEpoch_def mput_def)
  moreover have "group_step \<dots> (demo sa (demo_group 0 1 [] []), None)"
    by (rule group_step.register_finish [where ack = True and err = None])
      (auto simp: RegisterGroup_end_def NewCoordinator_def registration_record_def writeRecord_def registrationRecord_def
        encodeRecord_def canonicalRecord_def validateRecord_def record_type_defs RecordVersion_def canonicalOffsetItems_def
        demo_defs put_group_def updateOffsetPartitionCount_def calculateOffsetPartitionCount_def makePartitions_2 mput_def mdel_def
        Let_def)
  ultimately show ?thesis by (meson converse_rtranclp_into_rtranclp r_into_rtranclp)
qed

lemma demo_join_a: "AddConsumer 2 ''g'' ''a'' (demo sa (demo_group 0 1 [] [])) = Inr ([0, 1], demo sa (demo_group 1 2 demo_a []))"
  by (simp add: AddConsumer_def isPending_def rebalanceRange_def rebalance_def demo_defs put_group_def mput_def mkeys_def Let_def)

lemma demo_join_b:
  "AddConsumer 3 ''g'' ''b'' (demo sa (demo_group 1 2 demo_a [])) = Inr ([1], demo sa (demo_group 2 3 demo_ab []))"
  by (simp add: AddConsumer_def isPending_def rebalanceRange_def rebalance_def demo_defs put_group_def mput_def mkeys_def Let_def)

lemma demo_commit:
  "ValidateAndCommit 4 True ''g'' ''t'' 0 5 2 ''a'' (demo False (demo_group 2 3 demo_ab [])) =
   Inr (demo False (demo_group 2 3 demo_ab [(''t'', [(0, 5)])]))"
  by (simp add: ValidateAndCommit_def validateMemberGeneration_def isPending_def memberOwns_def commitOffsetForGroup_def
      validateGroupTopic_def groupTopicMatches_def inRange_def getOffset_def storeOffset_def demo_defs put_group_def mput_def Let_def)

lemma demo_joined_a: "group_step\<^sup>*\<^sup>* (group_start sa) (demo sa (demo_group 1 2 demo_a []), None)"
  by (rule rtranclp.rtrancl_into_rtrancl [OF demo_registered])
    (rule group_step.join [OF _ _ demo_join_a], simp_all)

lemma demo_step_b: "group_step (demo sa (demo_group 1 2 demo_a []), None) (demo sa (demo_group 2 3 demo_ab []), None)"
  by (rule group_step.join [OF _ _ demo_join_b]) simp_all

lemma demo_joined_b: "group_step\<^sup>*\<^sup>* (group_start sa) (demo sa (demo_group 2 3 demo_ab []), None)"
  by (rule rtranclp.rtrancl_into_rtrancl [OF demo_joined_a demo_step_b])


theorem partition_has_one_owner_witness:
  "ValidateOwnershipFailure ''g'' ''a'' 2 0 (demo False (demo_group 2 3 demo_ab [])) = None \<and>
   ValidateOwnershipFailure ''g'' ''b'' 2 0 (demo False (demo_group 2 3 demo_ab [])) \<noteq> None"
proof -
  have "ValidateOwnershipFailure ''g'' ''a'' 2 0 (demo False (demo_group 2 3 demo_ab [])) = None"
    by (simp add: ValidateOwnershipFailure_def validateMemberGeneration_def memberOwns_def demo_defs)
  moreover from partition_has_one_owner [OF demo_joined_b this, of "''b''" 2] have
    "ValidateOwnershipFailure ''g'' ''b'' 2 0 (demo False (demo_group 2 3 demo_ab [])) \<noteq> None" by auto
  ultimately show ?thesis ..
qed


theorem committed_offsets_monotone_witness:
  "\<exists>off'. GetOffset ''g'' ''t'' 0 (demo False (demo_group 2 3 demo_ab [(''t'', [(0, 5)])])) = Some off' \<and> 5 \<le> off'"
proof -
  have commit: "group_step (demo False (demo_group 2 3 demo_ab []), None) (demo False (demo_group 2 3 demo_ab [(''t'', [(0, 5)])]), None)"
    by (rule group_step.commit_fenced [OF demo_commit])
  have "GetOffset ''g'' ''t'' 0 (demo False (demo_group 2 3 demo_ab [(''t'', [(0, 5)])])) = Some 5"
    by (simp add: GetOffset_def getOffset_def demo_defs)
  from committed_offsets_monotone [OF rtranclp.rtrancl_into_rtrancl [OF demo_joined_b commit] rtranclp.rtrancl_refl this refl]
  show ?thesis .
qed


end
