(* ===== verification/Group_Recovery.thy ===== *)
theory Group_Recovery
  imports Group_Fencing "HOL-Library.Product_Lexorder"
begin

section \<open>Recovery of consumer metadata\<close>

text \<open>
  \<open>recoverConsumerMetadata\<close> and \<open>materializeConsumerMetadata\<close> of \<open>pkg/coordinator/metadata_record.go\<close>: the
  internal topic is scanned partition by partition in batches, the newest lifecycle record of each group and
  every offset snapshot are collected, and the groups are rebuilt from them. The theorem is the crash
  contract of the standalone coordinator: scanning the log of a reachable state, in any order of its
  records, rebuilds the groups, epochs, revisions and committed offsets of that state; sessions are lost.

  The reader of a partition is a function from an offset and a batch size to the messages read, or
  \<open>None\<close> for a read error; the counters of \<open>ConsumerMetadataRecoveryStatus\<close> are not modelled.
\<close>

subsection \<open>Scanning\<close>

text \<open>\<open>%020d\<close>: a 64-bit value has at most 20 decimal digits.\<close>

primrec dec_fixed :: "nat \<Rightarrow> nat \<Rightarrow> string" where
  "dec_fixed 0 n = []"
| "dec_fixed (Suc k) n = dec_fixed k (n div 10) @ [char_of (48 + n mod 10)]"

definition offsetCandidateIdentity :: "metadataRecord \<Rightarrow> string" where
  "offsetCandidateIdentity r =
     mrGroup r @ CHR 0x00 # mrTopic r @ CHR 0x00 # dec_fixed 20 (unat (mrEpoch r)) @
     CHR 0x00 # dec_fixed 20 (unat (mrRevision r))"

record candidates =
  rcLifecycles :: "(string, metadataRecord) gomap"
  rcOffsets :: "(string, metadataRecord) gomap"

definition scanRecord :: "metadataMessage \<Rightarrow> candidates \<Rightarrow> group_error + candidates" where
  "scanRecord message st =
     (case decodeRecord (xPayload message) of
        None \<Rightarrow> Inl CorruptLog
      | Some r \<Rightarrow>
          if xKey message \<noteq> recordKey r then Inl CorruptLog
          else if mrType r = RecordRegistration \<or> mrType r = RecordTombstone then
            (case map_of (rcLifecycles st) (mrGroup r) of
               None \<Rightarrow> Inr (st\<lparr>rcLifecycles := mput (mrGroup r) r (rcLifecycles st)\<rparr>)
             | Some candidate \<Rightarrow>
                 if mrEpoch r > mrEpoch candidate
                 then Inr (st\<lparr>rcLifecycles := mput (mrGroup r) r (rcLifecycles st)\<rparr>)
                 else if mrEpoch r < mrEpoch candidate then Inr st
                 else if \<not> sameRecord r candidate then Inl ConflictingRecords
                 else Inr st)
          else if mrType r = RecordOffsetSnapshot then
            (case map_of (rcOffsets st) (offsetCandidateIdentity r) of
               None \<Rightarrow> Inr (st\<lparr>rcOffsets := mput (offsetCandidateIdentity r) r (rcOffsets st)\<rparr>)
             | Some candidate \<Rightarrow>
                 if \<not> sameRecord r candidate then Inl ConflictingRecords else Inr st)
          else Inr st)"

text \<open>A batch, from \<open>previous\<close> on: offsets must not go back.\<close>

fun scanBatch :: "u64 \<Rightarrow> (u64 \<times> metadataMessage) list \<Rightarrow> candidates \<Rightarrow> group_error + (u64 \<times> candidates)" where
  "scanBatch previous [] st = Inr (previous, st)"
| "scanBatch previous ((offset, message) # rest) st =
     (if offset < previous then Inl CorruptLog
      else case scanRecord message st of
        Inl err \<Rightarrow> Inl err
      | Inr st \<Rightarrow> scanBatch (offset + 1) rest st)"

definition recoveryBatchSize :: nat where
  "recoveryBatchSize = 1024"

type_synonym partition_reader = "u64 \<Rightarrow> nat \<Rightarrow> (u64 \<times> metadataMessage) list option"

text \<open>The loop over one partition ends for every reader: a batch that does not move the offset is refused.\<close>

function scanPartition :: "partition_reader \<Rightarrow> u64 \<Rightarrow> candidates \<Rightarrow> group_error + candidates" where
  "scanPartition reader offset st =
     (case reader offset recoveryBatchSize of
        None \<Rightarrow> Inl CorruptLog
      | Some messages \<Rightarrow>
          if messages = [] then Inr st
          else case scanBatch offset messages st of
            Inl err \<Rightarrow> Inl err
          | Inr (previous, st) \<Rightarrow>
              if previous \<le> offset then Inl CorruptLog
              else if length messages < recoveryBatchSize then Inr st
              else scanPartition reader previous st)"
  by pat_completeness auto

termination
proof (relation "measure (\<lambda>(reader, offset, st). 2 ^ 64 - unat offset)")
  fix offset previous :: u64
  assume "\<not> previous \<le> offset"
  moreover have "unat previous < 2 ^ 64" using unsigned_less [of previous] by simp
  ultimately show "((reader, previous, st'), (reader, offset, st)) \<in> measure (\<lambda>(reader, offset, st). 2 ^ 64 - unat offset)"
    for reader :: partition_reader and st st' :: candidates
    by (simp add: not_le word_less_nat_alt)
qed simp

declare scanPartition.simps [simp del]

fun scanPartitions :: "(partition_reader \<times> u64) list \<Rightarrow> candidates \<Rightarrow> group_error + candidates" where
  "scanPartitions [] st = Inr st"
| "scanPartitions ((reader, earliest) # rest) st =
     (case scanPartition reader earliest st of Inl err \<Rightarrow> Inl err | Inr st \<Rightarrow> scanPartitions rest st)"

subsection \<open>Rebuilding the groups\<close>

definition recovered_group :: "metadataRecord \<Rightarrow> groupMetadata" where
  "recovered_group r =
     \<lparr>gTopicName = mrTopic r, gMembers = [], gGeneration = 0, gPartitions = makePartitions (mrPartitionCount r),
      gLastRebalance = 0, gLastActivity = 0,
      gOffsets = fold (\<lambda>s. mput (tsTopic s) (offsetItemsToMap (tsOffsets s))) (mrInitialOffsets r) [],
      gRegistrationEpoch = mrEpoch r,
      gOffsetRevisions = fold (\<lambda>s. mput (tsTopic s) (tsRevision s)) (mrInitialOffsets r) []\<rparr>"

definition recoverLifecycle ::
  "metadataRecord \<Rightarrow> (string, groupMetadata) gomap \<times> (string, u64) gomap \<Rightarrow> (string, groupMetadata) gomap \<times> (string, u64) gomap" where
  "recoverLifecycle r = (\<lambda>(groups, epochs).
     (if mrType r = RecordTombstone then groups else mput (mrGroup r) (recovered_group r) groups,
      mput (mrGroup r) (mrEpoch r) epochs))"

definition samePartitionOffsets :: "(int, u64) gomap \<Rightarrow> (int, u64) gomap \<Rightarrow> bool" where
  "samePartitionOffsets left right \<longleftrightarrow>
     length left = length right \<and> list_all (\<lambda>(part, offset). map_of right part = Some offset) left"

definition replayOffset :: "metadataRecord \<Rightarrow> (string, groupMetadata) gomap \<Rightarrow> group_error + (string, groupMetadata) gomap" where
  "replayOffset r groups =
     (case map_of groups (mrGroup r) of
        None \<Rightarrow> Inr groups
      | Some g \<Rightarrow>
          if gRegistrationEpoch g \<noteq> mrEpoch r then Inr groups
          else if \<not> groupTopicMatches (gTopicName g) (mrTopic r) then Inl TopicMismatch
          else let currentRevision = offsetRevision g (mrTopic r) in
            if mrRevision r < currentRevision then Inr groups
            else let nextOffsets = offsetItemsToMap (mrOffsets r);
                     currentOffsets = (case map_of (gOffsets g) (mrTopic r) of None \<Rightarrow> [] | Some ps \<Rightarrow> ps) in
              if list_ex (\<lambda>(part, offset). part \<ge> int (length (gPartitions g))) nextOffsets then Inl InvalidPartition
              else if mrRevision r = currentRevision \<and> currentRevision \<noteq> 0 then
                (if \<not> samePartitionOffsets currentOffsets nextOffsets then Inl ConflictingRecords else Inr groups)
              else if list_ex (\<lambda>(part, current).
                  case map_of nextOffsets part of None \<Rightarrow> True | Some recovered \<Rightarrow> recovered < current) currentOffsets
              then Inl CommittedOffsetRegression
              else Inr (mput (mrGroup r) (g\<lparr>gOffsets := mput (mrTopic r) nextOffsets (gOffsets g),
                     gOffsetRevisions := mput (mrTopic r) (mrRevision r) (gOffsetRevisions g)\<rparr>) groups))"

fun replayOffsets :: "metadataRecord list \<Rightarrow> (string, groupMetadata) gomap \<Rightarrow> group_error + (string, groupMetadata) gomap" where
  "replayOffsets [] groups = Inr groups"
| "replayOffsets (r # rest) groups =
     (case replayOffset r groups of Inl err \<Rightarrow> Inl err | Inr groups \<Rightarrow> replayOffsets rest groups)"

definition materializeConsumerMetadata ::
  "candidates \<Rightarrow> group_error + ((string, groupMetadata) gomap \<times> (string, u64) gomap)" where
  "materializeConsumerMetadata st =
     (let lifecycleNames = sort (mkeys (rcLifecycles st));
          (groups, epochs) =
            fold (\<lambda>name. recoverLifecycle (the (map_of (rcLifecycles st) name))) lifecycleNames ([], []);
          offsetRecords = sort_key (\<lambda>r. (mrGroup r, mrTopic r, mrEpoch r, mrRevision r)) (map snd (rcOffsets st))
      in case replayOffsets offsetRecords groups of
           Inl err \<Rightarrow> Inl err
         | Inr groups \<Rightarrow> Inr (groups, epochs))"

definition recoverConsumerMetadata :: "(partition_reader \<times> u64) list \<Rightarrow> coordinator \<Rightarrow> group_error + coordinator" where
  "recoverConsumerMetadata readers c =
     (case scanPartitions readers \<lparr>rcLifecycles = [], rcOffsets = []\<rparr> of
        Inl err \<Rightarrow> Inl err
      | Inr st \<Rightarrow>
          (case materializeConsumerMetadata st of
             Inl err \<Rightarrow> Inl err
           | Inr (groups, epochs) \<Rightarrow> Inr (c\<lparr>cGroups := groups, cEpochs := epochs, cOwnershipSince := []\<rparr>)))"

subsection \<open>The scan visits every message once\<close>

fun scanMessages :: "metadataMessage list \<Rightarrow> candidates \<Rightarrow> group_error + candidates" where
  "scanMessages [] st = Inr st"
| "scanMessages (m # ms) st = (case scanRecord m st of Inl err \<Rightarrow> Inl err | Inr st \<Rightarrow> scanMessages ms st)"

text \<open>A partition of the internal topic: its messages with ascending offsets, possibly with gaps, and the reader
  the topic manager gives for it.\<close>

definition ascending :: "(u64 \<times> metadataMessage) list \<Rightarrow> bool" where
  "ascending log \<longleftrightarrow> sorted_wrt (\<lambda>x y. fst x < fst y) log \<and> (\<forall>x \<in> set log. fst x + 1 \<noteq> 0)"

definition log_reader :: "(u64 \<times> metadataMessage) list \<Rightarrow> partition_reader" where
  "log_reader log offset n = Some (take n (filter (\<lambda>x. offset \<le> fst x) log))"

lemma u64_succ_le: "x + 1 \<noteq> 0 \<Longrightarrow> x + 1 \<le> y \<longleftrightarrow> x < y" for x y :: u64
  by (simp add: word_le_nat_alt word_less_nat_alt unat_succ Suc_le_eq)

lemma scanBatch_messages:
  assumes "sorted_wrt (\<lambda>x y. fst x < fst y) log" "\<forall>x \<in> set log. fst x + 1 \<noteq> 0" "\<forall>x \<in> set log. previous \<le> fst x"
  shows "scanBatch previous log st =
    (case scanMessages (map snd log) st of
       Inl err \<Rightarrow> Inl err
     | Inr st' \<Rightarrow> Inr (if log = [] then previous else fst (last log) + 1, st'))"
  using assms
proof (induction previous log st rule: scanBatch.induct)
  case (2 previous off message rest st)
  show ?case
  proof (cases "scanRecord message st")
    case (Inl e)
    then show ?thesis using 2(4) by (auto simp: not_less)
  next
    case (Inr st')
    moreover have "\<not> off < previous" using 2(4) by auto
    moreover have "\<forall>x \<in> set rest. off + 1 \<le> fst x" using 2(2,3) by (auto simp: u64_succ_le)
    ultimately show ?thesis using 2(1) [OF _ Inr] 2(2,3) by (auto split: sum.split)
  qed
qed simp

lemma filter_from_take:
  assumes "sorted_wrt (\<lambda>x y. fst x < fst y) (xs :: (u64 \<times> 'a) list)" "0 < n" "n \<le> length xs" "fst (xs ! (n - 1)) + 1 \<noteq> 0"
  shows "filter (\<lambda>x. fst (xs ! (n - 1)) + 1 \<le> fst x) xs = drop n xs"
proof -
  have low: "\<not> fst (xs ! (n - 1)) < fst x" if "x \<in> set (take n xs)" for x
  proof -
    from that obtain i where i: "i < n" "i < length xs" "x = xs ! i" by (auto simp: in_set_conv_nth)
    show ?thesis
    proof (cases "i = n - 1")
      case False
      with i assms(2,3) have "i < n - 1" "n - 1 < length xs" by auto
      from sorted_wrt_nth_less [OF assms(1) this] i(3) show ?thesis by (simp add: less_imp_le)
    qed (use i in simp)
  qed
  have high: "fst (xs ! (n - 1)) < fst x" if "x \<in> set (drop n xs)" for x
  proof -
    from that obtain i where "i < length xs - n" "x = xs ! (n + i)" by (auto simp: in_set_conv_nth)
    then show ?thesis using sorted_wrt_nth_less [OF assms(1), of "n - 1" "n + i"] assms(2) by simp
  qed
  let ?P = "\<lambda>x. fst (xs ! (n - 1)) < fst x"
  have "filter ?P xs = filter ?P (take n xs) @ filter ?P (drop n xs)" by (metis append_take_drop_id filter_append)
  also have "\<dots> = drop n xs" using low high by (simp add: filter_empty_conv filter_id_conv)
  finally show ?thesis unfolding u64_succ_le [OF assms(4)] .
qed

lemma scanMessages_append:
  "scanMessages (xs @ ys) st = (case scanMessages xs st of Inl err \<Rightarrow> Inl err | Inr st \<Rightarrow> scanMessages ys st)"
  by (induction xs arbitrary: st) (auto split: sum.split)

lemma filter_ge_twice: "a \<le> b \<Longrightarrow> filter (\<lambda>x. b \<le> fst x) (filter (\<lambda>x. a \<le> fst x) xs) = filter (\<lambda>x. b \<le> fst x) xs"
  for a b :: u64
  by (auto intro!: filter_cong)

lemma scanPartition_step:
  assumes "reader offset recoveryBatchSize = Some b" "b \<noteq> []" "scanBatch offset b st = Inr (p, st')" "offset < p"
  shows "scanPartition reader offset st =
    (if length b < recoveryBatchSize then Inr st' else scanPartition reader p st')"
  using assms by (subst scanPartition.simps) (auto dest: leD)

lemma scanPartition_messages:
  assumes "ascending log"
  shows "scanPartition (log_reader log) offset st = scanMessages (map snd (filter (\<lambda>x. offset \<le> fst x) log)) st"
proof (induction "log_reader log" offset st rule: scanPartition.induct)
  case (1 offset st)
  let ?rest = "filter (\<lambda>x. offset \<le> fst x) log" and ?n = recoveryBatchSize
  let ?batch = "take ?n ?rest"
  have rest: "sorted_wrt (\<lambda>x y. fst x < fst y) ?rest" "\<forall>x \<in> set ?rest. fst x + 1 \<noteq> 0"
    using assms by (auto simp: ascending_def sorted_wrt_filter)
  have read: "log_reader log offset ?n = Some ?batch" by (simp add: log_reader_def)
  have n: "0 < ?n" by (simp add: recoveryBatchSize_def)
  have batch: "scanBatch offset ?batch st = (case scanMessages (map snd ?batch) st of
       Inl err \<Rightarrow> Inl err | Inr st' \<Rightarrow> Inr (if ?batch = [] then offset else fst (last ?batch) + 1, st'))"
  proof (rule scanBatch_messages)
    show "sorted_wrt (\<lambda>x y. fst x < fst y) ?batch" using rest(1) by (rule sorted_wrt_take)
    show "\<forall>x \<in> set ?batch. fst x + 1 \<noteq> 0" using rest(2) by (meson in_set_takeD)
    show "\<forall>x \<in> set ?batch. offset \<le> fst x" by (auto dest: in_set_takeD)
  qed
  show ?case
  proof (cases "?rest = []")
    case True
    then show ?thesis using read by (subst scanPartition.simps) simp
  next
    case False
    then have nonempty: "?batch \<noteq> []" using n by simp
    show ?thesis
    proof (cases "scanMessages (map snd ?batch) st")
      case (Inl e)
      have "scanMessages (map snd ?rest) st = Inl e"
        using scanMessages_append [of "map snd ?batch" "map snd (drop ?n ?rest)"] Inl by (simp flip: map_append)
      with Inl read batch nonempty show ?thesis by (subst scanPartition.simps) simp
    next
      case (Inr st')
      let ?next = "fst (last ?batch) + 1"
      have last: "last ?batch \<in> set ?rest" using nonempty by (metis in_set_takeD last_in_set)
      then have "?next \<noteq> 0" using rest(2) by blast
      then have "fst (last ?batch) < ?next" using u64_succ_le order_refl by blast
      moreover have "offset \<le> fst (last ?batch)" using last by simp
      ultimately have next_gt: "offset < ?next" by simp
      have whole: "scanMessages (map snd ?rest) st = scanMessages (map snd (drop ?n ?rest)) st'"
        using scanMessages_append [of "map snd ?batch" "map snd (drop ?n ?rest)"] Inr by (simp flip: map_append)
      have "scanBatch offset ?batch st = Inr (?next, st')" using batch Inr nonempty by simp
      note step = scanPartition_step [where reader = "log_reader log", OF read nonempty this next_gt]
      show ?thesis
      proof (cases "length ?batch < ?n")
        case True
        then have "drop ?n ?rest = []" by simp
        with True step whole show ?thesis by (simp only: if_True list.map scanMessages.simps)
      next
        case False
        then have long: "?n \<le> length ?rest" by simp
        then have "last ?batch = ?rest ! (?n - 1)" using n nonempty by (simp add: last_conv_nth min_def)
        then have "filter (\<lambda>x. ?next \<le> fst x) ?rest = drop ?n ?rest"
          using filter_from_take [OF rest(1) n long] rest(2) last by metis
        then have tail: "filter (\<lambda>x. ?next \<le> fst x) log = drop ?n ?rest"
          using filter_ge_twice [of offset ?next log] next_gt by simp
        have "scanPartition (log_reader log) ?next st' = scanMessages (map snd (filter (\<lambda>x. ?next \<le> fst x) log)) st'"
          using read nonempty batch Inr next_gt False by (intro 1(1)) (auto simp: not_le)
        with False step whole tail show ?thesis by (simp only: if_False)
      qed
    qed
  qed
qed

lemma scanPartitions_messages:
  assumes "list_all ascending logs"
  shows "scanPartitions (map (\<lambda>log. (log_reader log, 0)) logs) st = scanMessages (map snd (concat logs)) st"
  using assms
proof (induction logs arbitrary: st)
  case (Cons log logs)
  have "scanPartition (log_reader log) 0 st = scanMessages (map snd log) st"
    using scanPartition_messages [of log 0 st] Cons.prems by simp
  with Cons show ?case by (simp add: scanMessages_append split: sum.split)
qed simp

subsection \<open>What a scan collects\<close>

definition is_lifecycle :: "metadataRecord \<Rightarrow> bool" where
  "is_lifecycle r \<longleftrightarrow> mrType r = RecordRegistration \<or> mrType r = RecordTombstone"

definition is_offset :: "metadataRecord \<Rightarrow> bool" where
  "is_offset r \<longleftrightarrow> mrType r = RecordOffsetSnapshot"

text \<open>A message as the coordinator writes it.\<close>

definition carries :: "metadataMessage \<Rightarrow> metadataRecord \<Rightarrow> bool" where
  "carries m r \<longleftrightarrow> xPayload m = Some r \<and> canonicalRecord r = r \<and> validateRecord r \<and> xKey m = recordKey r"

text \<open>Records that do not conflict, with names free of the separator of the offset identity.\<close>

definition coherent_records :: "metadataRecord set \<Rightarrow> bool" where
  "coherent_records R \<longleftrightarrow>
     (\<forall>r \<in> R. \<forall>r' \<in> R. is_lifecycle r \<and> is_lifecycle r' \<and> mrGroup r = mrGroup r' \<and> mrEpoch r = mrEpoch r' \<longrightarrow> r = r') \<and>
     (\<forall>r \<in> R. \<forall>r' \<in> R. is_offset r \<and> is_offset r' \<and> mrGroup r = mrGroup r' \<and> mrTopic r = mrTopic r' \<and>
        mrEpoch r = mrEpoch r' \<and> mrRevision r = mrRevision r' \<longrightarrow> r = r') \<and>
     (\<forall>r \<in> R. CHR 0x00 \<notin> set (mrGroup r) \<and> CHR 0x00 \<notin> set (mrTopic r))"

definition collected :: "metadataRecord set \<Rightarrow> candidates \<Rightarrow> bool" where
  "collected R st \<longleftrightarrow>
     mwf (rcLifecycles st) \<and> mwf (rcOffsets st) \<and>
     (\<forall>n r. map_of (rcLifecycles st) n = Some r \<longrightarrow> r \<in> R \<and> is_lifecycle r \<and> mrGroup r = n \<and>
        (\<forall>r' \<in> R. is_lifecycle r' \<and> mrGroup r' = n \<longrightarrow> mrEpoch r' \<le> mrEpoch r)) \<and>
     (\<forall>r \<in> R. is_lifecycle r \<longrightarrow> map_of (rcLifecycles st) (mrGroup r) \<noteq> None) \<and>
     (\<forall>k r. map_of (rcOffsets st) k = Some r \<longrightarrow> r \<in> R \<and> is_offset r \<and> k = offsetCandidateIdentity r) \<and>
     (\<forall>r \<in> R. is_offset r \<longrightarrow> map_of (rcOffsets st) (offsetCandidateIdentity r) = Some r)"

lemma length_dec_fixed [simp]: "length (dec_fixed k n) = k"
  by (induction k arbitrary: n) simp_all

lemma dec_fixed_inj: "dec_fixed k m = dec_fixed k n \<Longrightarrow> m < 10 ^ k \<Longrightarrow> n < 10 ^ k \<Longrightarrow> m = n"
proof (induction k arbitrary: m n)
  case (Suc k)
  have digit: "(char_of (48 + i mod 10) :: char) = char_of (48 + j mod 10) \<Longrightarrow> i mod 10 = j mod 10" for i j :: nat
  proof -
    assume "(char_of (48 + i mod 10) :: char) = char_of (48 + j mod 10)"
    then have "(48 + i mod 10) mod 256 = (48 + j mod 10) mod 256" by (metis of_char_of)
    then show ?thesis by simp
  qed
  from Suc.prems have "dec_fixed k (m div 10) = dec_fixed k (n div 10)" "m mod 10 = n mod 10"
    using digit by simp_all
  moreover have "m div 10 < 10 ^ k" "n div 10 < 10 ^ k" using Suc.prems by (simp_all add: less_mult_imp_div_less)
  ultimately have "m div 10 = n div 10" "m mod 10 = n mod 10" using Suc.IH by simp_all
  then show ?case by (metis div_mult_mod_eq)
qed simp

lemma dec_fixed_u64: "dec_fixed 20 (unat (x :: u64)) = dec_fixed 20 (unat y) \<Longrightarrow> x = y"
proof -
  have "unat z < 10 ^ 20" for z :: u64
    using unsigned_less [of z, where 'a = nat] by (rule order_less_le_trans) simp
  then show "dec_fixed 20 (unat x) = dec_fixed 20 (unat y) \<Longrightarrow> x = y" using dec_fixed_inj unsigned_word_eqI by blast
qed

lemma append_sep_inj: "c \<notin> set a \<Longrightarrow> c \<notin> set b \<Longrightarrow> a @ c # x = b @ c # y \<longleftrightarrow> a = b \<and> x = y"
proof (induction a arbitrary: b)
  case Nil
  then show ?case by (cases b) auto
next
  case (Cons u a)
  then show ?case by (cases b) auto
qed

lemma offsetCandidateIdentity_inj:
  assumes "coherent_records R" "r \<in> R" "r' \<in> R" "is_offset r" "is_offset r'"
    and "offsetCandidateIdentity r = offsetCandidateIdentity r'"
  shows "r = r'"
proof -
  have "CHR 0x00 \<notin> set (mrGroup r)" "CHR 0x00 \<notin> set (mrTopic r)" "CHR 0x00 \<notin> set (mrGroup r')" "CHR 0x00 \<notin> set (mrTopic r')"
    using assms(1-3) by (simp_all add: coherent_records_def)
  then have "mrGroup r = mrGroup r' \<and> mrTopic r = mrTopic r' \<and>
      dec_fixed 20 (unat (mrEpoch r)) @ CHR 0x00 # dec_fixed 20 (unat (mrRevision r)) =
      dec_fixed 20 (unat (mrEpoch r')) @ CHR 0x00 # dec_fixed 20 (unat (mrRevision r'))"
    using assms(6) by (simp add: offsetCandidateIdentity_def append_sep_inj)
  then have "mrGroup r = mrGroup r'" "mrTopic r = mrTopic r'" "mrEpoch r = mrEpoch r'" "mrRevision r = mrRevision r'"
    by (auto dest: dec_fixed_u64)
  with assms(1-5) show ?thesis by (simp add: coherent_records_def)
qed

lemma sameRecord_refl [simp]: "sameRecord r r"
  by (simp add: sameRecord_def)

lemma coherent_recordsD:
  "coherent_records R \<Longrightarrow> r \<in> R \<Longrightarrow> r' \<in> R \<Longrightarrow> is_lifecycle r \<Longrightarrow> is_lifecycle r' \<Longrightarrow>
   mrGroup r = mrGroup r' \<Longrightarrow> mrEpoch r = mrEpoch r' \<Longrightarrow> r = r'"
  by (simp add: coherent_records_def)

lemma carries_decode: "carries m r \<Longrightarrow> decodeRecord (xPayload m) = Some r"
  by (simp add: carries_def decodeRecord_def Let_def)

lemma carries_kind: "carries m r \<Longrightarrow> is_lifecycle r \<or> is_offset r"
  by (auto simp: carries_def validateRecord_def is_lifecycle_def is_offset_def split: if_splits)

lemma kinds_differ: "is_lifecycle r \<Longrightarrow> \<not> is_offset r"
  by (auto simp: is_lifecycle_def is_offset_def record_type_defs)

lemma scanRecord_lifecycle:
  assumes "collected R st" "carries m r" "is_lifecycle r" "coherent_records (insert r R)"
  shows "\<exists>st'. scanRecord m st = Inr st' \<and> collected (insert r R) st'"
proof -
  have key: "xKey m = recordKey r" and type: "mrType r = RecordRegistration \<or> mrType r = RecordTombstone"
    using assms(2,3) by (simp_all add: carries_def is_lifecycle_def)
  note col = assms(1) [unfolded collected_def]
  note off = kinds_differ [OF assms(3)]
  show ?thesis
  proof (cases "map_of (rcLifecycles st) (mrGroup r)")
    case None
    then have "scanRecord m st = Inr (st\<lparr>rcLifecycles := mput (mrGroup r) r (rcLifecycles st)\<rparr>)"
      by (simp add: scanRecord_def carries_decode [OF assms(2)] key type)
    moreover have "collected (insert r R) (st\<lparr>rcLifecycles := mput (mrGroup r) r (rcLifecycles st)\<rparr>)"
      using col None assms(3) off by (auto simp: collected_def)
    ultimately show ?thesis by blast
  next
    case (Some s)
    then have s: "s \<in> R" "is_lifecycle s" "mrGroup s = mrGroup r"
      and top: "\<forall>r' \<in> R. is_lifecycle r' \<and> mrGroup r' = mrGroup r \<longrightarrow> mrEpoch r' \<le> mrEpoch s" using col by blast+
    consider "mrEpoch r > mrEpoch s" | "mrEpoch r < mrEpoch s" | "r = s"
      using coherent_recordsD [OF assms(4), of r s] s assms(3) by fastforce
    then show ?thesis
    proof cases
      case 1
      with top have top': "\<forall>r' \<in> R. is_lifecycle r' \<and> mrGroup r' = mrGroup r \<longrightarrow> mrEpoch r' \<le> mrEpoch r"
        by (meson order_less_imp_le order_trans)
      from 1 have "scanRecord m st = Inr (st\<lparr>rcLifecycles := mput (mrGroup r) r (rcLifecycles st)\<rparr>)"
        by (simp add: scanRecord_def carries_decode [OF assms(2)] key type Some)
      moreover have "collected (insert r R) (st\<lparr>rcLifecycles := mput (mrGroup r) r (rcLifecycles st)\<rparr>)"
        using col Some assms(3) off top' by (auto simp: collected_def)
      ultimately show ?thesis by blast
    next
      case 2
      then have "scanRecord m st = Inr st"
        by (simp add: scanRecord_def carries_decode [OF assms(2)] key type Some)
      moreover have "collected (insert r R) st" using col Some assms(3) off 2 by (auto simp: collected_def)
      ultimately show ?thesis by blast
    next
      case 3
      with Some have "scanRecord m st = Inr st"
        using type by (auto simp: scanRecord_def carries_decode [OF assms(2)] key)
      moreover have "insert r R = R" using 3 s by auto
      ultimately show ?thesis using assms(1) by simp
    qed
  qed
qed

lemma scanRecord_offset:
  assumes "collected R st" "carries m r" "is_offset r" "coherent_records (insert r R)"
  shows "\<exists>st'. scanRecord m st = Inr st' \<and> collected (insert r R) st'"
proof -
  have key: "xKey m = recordKey r" and type: "mrType r = RecordOffsetSnapshot"
    using assms(2,3) by (simp_all add: carries_def is_offset_def)
  have other: "RecordOffsetSnapshot \<noteq> RecordRegistration" "RecordOffsetSnapshot \<noteq> RecordTombstone"
    by (simp_all add: record_type_defs)
  note col = assms(1) [unfolded collected_def]
  have life: "\<not> is_lifecycle r" using assms(3) kinds_differ by blast
  show ?thesis
  proof (cases "map_of (rcOffsets st) (offsetCandidateIdentity r)")
    case None
    then have "scanRecord m st = Inr (st\<lparr>rcOffsets := mput (offsetCandidateIdentity r) r (rcOffsets st)\<rparr>)"
      by (simp add: scanRecord_def carries_decode [OF assms(2)] key type other)
    moreover have "offsetCandidateIdentity r' \<noteq> offsetCandidateIdentity r" if "r' \<in> R" "is_offset r'" for r'
      using col None that by (metis option.distinct(1))
    then have "collected (insert r R) (st\<lparr>rcOffsets := mput (offsetCandidateIdentity r) r (rcOffsets st)\<rparr>)"
      using col None assms(3) life by (auto simp: collected_def)
    ultimately show ?thesis by blast
  next
    case (Some s)
    then have s: "s \<in> R" "is_offset s" "offsetCandidateIdentity r = offsetCandidateIdentity s" using col by blast+
    then have "r = s" using offsetCandidateIdentity_inj [OF assms(4), of r s] assms(3) by simp
    with Some type have "scanRecord m st = Inr st"
      by (auto simp: scanRecord_def carries_decode [OF assms(2)] key other)
    moreover have "insert r R = R" using \<open>r = s\<close> s by auto
    ultimately show ?thesis using assms(1) by simp
  qed
qed

lemma scanMessages_collects:
  assumes "list_all2 carries ms rs" "collected R st" "coherent_records (set rs \<union> R)"
  shows "\<exists>st'. scanMessages ms st = Inr st' \<and> collected (set rs \<union> R) st'"
  using assms
proof (induction ms rs arbitrary: R st rule: list_all2_induct)
  case (Cons m ms r rs)
  have "coherent_records (insert r R)" using Cons.prems(2) by (auto simp: coherent_records_def)
  with Cons.prems(1) Cons.hyps(1) obtain st1 where "scanRecord m st = Inr st1" "collected (insert r R) st1"
    using carries_kind scanRecord_lifecycle scanRecord_offset by metis
  with Cons.IH [of "insert r R" st1] Cons.prems(2) show ?case by simp
qed simp

subsection \<open>What the durable state is\<close>

text \<open>The part of a group that outlives the process.\<close>

record durable_group =
  dTopic :: string
  dCount :: int
  dOffset :: "string \<Rightarrow> int \<Rightarrow> u64 option"
  dRevision :: "string \<Rightarrow> u64"

definition durable_of :: "groupMetadata \<Rightarrow> durable_group" where
  "durable_of g = \<lparr>dTopic = gTopicName g, dCount = int (length (gPartitions g)), dOffset = getOffset g, dRevision = offsetRevision g\<rparr>"

definition record_offsets :: "metadataRecord \<Rightarrow> int \<Rightarrow> u64 option" where
  "record_offsets r = map_of (item_pairs (mrOffsets r))"

definition map_le :: "(int \<Rightarrow> u64 option) \<Rightarrow> (int \<Rightarrow> u64 option) \<Rightarrow> bool" where
  "map_le f f' \<longleftrightarrow> (\<forall>p x. f p = Some x \<longrightarrow> (\<exists>x'. f' p = Some x' \<and> x \<le> x'))"

text \<open>The records of a log that are about the current registration of a group and a topic.\<close>

definition current_records :: "metadataRecord set \<Rightarrow> string \<Rightarrow> u64 \<Rightarrow> string \<Rightarrow> metadataRecord set" where
  "current_records R n e t = {r \<in> R. is_offset r \<and> mrGroup r = n \<and> mrEpoch r = e \<and> mrTopic r = t}"

text \<open>A log tells the durable state: the newest lifecycle record of a name is its registration or its
  tombstone, the snapshots of the current registration have increasing offsets, and the newest one has the
  committed offsets.\<close>

definition lifecycle_told :: "metadataRecord set \<Rightarrow> (string \<Rightarrow> u64) \<Rightarrow> (string \<Rightarrow> durable_group option) \<Rightarrow> bool" where
  "lifecycle_told R epoch state \<longleftrightarrow>
     (\<forall>r \<in> R. mrEpoch r \<le> epoch (mrGroup r)) \<and>
     (\<forall>n. epoch n = 0 \<longrightarrow> state n = None) \<and>
     (\<forall>n. epoch n \<noteq> 0 \<longrightarrow> (\<exists>r \<in> R. is_lifecycle r \<and> mrGroup r = n \<and> mrEpoch r = epoch n \<and>
        (case state n of
           None \<Rightarrow> mrType r = RecordTombstone
         | Some d \<Rightarrow> mrType r = RecordRegistration \<and> mrTopic r = dTopic d \<and> mrPartitionCount r = dCount d \<and>
             mrInitialOffsets r = [])))"

definition offsets_told :: "metadataRecord set \<Rightarrow> (string \<Rightarrow> u64) \<Rightarrow> (string \<Rightarrow> durable_group option) \<Rightarrow> bool" where
  "offsets_told R epoch state \<longleftrightarrow>
     (\<forall>n d t. state n = Some d \<longrightarrow>
        (\<forall>r \<in> current_records R n (epoch n) t.
           groupTopicMatches (dTopic d) t \<and> mrRevision r \<le> dRevision d t \<and>
           distinct (map oiPartition (mrOffsets r)) \<and> (\<forall>i \<in> set (mrOffsets r). oiPartition i < dCount d) \<and>
           (\<forall>r' \<in> current_records R n (epoch n) t. mrRevision r \<le> mrRevision r' \<longrightarrow>
              map_le (record_offsets r) (record_offsets r'))) \<and>
        (if dRevision d t = 0 then dOffset d t = (\<lambda>_. None)
         else \<exists>r \<in> current_records R n (epoch n) t. mrRevision r = dRevision d t \<and> record_offsets r = dOffset d t))"

subsection \<open>Replaying the snapshots\<close>

definition concerns :: "string \<Rightarrow> u64 \<Rightarrow> string \<Rightarrow> metadataRecord \<Rightarrow> bool" where
  "concerns n e t r \<longleftrightarrow> mrGroup r = n \<and> mrEpoch r = e \<and> mrTopic r = t"

definition last_offsets :: "metadataRecord list \<Rightarrow> int \<Rightarrow> u64 option" where
  "last_offsets rs = (if rs = [] then (\<lambda>_. None) else record_offsets (last rs))"

definition last_revision :: "metadataRecord list \<Rightarrow> u64" where
  "last_revision rs = (if rs = [] then 0 else mrRevision (last rs))"

text \<open>A group rebuilt from a list of snapshots shows, for each topic, the last one that concerns it.\<close>

definition shows_last :: "string \<Rightarrow> metadataRecord list \<Rightarrow> groupMetadata \<Rightarrow> bool" where
  "shows_last n rs g \<longleftrightarrow>
     (\<forall>t. getOffset g t = last_offsets (filter (concerns n (gRegistrationEpoch g) t) rs) \<and>
          offsetRevision g t = last_revision (filter (concerns n (gRegistrationEpoch g) t) rs)) \<and>
     mwf (gOffsets g) \<and> (\<forall>(t, ps) \<in> set (gOffsets g). mwf ps)"

lemma offsetItemsToMap_lookup:
  assumes "distinct (map oiPartition items)"
  shows "map_of (offsetItemsToMap items) = map_of (item_pairs items)"
proof -
  have "map_of (fold (\<lambda>i. mput (oiPartition i) (oiOffset i)) items m) = map_of m ++ map_of (item_pairs items)" for m
    using assms
  proof (induction items arbitrary: m)
    case (Cons i items)
    then have "oiPartition i \<notin> dom (map_of (item_pairs items))"
      by (auto simp: item_pairs_def dom_map_of_conv_image_fst)
    with Cons show ?case by (auto simp: item_pairs_def map_add_def fun_eq_iff split: option.split)
  qed (simp add: item_pairs_def)
  from this [of "[]"] show ?thesis by (simp add: offsetItemsToMap_def)
qed

lemma mwf_offsetItemsToMap [simp]: "mwf (offsetItemsToMap items)"
proof -
  have "mwf m \<Longrightarrow> mwf (fold (\<lambda>i. mput (oiPartition i) (oiOffset i)) items m)" for m :: "(int, u64) gomap"
    by (induction items arbitrary: m) auto
  then show ?thesis by (simp add: offsetItemsToMap_def)
qed

lemma current_offsets_lookup:
  "map_of (case map_of (gOffsets g) t of None \<Rightarrow> [] | Some ps \<Rightarrow> ps) = getOffset g t"
  by (auto simp: getOffset_def fun_eq_iff split: option.split)

lemma replayOffset_newer:
  assumes g: "map_of groups (mrGroup r) = Some g" "gRegistrationEpoch g = mrEpoch r"
    and ok: "groupTopicMatches (gTopicName g) (mrTopic r)" "offsetRevision g (mrTopic r) < mrRevision r"
      "distinct (map oiPartition (mrOffsets r))" "\<forall>i \<in> set (mrOffsets r). oiPartition i < int (length (gPartitions g))"
      "map_le (getOffset g (mrTopic r)) (record_offsets r)"
    and wf: "mwf (gOffsets g)" "\<forall>(t, ps) \<in> set (gOffsets g). mwf ps"
  shows "replayOffset r groups = Inr (mput (mrGroup r) (g\<lparr>gOffsets := mput (mrTopic r) (offsetItemsToMap (mrOffsets r)) (gOffsets g),
      gOffsetRevisions := mput (mrTopic r) (mrRevision r) (gOffsetRevisions g)\<rparr>) groups)"
proof -
  define cur where "cur = (case map_of (gOffsets g) (mrTopic r) of None \<Rightarrow> [] | Some ps \<Rightarrow> ps)"
  have lookup: "map_of (offsetItemsToMap (mrOffsets r)) = record_offsets r"
    using offsetItemsToMap_lookup [OF ok(3)] by (simp add: record_offsets_def)
  have "fst ` set (offsetItemsToMap (mrOffsets r)) = oiPartition ` set (mrOffsets r)"
    using arg_cong [OF offsetItemsToMap_lookup [OF ok(3)], of dom]
    by (simp add: dom_map_of_conv_image_fst item_pairs_def image_image)
  then have "\<forall>p \<in> fst ` set (offsetItemsToMap (mrOffsets r)). p < int (length (gPartitions g))" using ok(4) by auto
  then have range: "\<not> list_ex (\<lambda>(p, off). int (length (gPartitions g)) \<le> p) (offsetItemsToMap (mrOffsets r))"
    by (auto simp: list_ex_iff)
  have "mwf cur"
  proof (cases "map_of (gOffsets g) (mrTopic r)")
    case (Some ps)
    from ball_map_of [where P = "\<lambda>t ps. mwf ps", OF wf(2) Some] Some show ?thesis by (simp add: cur_def)
  qed (simp add: cur_def)
  then have cur: "getOffset g (mrTopic r) p = Some x" if "(p, x) \<in> set cur" for p x
    using that mwf_in_set current_offsets_lookup [of g "mrTopic r"] unfolding cur_def by metis
  have "\<not> list_ex (\<lambda>(p, current). case record_offsets r p of None \<Rightarrow> True | Some recovered \<Rightarrow> recovered < current) cur"
    using cur ok(5) by (fastforce simp: list_ex_iff map_le_def)
  moreover have "\<not> mrRevision r < offsetRevision g (mrTopic r)" "mrRevision r \<noteq> offsetRevision g (mrTopic r)"
    using ok(2) by auto
  ultimately show ?thesis
    using range g ok(1) by (simp add: replayOffset_def Let_def lookup flip: cur_def)
qed

lemma replayOffset_other:
  assumes "map_of groups (mrGroup r) = None \<or> gRegistrationEpoch (the (map_of groups (mrGroup r))) \<noteq> mrEpoch r"
  shows "replayOffset r groups = Inr groups"
  using assms by (cases "map_of groups (mrGroup r)") (auto simp: replayOffset_def)

lemma replayOffsets_snoc:
  "replayOffsets (rs @ [r]) groups = (case replayOffsets rs groups of Inl err \<Rightarrow> Inl err | Inr gs \<Rightarrow> replayOffset r gs)"
  by (induction rs arbitrary: groups) (auto split: sum.split)

definition record_order :: "metadataRecord \<Rightarrow> string \<times> string \<times> u64 \<times> u64" where
  "record_order r = (mrGroup r, mrTopic r, mrEpoch r, mrRevision r)"

definition replayable :: "(string, groupMetadata) gomap \<Rightarrow> metadataRecord list \<Rightarrow> bool" where
  "replayable groups rs \<longleftrightarrow>
     (\<forall>r \<in> set rs. mrRevision r \<noteq> 0 \<and>
        (\<forall>g. map_of groups (mrGroup r) = Some g \<and> gRegistrationEpoch g = mrEpoch r \<longrightarrow>
           groupTopicMatches (gTopicName g) (mrTopic r) \<and> distinct (map oiPartition (mrOffsets r)) \<and>
           (\<forall>i \<in> set (mrOffsets r). oiPartition i < int (length (gPartitions g))) \<and>
           (\<forall>r' \<in> set rs. concerns (mrGroup r) (mrEpoch r) (mrTopic r) r' \<and> mrRevision r \<le> mrRevision r' \<longrightarrow>
              map_le (record_offsets r) (record_offsets r'))))"

definition same_registration :: "groupMetadata \<Rightarrow> groupMetadata \<Rightarrow> bool" where
  "same_registration g g' \<longleftrightarrow>
     gTopicName g' = gTopicName g \<and> gPartitions g' = gPartitions g \<and> gRegistrationEpoch g' = gRegistrationEpoch g \<and>
     gMembers g' = gMembers g \<and> gGeneration g' = gGeneration g"

lemma replayable_prefix: "replayable groups (rs @ [r]) \<Longrightarrow> replayable groups rs"
  by (auto simp: replayable_def)

lemma concerns_self [simp]: "concerns (mrGroup r) (mrEpoch r) (mrTopic r) r"
  by (simp add: concerns_def)

lemma shows_last_step:
  assumes shown: "shows_last n rs g" and r: "mrGroup r = n" "mrEpoch r = gRegistrationEpoch g"
    and d: "distinct (map oiPartition (mrOffsets r))"
  shows "shows_last n (rs @ [r]) (g\<lparr>gOffsets := mput (mrTopic r) (offsetItemsToMap (mrOffsets r)) (gOffsets g),
      gOffsetRevisions := mput (mrTopic r) (mrRevision r) (gOffsetRevisions g)\<rparr>)" (is "shows_last n _ ?g")
proof -
  have off: "getOffset ?g t = (if t = mrTopic r then record_offsets r else getOffset g t)" for t
    using offsetItemsToMap_lookup [OF d] by (auto simp: getOffset_def record_offsets_def fun_eq_iff split: option.split)
  have rev: "offsetRevision ?g t = (if t = mrTopic r then mrRevision r else offsetRevision g t)" for t
    by (simp add: offsetRevision_def)
  have filt: "filter (concerns n (gRegistrationEpoch g) t) (rs @ [r]) =
      (if t = mrTopic r then filter (concerns n (gRegistrationEpoch g) t) rs @ [r] else filter (concerns n (gRegistrationEpoch g) t) rs)" for t
    using r by (auto simp: concerns_def)
  from shown have "\<forall>(t, ps) \<in> set (gOffsets g). mwf ps" by (simp add: shows_last_def)
  from ball_mput [where P = "\<lambda>t ps. mwf ps", OF this mwf_offsetItemsToMap] have "\<forall>(t, ps) \<in> set (gOffsets ?g). mwf ps" by simp
  moreover have "mwf (gOffsets ?g)" using shown by (simp add: shows_last_def)
  ultimately show ?thesis
    unfolding shows_last_def off rev
    using shown filt by (simp add: shows_last_def last_offsets_def last_revision_def)
qed

lemma shows_last_skip:
  assumes "shows_last n rs g" "\<not> (mrGroup r = n \<and> mrEpoch r = gRegistrationEpoch g)"
  shows "shows_last n (rs @ [r]) g"
proof -
  have "\<not> concerns n (gRegistrationEpoch g) t r" for t using assms(2) by (auto simp: concerns_def)
  with assms(1) show ?thesis by (simp add: shows_last_def)
qed

lemma last_before:
  assumes "sorted_wrt (\<lambda>x y. record_order x < record_order y) (rs @ [r])" "mrRevision r \<noteq> 0"
    and "e = mrEpoch r" "n = mrGroup r"
  shows "last_revision (filter (concerns n e (mrTopic r)) rs) < mrRevision r"
proof (cases "filter (concerns n e (mrTopic r)) rs = []")
  case True
  then show ?thesis using assms(2) by (simp add: last_revision_def word_neq_0_conv)
next
  case False
  let ?x = "last (filter (concerns n e (mrTopic r)) rs)"
  have x: "?x \<in> set rs" "concerns n e (mrTopic r) ?x" using last_in_set [OF False] by auto
  have "record_order ?x < record_order r" using assms(1) x(1) by (auto simp: sorted_wrt_append)
  then have "mrRevision ?x < mrRevision r" using x(2) assms(3,4) by (auto simp: record_order_def concerns_def)
  with False show ?thesis by (simp add: last_revision_def)
qed

lemma last_below:
  assumes "replayable groups (rs @ [r])" "sorted_wrt (\<lambda>x y. record_order x < record_order y) (rs @ [r])"
    and "map_of groups (mrGroup r) = Some g" "gRegistrationEpoch g = mrEpoch r"
  shows "map_le (last_offsets (filter (concerns (mrGroup r) (mrEpoch r) (mrTopic r)) rs)) (record_offsets r)"
proof (cases "filter (concerns (mrGroup r) (mrEpoch r) (mrTopic r)) rs = []")
  case True
  then show ?thesis by (simp add: last_offsets_def map_le_def)
next
  case False
  let ?x = "last (filter (concerns (mrGroup r) (mrEpoch r) (mrTopic r)) rs)"
  have x: "?x \<in> set rs" "concerns (mrGroup r) (mrEpoch r) (mrTopic r) ?x" using last_in_set [OF False] by auto
  have "mrRevision r \<noteq> 0" using assms(1) by (simp add: replayable_def)
  from last_before [OF assms(2) this refl refl] False have "mrRevision ?x \<le> mrRevision r" by (simp add: last_revision_def)
  moreover have "map_of groups (mrGroup ?x) = Some g" "gRegistrationEpoch g = mrEpoch ?x"
    "concerns (mrGroup ?x) (mrEpoch ?x) (mrTopic ?x) r" using x(2) assms(3,4) by (auto simp: concerns_def)
  ultimately have "map_le (record_offsets ?x) (record_offsets r)" using assms(1) x(1) by (auto simp: replayable_def)
  with False show ?thesis by (simp add: last_offsets_def)
qed

lemma replayOffsets_shows:
  assumes "\<And>n g. map_of groups n = Some g \<Longrightarrow> shows_last n [] g"
    and "replayable groups rs" "sorted_wrt (\<lambda>x y. record_order x < record_order y) rs"
  shows "\<exists>gs. replayOffsets rs groups = Inr gs \<and>
    (\<forall>n. rel_option (\<lambda>g0 g. same_registration g0 g \<and> shows_last n rs g) (map_of groups n) (map_of gs n))"
  using assms(2,3)
proof (induction rs rule: rev_induct)
  case Nil
  have "rel_option (\<lambda>g0 g. same_registration g0 g \<and> shows_last n [] g) (map_of groups n) (map_of groups n)" for n
    using assms(1) by (cases "map_of groups n") (auto simp: same_registration_def)
  then show ?case by simp
next
  case (snoc r rs)
  have pre: "replayable groups rs" "sorted_wrt (\<lambda>x y. record_order x < record_order y) rs"
    using snoc.prems by (auto intro: replayable_prefix simp: sorted_wrt_append)
  then obtain gs where gs: "replayOffsets rs groups = Inr gs"
    and rel: "\<And>n. rel_option (\<lambda>g0 g. same_registration g0 g \<and> shows_last n rs g) (map_of groups n) (map_of gs n)"
    using snoc.IH by blast
  let ?n = "mrGroup r"
  show ?case
  proof (cases "map_of gs ?n = None \<or> gRegistrationEpoch (the (map_of gs ?n)) \<noteq> mrEpoch r")
    case True
    then have "replayOffsets (rs @ [r]) groups = Inr gs"
      by (simp add: replayOffsets_snoc gs replayOffset_other)
    moreover have "rel_option (\<lambda>g0 g. same_registration g0 g \<and> shows_last n (rs @ [r]) g) (map_of groups n) (map_of gs n)" for n
      using rel [of n] True by (cases "map_of groups n"; cases "map_of gs n") (auto intro: shows_last_skip)
    ultimately show ?thesis by blast
  next
    case False
    then obtain g where g: "map_of gs ?n = Some g" "gRegistrationEpoch g = mrEpoch r" by auto
    with rel [of ?n] obtain g0 where g0: "map_of groups ?n = Some g0" "same_registration g0 g" and shown: "shows_last ?n rs g"
      by (cases "map_of groups ?n") auto
    then have epoch: "gRegistrationEpoch g0 = mrEpoch r" using g(2) by (simp add: same_registration_def)
    then have ok: "mrRevision r \<noteq> 0" "groupTopicMatches (gTopicName g) (mrTopic r)" "distinct (map oiPartition (mrOffsets r))"
      "\<forall>i \<in> set (mrOffsets r). oiPartition i < int (length (gPartitions g))"
      using snoc.prems(1) g0 by (auto simp: replayable_def same_registration_def)
    have "offsetRevision g (mrTopic r) < mrRevision r"
      using last_before [OF snoc.prems(2) ok(1) refl refl] shown g(2) by (simp add: shows_last_def)
    moreover have "map_le (getOffset g (mrTopic r)) (record_offsets r)"
      using last_below [OF snoc.prems g0(1) epoch] shown g(2) by (simp add: shows_last_def)
    ultimately have replay: "replayOffset r gs = Inr (mput ?n (g\<lparr>gOffsets := mput (mrTopic r) (offsetItemsToMap (mrOffsets r)) (gOffsets g),
        gOffsetRevisions := mput (mrTopic r) (mrRevision r) (gOffsetRevisions g)\<rparr>) gs)" (is "_ = Inr (mput ?n ?g gs)")
      using shown by (intro replayOffset_newer [OF g ok(2) _ ok(3,4)]) (auto simp: shows_last_def)
    have "shows_last ?n (rs @ [r]) ?g" using shows_last_step [OF shown refl] g(2) ok(3) by simp
    moreover have "same_registration g0 ?g" using g0(2) by (simp add: same_registration_def)
    ultimately have "rel_option (\<lambda>g0 g. same_registration g0 g \<and> shows_last n (rs @ [r]) g) (map_of groups n) (map_of (mput ?n ?g gs) n)" for n
      using rel [of n] g0 by (cases "n = ?n"; cases "map_of groups n"; cases "map_of gs n") (auto intro: shows_last_skip)
    with replay show ?thesis by (simp add: replayOffsets_snoc gs)
  qed
qed

subsection \<open>Rebuilding the durable state\<close>

lemma recoverLifecycles_lookup:
  assumes "distinct names" "\<And>n. n \<in> set names \<Longrightarrow> mrGroup (f n) = n"
  shows "map_of (fst (fold (\<lambda>n. recoverLifecycle (f n)) names (gs, es))) k =
      (if k \<in> set names \<and> mrType (f k) \<noteq> RecordTombstone then Some (recovered_group (f k)) else map_of gs k)"
    and "map_of (snd (fold (\<lambda>n. recoverLifecycle (f n)) names (gs, es))) k =
      (if k \<in> set names then Some (mrEpoch (f k)) else map_of es k)"
  using assms
  by (induction names arbitrary: gs es) (auto simp: recoverLifecycle_def)

lemma newest_lifecycle:
  assumes told: "lifecycle_told R epoch state" and col: "collected R st" and coh: "coherent_records R"
    and valid: "\<forall>r \<in> R. mrEpoch r \<noteq> 0"
  shows "map_of (rcLifecycles st) n = None \<longleftrightarrow> epoch n = 0"
    and "map_of (rcLifecycles st) n = Some r \<Longrightarrow> r \<in> R \<and> mrGroup r = n \<and> mrEpoch r = epoch n \<and>
      (case state n of
         None \<Rightarrow> mrType r = RecordTombstone
       | Some d \<Rightarrow> mrType r = RecordRegistration \<and> mrTopic r = dTopic d \<and> mrPartitionCount r = dCount d \<and> mrInitialOffsets r = [])"
proof -
  have found: "r \<in> R \<and> is_lifecycle r \<and> mrGroup r = n \<and>
      (\<forall>r' \<in> R. is_lifecycle r' \<and> mrGroup r' = n \<longrightarrow> mrEpoch r' \<le> mrEpoch r)"
    if "map_of (rcLifecycles st) n = Some r" for r
    using col that unfolding collected_def by blast
  have upper: "\<forall>r \<in> R. mrEpoch r \<le> epoch (mrGroup r)" using told by (simp add: lifecycle_told_def)
  have top: "\<exists>r \<in> R. is_lifecycle r \<and> mrGroup r = n \<and> mrEpoch r = epoch n \<and>
      (case state n of
         None \<Rightarrow> mrType r = RecordTombstone
       | Some d \<Rightarrow> mrType r = RecordRegistration \<and> mrTopic r = dTopic d \<and> mrPartitionCount r = dCount d \<and> mrInitialOffsets r = [])"
    if "epoch n \<noteq> 0" using told that unfolding lifecycle_told_def by blast
  show none: "map_of (rcLifecycles st) n = None \<longleftrightarrow> epoch n = 0"
  proof
    assume "map_of (rcLifecycles st) n = None"
    then show "epoch n = 0" using top col unfolding collected_def by metis
  next
    assume "epoch n = 0"
    then show "map_of (rcLifecycles st) n = None"
      using found upper valid by (metis le_zero_eq not_Some_eq word_le_0_iff)
  qed
  assume r: "map_of (rcLifecycles st) n = Some r"
  then have "epoch n \<noteq> 0" using none by simp
  from top [OF this] obtain s where s: "s \<in> R" "is_lifecycle s" "mrGroup s = n" "mrEpoch s = epoch n"
    "case state n of
         None \<Rightarrow> mrType s = RecordTombstone
       | Some d \<Rightarrow> mrType s = RecordRegistration \<and> mrTopic s = dTopic d \<and> mrPartitionCount s = dCount d \<and> mrInitialOffsets s = []"
    by blast
  have "mrEpoch r = epoch n" using found [OF r] s upper by (metis antisym)
  then have "r = s" using coherent_recordsD [OF coh, of r s] found [OF r] s by simp
  show "r \<in> R \<and> mrGroup r = n \<and> mrEpoch r = epoch n \<and>
      (case state n of
         None \<Rightarrow> mrType r = RecordTombstone
       | Some d \<Rightarrow> mrType r = RecordRegistration \<and> mrTopic r = dTopic d \<and> mrPartitionCount r = dCount d \<and> mrInitialOffsets r = [])"
    unfolding \<open>r = s\<close> using s by (intro conjI)
qed

lemma recovered_group_fields:
  assumes "mrInitialOffsets r = []"
  shows "gOffsets (recovered_group r) = []" "gOffsetRevisions (recovered_group r) = []"
  using assms by (simp_all add: recovered_group_def)

text \<open>The collected snapshots in the order of the replay.\<close>

definition ordered_offsets :: "candidates \<Rightarrow> metadataRecord list" where
  "ordered_offsets st = sort_key record_order (map snd (rcOffsets st))"

lemma ordered_offsets:
  assumes col: "collected R st" and coh: "coherent_records R"
  shows "set (ordered_offsets st) = {r \<in> R. is_offset r}"
    and "sorted_wrt (\<lambda>x y. record_order x < record_order y) (ordered_offsets st)"
proof -
  have wf: "mwf (rcOffsets st)" using col by (simp add: collected_def)
  have member: "(k, r) \<in> set (rcOffsets st) \<longleftrightarrow> r \<in> R \<and> is_offset r \<and> k = offsetCandidateIdentity r" for k r
    using col mwf_in_set [OF wf] unfolding collected_def by metis
  show set: "set (ordered_offsets st) = {r \<in> R. is_offset r}"
  proof (intro set_eqI iffI)
    fix r assume "r \<in> set (ordered_offsets st)"
    then obtain k where "(k, r) \<in> set (rcOffsets st)" by (auto simp: ordered_offsets_def)
    then show "r \<in> {r \<in> R. is_offset r}" by (simp only: member) simp
  next
    fix r assume "r \<in> {r \<in> R. is_offset r}"
    then have "(offsetCandidateIdentity r, r) \<in> set (rcOffsets st)" by (simp only: member) simp
    then have "r \<in> snd ` set (rcOffsets st)" by (metis image_eqI snd_conv)
    then show "r \<in> set (ordered_offsets st)" by (simp add: ordered_offsets_def)
  qed
  have inj: "inj_on snd (set (rcOffsets st))" by (rule inj_onI) (metis member prod.collapse)
  have "distinct (map snd (rcOffsets st))"
    using inj wf by (simp add: distinct_map mwf_def)
  then have "distinct (ordered_offsets st)" by (simp add: ordered_offsets_def)
  moreover have "inj_on record_order (set (ordered_offsets st))"
    unfolding set using coh by (auto simp: inj_on_def record_order_def coherent_records_def)
  ultimately have "distinct (map record_order (ordered_offsets st))" by (simp add: distinct_map)
  moreover have "sorted (map record_order (ordered_offsets st))" by (simp add: ordered_offsets_def)
  ultimately show "sorted_wrt (\<lambda>x y. record_order x < record_order y) (ordered_offsets st)"
    by (simp add: strict_sorted_iff flip: sorted_wrt_map)
qed

lemma last_is_newest:
  assumes "sorted_wrt (\<lambda>x y. record_order x < record_order y) rs" "r \<in> set rs" "concerns n e t r"
    and newest: "\<And>r'. r' \<in> set rs \<Longrightarrow> concerns n e t r' \<Longrightarrow> mrRevision r' \<le> mrRevision r"
  shows "last (filter (concerns n e t) rs) = r"
proof -
  let ?xs = "filter (concerns n e t) rs"
  have r: "r \<in> set ?xs" using assms(2,3) by simp
  then have ne: "?xs \<noteq> []" by (metis empty_iff list.set(1))
  show ?thesis
  proof (rule ccontr)
    assume other: "last ?xs \<noteq> r"
    have "sorted_wrt (\<lambda>x y. record_order x < record_order y) (butlast ?xs @ [last ?xs])"
      using assms(1) ne by (simp add: sorted_wrt_filter)
    moreover have "r \<in> set (butlast ?xs)" using r other ne by (metis append_butlast_last_id in_set_conv_decomp
          rotate1.simps(2) set_ConsD set_rotate1)
    ultimately have "record_order r < record_order (last ?xs)" by (auto simp: sorted_wrt_append)
    moreover have last: "last ?xs \<in> set rs" "concerns n e t (last ?xs)" using last_in_set [OF ne] by auto
    ultimately have "mrRevision r < mrRevision (last ?xs)" using assms(3) by (auto simp: record_order_def concerns_def)
    with newest [OF last] show False by simp
  qed
qed

lemma rebuild_replayable:
  assumes told: "lifecycle_told R epoch state" "offsets_told R epoch state"
    and col: "collected R st" and coh: "coherent_records R" and valid: "\<forall>r \<in> R. validateRecord r"
    and groups: "\<And>n g. map_of groups n = Some g \<Longrightarrow> \<exists>d. state n = Some d \<and> gRegistrationEpoch g = epoch n \<and>
      gTopicName g = dTopic d \<and> int (length (gPartitions g)) = dCount d"
  shows "replayable groups (ordered_offsets st)"
  unfolding replayable_def
proof (intro ballI conjI allI impI)
  fix r assume r: "r \<in> set (ordered_offsets st)"
  then have R: "r \<in> R" "is_offset r" using ordered_offsets(1) [OF col coh] by auto
  then have "validateRecord r" using valid by blast
  with R(2) show "mrRevision r \<noteq> 0"
    by (auto simp: validateRecord_def is_offset_def record_type_defs split: if_splits)
  fix g assume g: "map_of groups (mrGroup r) = Some g \<and> gRegistrationEpoch g = mrEpoch r"
  then obtain d where d: "state (mrGroup r) = Some d" "mrEpoch r = epoch (mrGroup r)"
    "gTopicName g = dTopic d" "int (length (gPartitions g)) = dCount d" using groups by metis
  have cur: "r \<in> current_records R (mrGroup r) (epoch (mrGroup r)) (mrTopic r)"
    using R d(2) by (simp add: current_records_def)
  note facts = told(2) [unfolded offsets_told_def, rule_format, OF d(1), THEN conjunct1, rule_format, OF cur]
  from facts show "groupTopicMatches (gTopicName g) (mrTopic r)" "distinct (map oiPartition (mrOffsets r))"
    by (simp_all add: d)
  fix i assume "i \<in> set (mrOffsets r)"
  with facts show "oiPartition i < int (length (gPartitions g))" by (simp add: d)
next
  fix r g r' assume r: "r \<in> set (ordered_offsets st)" "r' \<in> set (ordered_offsets st)"
    and g: "map_of groups (mrGroup r) = Some g \<and> gRegistrationEpoch g = mrEpoch r"
    and r': "concerns (mrGroup r) (mrEpoch r) (mrTopic r) r' \<and> mrRevision r \<le> mrRevision r'"
  have R: "r \<in> R" "is_offset r" "r' \<in> R" "is_offset r'" using ordered_offsets(1) [OF col coh] r by auto
  from g groups obtain d where d: "state (mrGroup r) = Some d" "mrEpoch r = epoch (mrGroup r)" by metis
  have cur: "r \<in> current_records R (mrGroup r) (epoch (mrGroup r)) (mrTopic r)"
    "r' \<in> current_records R (mrGroup r) (epoch (mrGroup r)) (mrTopic r)"
    using R d(2) r' by (auto simp: current_records_def concerns_def)
  from told(2) [unfolded offsets_told_def, rule_format, OF d(1), THEN conjunct1, rule_format, OF cur(1)] cur(2) r'
  show "map_le (record_offsets r) (record_offsets r')" by blast
qed

lemma shown_is_told:
  assumes told: "offsets_told R epoch state" and col: "collected R st" and coh: "coherent_records R"
    and valid: "\<forall>r \<in> R. validateRecord r"
    and d: "state n = Some d" and shown: "shows_last n (ordered_offsets st) g" "gRegistrationEpoch g = epoch n"
  shows "getOffset g = dOffset d \<and> offsetRevision g = dRevision d"
proof -
  have "getOffset g t = dOffset d t \<and> offsetRevision g t = dRevision d t" for t
  proof -
    let ?xs = "filter (concerns n (epoch n) t) (ordered_offsets st)"
    have members: "r \<in> set ?xs \<longleftrightarrow> r \<in> current_records R n (epoch n) t" for r
      using ordered_offsets(1) [OF col coh] by (auto simp: current_records_def concerns_def)
    note facts = told [unfolded offsets_told_def, rule_format, OF d, of t]
    have bound: "mrRevision r \<le> dRevision d t" if "r \<in> set ?xs" for r using facts that members by blast
    have g: "getOffset g t = last_offsets ?xs" "offsetRevision g t = last_revision ?xs"
      using shown by (simp_all add: shows_last_def)
    show ?thesis
    proof (cases "dRevision d t = 0")
      case True
      have "\<not> r \<in> set ?xs" for r
      proof
        assume r: "r \<in> set ?xs"
        then have "validateRecord r" "is_offset r" using valid members by (auto simp: current_records_def)
        then have "mrRevision r \<noteq> 0" by (auto simp: validateRecord_def is_offset_def record_type_defs split: if_splits)
        with bound [OF r] True show False by (simp add: word_le_0_iff)
      qed
      then have "?xs = []" by (metis last_in_set)
      moreover have "dOffset d t = (\<lambda>_. None)" using facts True by simp
      ultimately show ?thesis using g True by (simp add: last_offsets_def last_revision_def)
    next
      case False
      then obtain r where r: "r \<in> current_records R n (epoch n) t" "mrRevision r = dRevision d t" "record_offsets r = dOffset d t"
        using facts by auto
      then have xs: "r \<in> set ?xs" using members by blast
      have "last ?xs = r"
        by (rule last_is_newest [OF ordered_offsets(2) [OF col coh]]) (use xs bound r(2) in auto)
      moreover have "?xs \<noteq> []" using xs by (metis empty_iff list.set(1))
      ultimately show ?thesis using g r by (simp add: last_offsets_def last_revision_def)
    qed
  qed
  then show ?thesis by (simp add: fun_eq_iff)
qed

lemma materialize_told:
  assumes told: "lifecycle_told R epoch state" "offsets_told R epoch state"
    and col: "collected R st" and coh: "coherent_records R" and valid: "\<forall>r \<in> R. validateRecord r"
    and counts: "\<And>n d. state n = Some d \<Longrightarrow> 0 < dCount d"
  shows "\<exists>groups epochs. materializeConsumerMetadata st = Inr (groups, epochs) \<and>
    (\<forall>n. (case map_of epochs n of None \<Rightarrow> 0 | Some e \<Rightarrow> e) = epoch n) \<and>
    (\<forall>n. rel_option (\<lambda>d g. durable_of g = d \<and> gRegistrationEpoch g = epoch n \<and> gMembers g = [] \<and> gGeneration g = 0 \<and>
       gPartitions g = makePartitions (dCount d)) (state n) (map_of groups n))"
proof -
  let ?L = "\<lambda>n. the (map_of (rcLifecycles st) n)" and ?names = "sort (mkeys (rcLifecycles st))"
  have epochs0: "\<forall>r \<in> R. mrEpoch r \<noteq> 0" using valid by (auto simp: validateRecord_def split: if_splits)
  note newest = newest_lifecycle [OF told(1) col coh epochs0]
  have names: "n \<in> set (mkeys (rcLifecycles st)) \<longleftrightarrow> epoch n \<noteq> 0" for n
    using newest(1) [of n] by (simp add: set_mkeys domIff)
  have L: "map_of (rcLifecycles st) n = Some (?L n)" if "epoch n \<noteq> 0" for n using newest(1) [of n] that by auto
  have distinct: "distinct ?names" using col by (simp add: collected_def mwf_def mkeys_def)
  have own: "mrGroup (?L n) = n" if "n \<in> set ?names" for n using newest(2) [OF L, of n] that names [of n] by simp
  define gs where "gs = fst (fold (\<lambda>n. recoverLifecycle (?L n)) ?names ([], []))"
  define es where "es = snd (fold (\<lambda>n. recoverLifecycle (?L n)) ?names ([], []))"
  have fold: "fold (\<lambda>n. recoverLifecycle (?L n)) ?names ([], []) = (gs, es)" by (simp add: gs_def es_def)
  have gs: "map_of gs n = (if epoch n \<noteq> 0 \<and> mrType (?L n) \<noteq> RecordTombstone then Some (recovered_group (?L n)) else None)"
    and es: "map_of es n = (if epoch n \<noteq> 0 then Some (mrEpoch (?L n)) else None)" for n
    unfolding gs_def es_def using recoverLifecycles_lookup [OF distinct own] by (simp_all add: names)
  have epoch: "(case map_of es n of None \<Rightarrow> 0 | Some e \<Rightarrow> e) = epoch n" for n
    using es [of n] newest(2) [OF L [of n]] by auto
  have base: "map_of gs n = (case state n of None \<Rightarrow> None | Some d \<Rightarrow> Some (recovered_group (?L n)))" for n
  proof (cases "epoch n = 0")
    case True
    then have "state n = None" using told(1) by (simp add: lifecycle_told_def)
    with True show ?thesis by (simp add: gs)
  next
    case False
    with newest(2) [OF L [of n]] show ?thesis
      by (auto simp: gs record_type_defs split: option.splits)
  qed
  have rec: "recovered_group (?L n) = \<lparr>gTopicName = dTopic d, gMembers = [], gGeneration = 0,
      gPartitions = makePartitions (dCount d), gLastRebalance = 0, gLastActivity = 0, gOffsets = [],
      gRegistrationEpoch = epoch n, gOffsetRevisions = []\<rparr>" if "state n = Some d" for n d
  proof -
    have "epoch n \<noteq> 0" using told(1) that by (auto simp: lifecycle_told_def)
    then show ?thesis using newest(2) [OF L [of n]] that by (simp add: recovered_group_def)
  qed
  have "replayable gs (ordered_offsets st)"
    by (rule rebuild_replayable [OF told col coh valid]) (auto simp: base rec dest!: counts split: option.splits)
  moreover have "shows_last n [] g" if "map_of gs n = Some g" for n g
    using that by (auto simp: base rec shows_last_def last_offsets_def last_revision_def getOffset_def offsetRevision_def
        split: option.splits)
  ultimately obtain gs' where gs': "replayOffsets (ordered_offsets st) gs = Inr gs'"
    and rel: "\<And>n. rel_option (\<lambda>g0 g. same_registration g0 g \<and> shows_last n (ordered_offsets st) g) (map_of gs n) (map_of gs' n)"
    using replayOffsets_shows ordered_offsets(2) [OF col coh] by blast
  have "materializeConsumerMetadata st = Inr (gs', es)"
    using gs' by (simp add: materializeConsumerMetadata_def fold ordered_offsets_def record_order_def [abs_def] Let_def)
  moreover have "rel_option (\<lambda>d g. durable_of g = d \<and> gRegistrationEpoch g = epoch n \<and> gMembers g = [] \<and> gGeneration g = 0 \<and>
       gPartitions g = makePartitions (dCount d)) (state n) (map_of gs' n)" for n
  proof (cases "state n")
    case None
    then show ?thesis using rel [of n] by (simp add: base)
  next
    case (Some d)
    then obtain g where g: "map_of gs' n = Some g" "same_registration (recovered_group (?L n)) g" "shows_last n (ordered_offsets st) g"
      using rel [of n] by (cases "map_of gs' n") (auto simp: base)
    from g(2) have fields: "gTopicName g = dTopic d" "gPartitions g = makePartitions (dCount d)" "gRegistrationEpoch g = epoch n"
      "gMembers g = []" "gGeneration g = 0" unfolding rec [OF Some] same_registration_def by simp_all
    from shown_is_told [OF told(2) col coh valid Some g(3) fields(3)] counts [OF Some] fields
    have "durable_of g = d" by (simp add: durable_of_def)
    with Some g fields show ?thesis by simp
  qed
  ultimately show ?thesis using epoch by blast
qed


definition scan_message :: metadataMessage where
  "scan_message = \<lparr>xKey = ''k'', xPayload = None\<rparr>"


end
