(* ===== verification/Group_Durability.thy ===== *)
theory Group_Durability
  imports Group_Recovery
begin

section \<open>Durability of the standalone coordinator\<close>

text \<open>
  The log of the internal topic tells the durable state of every reachable standalone coordinator, so the
  scan of \<open>Group_Recovery\<close> rebuilds it after a crash: the refinement between the coordinator and its
  recovery.
\<close>

definition log_records :: "coordinator \<Rightarrow> metadataRecord set" where
  "log_records c = {r. \<exists>m \<in> set (cLog c). xPayload m = Some r}"

definition durable_state :: "coordinator \<Rightarrow> string \<Rightarrow> durable_group option" where
  "durable_state c n = map_option durable_of (map_of (cGroups c) n)"

definition unique_records :: "metadataRecord set \<Rightarrow> bool" where
  "unique_records R \<longleftrightarrow>
     (\<forall>r \<in> R. \<forall>r' \<in> R. is_lifecycle r \<and> is_lifecycle r' \<and> mrGroup r = mrGroup r' \<and> mrEpoch r = mrEpoch r' \<longrightarrow> r = r') \<and>
     (\<forall>r \<in> R. \<forall>r' \<in> R. is_offset r \<and> is_offset r' \<and> mrGroup r = mrGroup r' \<and> mrTopic r = mrTopic r' \<and>
        mrEpoch r = mrEpoch r' \<and> mrRevision r = mrRevision r' \<longrightarrow> r = r')"

definition log_told :: "coordinator \<Rightarrow> bool" where
  "log_told c \<longleftrightarrow>
     (\<forall>m \<in> set (cLog c). \<exists>r. carries m r) \<and> unique_records (log_records c) \<and>
     lifecycle_told (log_records c) (groupEpoch c) (durable_state c) \<and>
     offsets_told (log_records c) (groupEpoch c) (durable_state c)"

text \<open>No name of a record contains the separator of the offset identity.\<close>

definition separable :: "metadataMessage list \<Rightarrow> bool" where
  "separable log \<longleftrightarrow>
     (\<forall>m \<in> set log. case xPayload m of None \<Rightarrow> True | Some r \<Rightarrow> CHR 0x00 \<notin> set (mrGroup r) \<and> CHR 0x00 \<notin> set (mrTopic r))"

subsection \<open>Messages the coordinator writes\<close>

lemma sort_key_idem: "sort_key f (sort_key f xs) = sort_key f xs"
  by (simp add: sort_key_id_if_sorted)

lemma canonicalRecord_idem: "canonicalRecord (canonicalRecord r) = canonicalRecord r"
proof -
  have "sort_key tsTopic (map (\<lambda>s. s\<lparr>tsOffsets := canonicalOffsetItems (tsOffsets s)\<rparr>)
      (sort_key tsTopic (map (\<lambda>s. s\<lparr>tsOffsets := canonicalOffsetItems (tsOffsets s)\<rparr>) xs))) =
      sort_key tsTopic (map (\<lambda>s. s\<lparr>tsOffsets := canonicalOffsetItems (tsOffsets s)\<rparr>) xs)" for xs :: "topicOffsetSnapshot list"
  proof -
    let ?f = "\<lambda>s. s\<lparr>tsOffsets := canonicalOffsetItems (tsOffsets s)\<rparr>"
    have "map ?f (sort_key tsTopic (map ?f xs)) = sort_key tsTopic (map ?f xs)"
      by (rule map_idI) (auto simp: canonicalOffsetItems_def sort_key_idem)
    then show ?thesis by (simp add: sort_key_idem)
  qed
  then show ?thesis by (simp add: canonicalRecord_def canonicalOffsetItems_def sort_key_idem)
qed

lemma encodeRecord_carries: "encodeRecord r = Some m \<Longrightarrow> carries m (canonicalRecord r)"
  by (auto simp: encodeRecord_def carries_def canonicalRecord_idem Let_def split: if_splits)

lemma writeRecord_log:
  assumes "writeRecord ack r c = Inr c'" "cStandalone c"
  obtains m where "carries m (canonicalRecord r)" "cLog c' = cLog c @ [m]"
  using assms encodeRecord_carries by (auto simp: writeRecord_def split: option.splits if_splits)

lemma carries_valid: "carries m r \<Longrightarrow> validateRecord r"
  by (simp add: carries_def)

lemma log_records_snoc: "carries m r \<Longrightarrow> cLog c' = cLog c @ [m] \<Longrightarrow> log_records c' = insert r (log_records c)"
  by (auto simp: log_records_def carries_def)

lemma log_told_cong:
  assumes "log_told c" "cLog c' = cLog c" "groupEpoch c' = groupEpoch c" "durable_state c' = durable_state c"
  shows "log_told c'"
proof -
  have "log_records c' = log_records c" using assms(2) by (simp add: log_records_def)
  then show ?thesis using assms by (simp add: log_told_def)
qed

lemma durable_state_put:
  assumes "map_of (cGroups c) n = Some g" "durable_of g' = durable_of g" "cGroups c' = mput n g' (cGroups c)"
  shows "durable_state c' = durable_state c"
  using assms by (auto simp: durable_state_def fun_eq_iff)

lemma durable_of_cong:
  "gTopicName g' = gTopicName g \<Longrightarrow> gPartitions g' = gPartitions g \<Longrightarrow> gOffsets g' = gOffsets g \<Longrightarrow>
   gOffsetRevisions g' = gOffsetRevisions g \<Longrightarrow> durable_of g' = durable_of g"
  by (simp add: durable_of_def getOffset_def offsetRevision_def fun_eq_iff)

lemma unique_insert:
  assumes R: "unique_records R"
    and "\<And>s. s \<in> R \<Longrightarrow> is_lifecycle r \<Longrightarrow> is_lifecycle s \<Longrightarrow> \<not> (mrGroup s = mrGroup r \<and> mrEpoch s = mrEpoch r)"
    and "\<And>s. s \<in> R \<Longrightarrow> is_offset r \<Longrightarrow> is_offset s \<Longrightarrow>
      \<not> (mrGroup s = mrGroup r \<and> mrTopic s = mrTopic r \<and> mrEpoch s = mrEpoch r \<and> mrRevision s = mrRevision r)"
  shows "unique_records (insert r R)"
proof -
  have l: "a = b" if "a \<in> R" "b \<in> R" "is_lifecycle a" "is_lifecycle b" "mrGroup a = mrGroup b" "mrEpoch a = mrEpoch b" for a b
    using R that unfolding unique_records_def by blast
  have o: "a = b" if "a \<in> R" "b \<in> R" "is_offset a" "is_offset b" "mrGroup a = mrGroup b" "mrTopic a = mrTopic b"
    "mrEpoch a = mrEpoch b" "mrRevision a = mrRevision b" for a b
    using R that unfolding unique_records_def by blast
  show ?thesis
    unfolding unique_records_def
  proof (intro conjI ballI impI)
    fix a b assume "a \<in> insert r R" "b \<in> insert r R"
      and "is_lifecycle a \<and> is_lifecycle b \<and> mrGroup a = mrGroup b \<and> mrEpoch a = mrEpoch b"
    then show "a = b" using l [of a b] assms(2) [of a] assms(2) [of b] by (metis insertE)
  next
    fix a b assume "a \<in> insert r R" "b \<in> insert r R"
      and "is_offset a \<and> is_offset b \<and> mrGroup a = mrGroup b \<and> mrTopic a = mrTopic b \<and>
        mrEpoch a = mrEpoch b \<and> mrRevision a = mrRevision b"
    then show "a = b" using o [of a b] assms(3) [of a] assms(3) [of b] by (metis insertE)
  qed
qed

subsection \<open>A new lifecycle record\<close>

lemma less_succ: "x + 1 \<noteq> 0 \<Longrightarrow> x < x + 1" for x :: u64
  by (simp add: word_less_nat_alt unat_succ)

lemma lifecycle_log:
  assumes told: "log_told c" and m: "carries m r" "is_lifecycle r" "mrGroup r = n" "mrEpoch r = groupEpoch c n + 1"
    and e: "groupEpoch c n + 1 \<noteq> 0"
    and c': "cLog c' = cLog c @ [m]" "\<And>k. groupEpoch c' k = (if k = n then groupEpoch c n + 1 else groupEpoch c k)"
      "\<And>k. k \<noteq> n \<Longrightarrow> durable_state c' k = durable_state c k"
    and state: "case durable_state c' n of
        None \<Rightarrow> mrType r = RecordTombstone
      | Some d \<Rightarrow> mrType r = RecordRegistration \<and> mrTopic r = dTopic d \<and> mrPartitionCount r = dCount d \<and>
          mrInitialOffsets r = [] \<and> dOffset d = (\<lambda>_ _. None) \<and> dRevision d = (\<lambda>_. 0)"
  shows "log_told c'"
proof -
  let ?R = "log_records c"
  have R': "log_records c' = insert r ?R" using m(1) c'(1) by (rule log_records_snoc)
  have upper: "mrEpoch s \<le> groupEpoch c (mrGroup s)" if "s \<in> ?R" for s
    using told that by (simp add: log_told_def lifecycle_told_def)
  then have old: "mrEpoch s < groupEpoch c n + 1" if "s \<in> ?R" "mrGroup s = n" for s
    using less_succ [OF e] that by (metis order_le_less_trans)
  have off: "\<not> is_offset r" using kinds_differ [OF m(2)] .
  have life: "lifecycle_told ?R (groupEpoch c) (durable_state c)" using told by (simp add: log_told_def)
  have fresh: "\<not> (mrGroup s = mrGroup r \<and> mrEpoch s = mrEpoch r)" if "s \<in> ?R" for s
    using old [OF that] m(3,4) by auto
  have "unique_records ?R" using told by (simp add: log_told_def)
  then have "unique_records (insert r ?R)" using fresh off by (intro unique_insert) blast+
  moreover have "lifecycle_told (insert r ?R) (groupEpoch c') (durable_state c')"
    unfolding lifecycle_told_def
  proof (intro conjI ballI allI impI)
    fix s assume "s \<in> insert r ?R"
    then show "mrEpoch s \<le> groupEpoch c' (mrGroup s)" using m upper old by (auto simp: c'(2) less_imp_le)
  next
    fix k assume "groupEpoch c' k = 0"
    then have "k \<noteq> n" "groupEpoch c k = 0" using e by (auto simp: c'(2) split: if_splits)
    then show "durable_state c' k = None" using life unfolding lifecycle_told_def c'(3) [OF \<open>k \<noteq> n\<close>] by blast
  next
    fix k assume k: "groupEpoch c' k \<noteq> 0"
    show "\<exists>s \<in> insert r ?R. is_lifecycle s \<and> mrGroup s = k \<and> mrEpoch s = groupEpoch c' k \<and>
        (case durable_state c' k of
           None \<Rightarrow> mrType s = RecordTombstone
         | Some d \<Rightarrow> mrType s = RecordRegistration \<and> mrTopic s = dTopic d \<and> mrPartitionCount s = dCount d \<and>
             mrInitialOffsets s = [])"
    proof (cases "k = n")
      case True
      then show ?thesis using m state by (intro bexI [of _ r]) (auto simp: c'(2) split: option.splits)
    next
      case False
      have epoch: "groupEpoch c' k = groupEpoch c k" using False by (simp add: c'(2))
      have "groupEpoch c k \<noteq> 0" using k epoch by simp
      then show ?thesis using life unfolding lifecycle_told_def epoch c'(3) [OF False] by blast
    qed
  qed
  moreover have "offsets_told (insert r ?R) (groupEpoch c') (durable_state c')"
  proof -
    have none: "current_records (insert r ?R) n (groupEpoch c n + 1) t = {}" for t
      using old off by (fastforce simp: current_records_def)
    have same: "current_records (insert r ?R) k e t = current_records ?R k e t" for k e t
      using off by (auto simp: current_records_def)
    show ?thesis
      unfolding offsets_told_def
    proof (intro allI impI)
      fix k d t assume d: "durable_state c' k = Some d"
      show "(\<forall>r' \<in> current_records (insert r ?R) k (groupEpoch c' k) t.
           groupTopicMatches (dTopic d) t \<and> mrRevision r' \<le> dRevision d t \<and>
           distinct (map oiPartition (mrOffsets r')) \<and> (\<forall>i \<in> set (mrOffsets r'). oiPartition i < dCount d) \<and>
           (\<forall>r'' \<in> current_records (insert r ?R) k (groupEpoch c' k) t. mrRevision r' \<le> mrRevision r'' \<longrightarrow>
              map_le (record_offsets r') (record_offsets r''))) \<and>
        (if dRevision d t = 0 then dOffset d t = (\<lambda>_. None)
         else \<exists>r' \<in> current_records (insert r ?R) k (groupEpoch c' k) t. mrRevision r' = dRevision d t \<and> record_offsets r' = dOffset d t)"
      proof (cases "k = n")
        case True
        with d state have new: "dOffset d = (\<lambda>_ _. None)" "dRevision d = (\<lambda>_. 0)" by simp_all
        have "current_records (insert r ?R) k (groupEpoch c' k) t = {}" using none True by (simp add: c'(2))
        then show ?thesis by (simp add: new)
      next
        case False
        have old_told: "offsets_told ?R (groupEpoch c) (durable_state c)" using told by (simp add: log_told_def)
        have k: "durable_state c k = Some d" using d False by (simp add: c'(3))
        have epoch: "groupEpoch c' k = groupEpoch c k" using False by (simp add: c'(2))
        show ?thesis unfolding same epoch by (rule old_told [unfolded offsets_told_def, rule_format, OF k])
      qed
    qed
  qed
  moreover have "\<forall>m' \<in> set (cLog c'). \<exists>r. carries m' r" using told m(1) by (auto simp: c'(1) log_told_def)
  ultimately show ?thesis by (simp add: log_told_def R')
qed

subsection \<open>A new offset snapshot\<close>

lemma merged_lookup:
  assumes "map_of m = getOffset g t"
  shows "map_of (fold (\<lambda>i. mput (oiPartition i) (oiOffset i)) items m) = getOffset (storeOffsets t items g) t"
  using assms
proof (induction items arbitrary: m g)
  case (Cons i items)
  have "map_of (mput (oiPartition i) (oiOffset i) m) = getOffset (storeOffset t (oiPartition i) (oiOffset i) g) t"
    using Cons.prems by (simp add: fun_eq_iff getOffset_storeOffset)
  from Cons.IH [OF this] show ?case by (simp only: fold_simps storeOffsets_Cons)
qed (simp only: fold_simps storeOffsets_Nil)

lemma mwf_fold_mput: "mwf m \<Longrightarrow> mwf (fold (\<lambda>i. mput (oiPartition i) (oiOffset i)) items m)" for m :: "(int, u64) gomap"
  by (induction items arbitrary: m) auto

lemma sorted_items_lookup:
  assumes "mwf m"
  shows "map_of (item_pairs (sort_key oiPartition (offsetItems_of m))) = map_of m"
    and "distinct (map oiPartition (sort_key oiPartition (offsetItems_of m)))"
    and "oiPartition ` set (sort_key oiPartition (offsetItems_of m)) = dom (map_of m)"
proof -
  have keys: "map oiPartition (offsetItems_of m) = map fst m" by (auto simp: offsetItems_of_def)
  have pairs: "item_pairs (offsetItems_of m) = m" by (auto simp: item_pairs_def offsetItems_of_def comp_def case_prod_beta)
  have d: "distinct (map oiPartition (offsetItems_of m))" using assms by (simp add: keys mwf_def)
  then show d': "distinct (map oiPartition (sort_key oiPartition (offsetItems_of m)))" by (simp add: distinct_map)
  show "oiPartition ` set (sort_key oiPartition (offsetItems_of m)) = dom (map_of m)"
    using arg_cong [OF keys, of set] by (simp add: dom_map_of_conv_image_fst)
  have "set (item_pairs (sort_key oiPartition (offsetItems_of m))) = set m"
    using arg_cong [OF pairs, of set] by (simp add: item_pairs_def)
  moreover have "distinct (map fst (item_pairs (sort_key oiPartition (offsetItems_of m))))"
    using d' by (simp add: item_pairs_def comp_def)
  ultimately show "map_of (item_pairs (sort_key oiPartition (offsetItems_of m))) = map_of m"
    using assms by (simp add: mwf_def map_of_inject_set)
qed

text \<open>The record of a commit carries the offsets the group has after it.\<close>

lemma snapshot_record:
  fixes now :: instant and n t :: string and e rv :: u64
  assumes wf: "group_wf g" and valid: "commit_valid g t items"
  defines "r \<equiv> canonicalRecord (offsetRecord now n t e rv (mergedOffsetSnapshot g t items))"
  shows "is_offset r" "mrGroup r = n" "mrTopic r = t" "mrEpoch r = e" "mrRevision r = rv"
    "record_offsets r = getOffset (storeOffsets t items g) t" "distinct (map oiPartition (mrOffsets r))"
    "\<forall>i \<in> set (mrOffsets r). oiPartition i < int (length (gPartitions g))"
proof -
  let ?cur = "case map_of (gOffsets g) t of None \<Rightarrow> [] | Some ps \<Rightarrow> ps"
  let ?m = "fold (\<lambda>i. mput (oiPartition i) (oiOffset i)) items ?cur"
  have "mwf ?cur"
  proof (cases "map_of (gOffsets g) t")
    case (Some ps)
    have "\<forall>(t, ps) \<in> set (gOffsets g). groupTopicMatches (gTopicName g) t \<and> mwf ps \<and> fst ` set ps \<subseteq> set (gPartitions g)"
      using wf unfolding group_wf_def offsets_wf_def by blast
    from ball_map_of [OF this Some] Some show ?thesis by simp
  qed simp
  then have m: "mwf ?m" by (rule mwf_fold_mput)
  have offs: "mrOffsets r = sort_key oiPartition (offsetItems_of ?m)"
    by (simp add: r_def canonicalRecord_def offsetRecord_def mergedOffsetSnapshot_def canonicalOffsetItems_def sort_key_idem Let_def)
  have lookup: "map_of ?m = getOffset (storeOffsets t items g) t"
    by (rule merged_lookup [OF current_offsets_lookup])
  show "is_offset r" "mrGroup r = n" "mrTopic r = t" "mrEpoch r = e" "mrRevision r = rv"
    by (simp_all add: r_def canonicalRecord_def offsetRecord_def is_offset_def)
  show "record_offsets r = getOffset (storeOffsets t items g) t"
    using sorted_items_lookup(1) [OF m] lookup by (simp add: record_offsets_def offs)
  show "distinct (map oiPartition (mrOffsets r))" using sorted_items_lookup(2) [OF m] by (simp add: offs)
  show "\<forall>i \<in> set (mrOffsets r). oiPartition i < int (length (gPartitions g))"
  proof
    fix i assume "i \<in> set (mrOffsets r)"
    then have "oiPartition i \<in> dom (map_of ?m)" using sorted_items_lookup(3) [OF m] by (auto simp: offs)
    then obtain off where off: "getOffset (storeOffsets t items g) t (oiPartition i) = Some off" unfolding lookup by auto
    have wf': "group_wf (storeOffsets t items g)" using commit_wf wf valid by blast
    from off obtain ps where ps: "map_of (gOffsets (storeOffsets t items g)) t = Some ps" "map_of ps (oiPartition i) = Some off"
      by (auto simp: getOffset_def split: option.splits)
    have "\<forall>(t, ps) \<in> set (gOffsets (storeOffsets t items g)). groupTopicMatches (gTopicName g) t \<and> mwf ps \<and>
        fst ` set ps \<subseteq> set (gPartitions g)"
      using wf' unfolding group_wf_def offsets_wf_def by simp
    from ball_map_of [OF this ps(1)] ps(2) have "oiPartition i \<in> set (gPartitions g)"
      by (auto dest!: map_of_SomeD)
    then show "oiPartition i < int (length (gPartitions g))" using inRange_declared [OF wf, of "oiPartition i"] by (simp add: inRange_def)
  qed
qed

lemma map_le_trans: "map_le f g \<Longrightarrow> map_le g h \<Longrightarrow> map_le f h"
  unfolding map_le_def by (meson order_trans)

lemma offsets_le_map: "offsets_le g g' \<Longrightarrow> map_le (getOffset g t) (getOffset g' t)"
  by (simp add: offsets_le_def map_le_def)

lemma current_insert:
  "current_records (insert r R) n e t = (if is_offset r \<and> mrGroup r = n \<and> mrEpoch r = e \<and> mrTopic r = t
     then insert r (current_records R n e t) else current_records R n e t)"
  by (auto simp: current_records_def)

lemma commit_log:
  assumes told: "log_told c" and g: "map_of (cGroups c) n = Some g" "gRegistrationEpoch g = groupEpoch c n" "group_wf g"
    and valid: "commit_valid g t items" and rev: "offsetRevision g t + 1 \<noteq> 0"
    and m: "carries m r" "r = canonicalRecord (offsetRecord now n t (gRegistrationEpoch g) (offsetRevision g t + 1) (mergedOffsetSnapshot g t items))"
    and c': "cLog c' = cLog c @ [m]" "groupEpoch c' = groupEpoch c"
      "\<And>k. durable_state c' k = (if k = n then Some (durable_of ((storeOffsets t items g)\<lparr>gOffsetRevisions :=
          mput t (offsetRevision g t + 1) (gOffsetRevisions g)\<rparr>)) else durable_state c k)"
  shows "log_told c'"
proof -
  let ?R = "log_records c" and ?e = "groupEpoch c n" and ?rev = "offsetRevision g t + 1"
  let ?g = "(storeOffsets t items g)\<lparr>gOffsetRevisions := mput t ?rev (gOffsetRevisions g)\<rparr>"
  note r = snapshot_record [OF g(3) valid, of now n "gRegistrationEpoch g" ?rev, folded m(2), unfolded g(2)]
  have R': "log_records c' = insert r ?R" using m(1) c'(1) by (rule log_records_snoc)
  have life: "lifecycle_told ?R (groupEpoch c) (durable_state c)" and offs: "offsets_told ?R (groupEpoch c) (durable_state c)"
    and uniq: "unique_records ?R" using told by (simp_all add: log_told_def)
  have d: "durable_state c n = Some (durable_of g)" using g(1) by (simp add: durable_state_def)
  note facts = offs [unfolded offsets_told_def, rule_format, OF d]
  have below: "mrRevision s < ?rev" if "s \<in> current_records ?R n ?e t" for s
    using facts [of t] that less_succ [OF rev] by (auto simp: durable_of_def intro: order_le_less_trans)
  have "unique_records (insert r ?R)"
  proof (rule unique_insert [OF uniq])
    fix s assume "s \<in> ?R" "is_offset s"
    then show "\<not> (mrGroup s = mrGroup r \<and> mrTopic s = mrTopic r \<and> mrEpoch s = mrEpoch r \<and> mrRevision s = mrRevision r)"
      using below [of s] by (auto simp: r current_records_def)
  qed (use r(1) kinds_differ in blast)
  moreover have "lifecycle_told (insert r ?R) (groupEpoch c) (durable_state c')"
    unfolding lifecycle_told_def
  proof (intro conjI ballI allI impI)
    fix s assume "s \<in> insert r ?R"
    then show "mrEpoch s \<le> groupEpoch c (mrGroup s)" using life r by (auto simp: lifecycle_told_def)
  next
    fix k assume "groupEpoch c k = 0"
    then show "durable_state c' k = None" using life d by (auto simp: lifecycle_told_def c'(3))
  next
    fix k assume "groupEpoch c k \<noteq> 0"
    then obtain s where s: "s \<in> ?R" "is_lifecycle s" "mrGroup s = k" "mrEpoch s = groupEpoch c k"
      and st: "case durable_state c k of None \<Rightarrow> mrType s = RecordTombstone
        | Some d \<Rightarrow> mrType s = RecordRegistration \<and> mrTopic s = dTopic d \<and> mrPartitionCount s = dCount d \<and> mrInitialOffsets s = []"
      using life unfolding lifecycle_told_def by blast
    have "case durable_state c' k of None \<Rightarrow> mrType s = RecordTombstone
        | Some d \<Rightarrow> mrType s = RecordRegistration \<and> mrTopic s = dTopic d \<and> mrPartitionCount s = dCount d \<and> mrInitialOffsets s = []"
      using st d by (cases "k = n") (simp_all add: c'(3) durable_of_def)
    with s show "\<exists>s \<in> insert r ?R. is_lifecycle s \<and> mrGroup s = k \<and> mrEpoch s = groupEpoch c k \<and>
      (case durable_state c' k of None \<Rightarrow> mrType s = RecordTombstone
        | Some d \<Rightarrow> mrType s = RecordRegistration \<and> mrTopic s = dTopic d \<and> mrPartitionCount s = dCount d \<and> mrInitialOffsets s = [])"
      by blast
  qed
  moreover have "offsets_told (insert r ?R) (groupEpoch c) (durable_state c')"
    unfolding offsets_told_def
  proof (intro allI impI)
    fix k d' t' assume d': "durable_state c' k = Some d'"
    let ?goal = "(\<forall>s \<in> current_records (insert r ?R) k (groupEpoch c k) t'.
           groupTopicMatches (dTopic d') t' \<and> mrRevision s \<le> dRevision d' t' \<and>
           distinct (map oiPartition (mrOffsets s)) \<and> (\<forall>i \<in> set (mrOffsets s). oiPartition i < dCount d') \<and>
           (\<forall>s' \<in> current_records (insert r ?R) k (groupEpoch c k) t'. mrRevision s \<le> mrRevision s' \<longrightarrow>
              map_le (record_offsets s) (record_offsets s'))) \<and>
        (if dRevision d' t' = 0 then dOffset d' t' = (\<lambda>_. None)
         else \<exists>s \<in> current_records (insert r ?R) k (groupEpoch c k) t'. mrRevision s = dRevision d' t' \<and> record_offsets s = dOffset d' t')"
    have goff: "getOffset ?g t' = (if t' = t then record_offsets r else getOffset g t')"
    proof -
      have "distinct (map oiPartition items)" using valid by (simp add: commit_valid_def validateOffsetBatch_None)
      from storeOffsets_lookup [OF this, of t g] have "t' \<noteq> t \<Longrightarrow> getOffset (storeOffsets t items g) t' = getOffset g t'"
        by (auto simp: fun_eq_iff split: option.split)
      moreover have "getOffset ?g = getOffset (storeOffsets t items g)" by (rule getOffset_cong) simp
      ultimately show ?thesis by (simp add: r)
    qed
    have grev: "offsetRevision ?g t' = (if t' = t then ?rev else offsetRevision g t')" by (simp add: offsetRevision_def)
    show ?goal
    proof (cases "k = n \<and> t' = t")
      case False
      then have cur: "current_records (insert r ?R) k (groupEpoch c k) t' = current_records ?R k (groupEpoch c k) t'"
        by (auto simp: current_insert r)
      obtain d0 where d0: "durable_state c k = Some d0" "dTopic d' = dTopic d0" "dCount d' = dCount d0"
        "dOffset d' t' = dOffset d0 t'" "dRevision d' t' = dRevision d0 t'"
      proof (cases "k = n")
        case True
        with False have "t' \<noteq> t" by simp
        moreover have "d' = durable_of ?g" using d' True by (simp add: c'(3))
        ultimately show ?thesis using that [of "durable_of g"] d True goff grev by (simp add: durable_of_def)
      next
        case False
        then show ?thesis using that d' by (simp add: c'(3))
      qed
      show ?thesis unfolding cur d0(2-5) by (rule offs [unfolded offsets_told_def, rule_format, OF d0(1)])
    next
      case True
      then have cur: "current_records (insert r ?R) k (groupEpoch c k) t' = insert r (current_records ?R n ?e t)"
        by (simp add: current_insert r)
      have dg: "d' = durable_of ?g" using d' True by (simp add: c'(3))
      have d': "dTopic d' = gTopicName g" "dCount d' = int (length (gPartitions g))" "dOffset d' t' = record_offsets r" "dRevision d' t' = ?rev"
        using goff grev True unfolding dg durable_of_def by simp_all
      have match: "groupTopicMatches (gTopicName g) t"
        using valid g(3) by (simp add: commit_valid_def validateGroupTopic_def group_wf_def)
      have le: "map_le (record_offsets s) (record_offsets r)" if s: "s \<in> current_records ?R n ?e t" for s
      proof -
        have "mrRevision s \<le> offsetRevision g t" using facts [of t] s by (simp add: durable_of_def)
        moreover have "mrRevision s \<noteq> 0"
        proof -
          have "s \<in> ?R" "is_offset s" using s by (simp_all add: current_records_def)
          then have "validateRecord s" using told by (auto simp: log_told_def log_records_def carries_def)
          with \<open>is_offset s\<close> show ?thesis by (auto simp: validateRecord_def is_offset_def record_type_defs split: if_splits)
        qed
        ultimately have "offsetRevision g t \<noteq> 0" by (auto simp: word_le_0_iff)
        then obtain x where x: "x \<in> current_records ?R n ?e t" "mrRevision x = offsetRevision g t" "record_offsets x = getOffset g t"
          using facts [of t] by (auto simp: durable_of_def)
        then have "map_le (record_offsets s) (getOffset g t)"
          using facts [of t] s \<open>mrRevision s \<le> offsetRevision g t\<close> by (metis (no_types, lifting))
        moreover have "map_le (getOffset g t) (record_offsets r)"
          using offsets_le_map [OF commit_valid_le [OF valid]] by (simp add: r)
        ultimately show ?thesis by (rule map_le_trans)
      qed
      have "groupTopicMatches (gTopicName g) t' \<and> mrRevision s \<le> ?rev \<and>
           distinct (map oiPartition (mrOffsets s)) \<and> (\<forall>i \<in> set (mrOffsets s). oiPartition i < int (length (gPartitions g))) \<and>
           (\<forall>s' \<in> insert r (current_records ?R n ?e t). mrRevision s \<le> mrRevision s' \<longrightarrow>
              map_le (record_offsets s) (record_offsets s'))" if s: "s \<in> insert r (current_records ?R n ?e t)" for s
      proof (cases "s = r")
        case True
        then show ?thesis using match \<open>k = n \<and> t' = t\<close> r below by (auto simp: map_le_def dest: leD)
      next
        case False
        with s have s': "s \<in> current_records ?R n ?e t" by simp
        from facts [of t] s' have "distinct (map oiPartition (mrOffsets s))"
          "\<forall>i \<in> set (mrOffsets s). oiPartition i < int (length (gPartitions g))"
          "\<forall>s' \<in> current_records ?R n ?e t. mrRevision s \<le> mrRevision s' \<longrightarrow> map_le (record_offsets s) (record_offsets s')"
          by (simp_all add: durable_of_def)
        with match True le [OF s'] below [OF s'] show ?thesis by (auto simp: less_imp_le)
      qed
      then show ?thesis unfolding cur d' using rev r(5) by auto
    qed
  qed
  moreover have "\<forall>m' \<in> set (cLog c'). \<exists>r. carries m' r" using told m(1) by (auto simp: c'(1) log_told_def)
  ultimately show ?thesis by (simp add: log_told_def R' c'(2))
qed

subsection \<open>Every reachable log tells the state\<close>

lemma effect_log:
  assumes wf: "group_sys_wf (c, l)" and told: "log_told c" and sa: "cStandalone c" and "op_effect c c'"
  shows "log_told c' \<and> cStandalone c'"
  using assms(4)
proof cases
  case unchanged
  then have "durable_state c' = durable_state c" "groupEpoch c' = groupEpoch c"
    by (simp_all add: durable_state_def fun_eq_iff agree_def groupEpoch_def)
  then show ?thesis using log_told_cong [OF told] unchanged sa by (simp add: agree_def)
next
  case (membership n g now ms m)
  note agree = agree_fields [OF membership(7)]
  have "durable_of (rebalance now (g\<lparr>gMembers := ms, gGeneration := gGeneration g + 1\<rparr>)) = durable_of g"
    by (rule durable_of_cong) simp_all
  from durable_state_put [OF membership(1) this] agree have "durable_state c' = durable_state c" by simp
  then show ?thesis using log_told_cong [OF told] groupEpoch_cong [of c' c] agree sa by simp
next
  case (rebalanced n g now)
  note agree = agree_fields [OF rebalanced(3)]
  have "durable_of (rebalance now g) = durable_of g" by (rule durable_of_cong) simp_all
  from durable_state_put [OF rebalanced(1) this] agree have "durable_state c' = durable_state c" by simp
  then show ?thesis using log_told_cong [OF told] groupEpoch_cong [of c' c] agree sa by simp
next
  case (refreshed n g m x now)
  note agree = agree_fields [OF refreshed(4)]
  have "durable_of (g\<lparr>gMembers := mput m (x\<lparr>mmLastHeartbeat := now\<rparr>) (gMembers g), gLastActivity := now\<rparr>) = durable_of g"
    by (rule durable_of_cong) simp_all
  from durable_state_put [OF refreshed(1) this] agree have "durable_state c' = durable_state c" by simp
  then show ?thesis using log_told_cong [OF told] groupEpoch_cong [of c' c] agree sa by simp
next
  case (replicated n g t items)
  with sa show ?thesis by simp
next
  case (durable n g t items now)
  let ?r = "offsetRecord now n t (gRegistrationEpoch g) (offsetRevision g t + 1) (mergedOffsetSnapshot g t items)"
  let ?g = "(storeOffsets t items g)\<lparr>gOffsetRevisions := mput t (offsetRevision g t + 1) (gOffsetRevisions g)\<rparr>"
  obtain m where m: "encodeRecord ?r = Some m" "c' = (put_group n ?g c)\<lparr>cLog := cLog c @ [m]\<rparr>"
    using commitDurable_Inr durable by blast
  from sys_wf_group [OF wf durable(1)] have g: "gRegistrationEpoch g = groupEpoch c n" "group_wf g" by simp_all
  have rv: "offsetRevision g t + 1 \<noteq> 0" using encodeRecord_offset_revision [OF m(1)] by simp
  have "log_told c'"
    by (rule commit_log [OF told durable(1) g durable(4) rv encodeRecord_carries [OF m(1)] refl])
      (simp_all add: m(2) durable_state_def groupEpoch_def fun_eq_iff)
  then show ?thesis using sa m(2) by simp
qed

lemma registration_log:
  assumes wf: "group_sys_wf (c, Some (Registering rg))" and told: "log_told c" and sa: "cStandalone c"
    and reg: "RegisterGroup_end rg ack c = (err, c')"
  shows "log_told c' \<and> cStandalone c'"
  using wf reg
proof (cases rule: register_finish_cases)
  case refused
  then show ?thesis using log_told_cong [OF told, of c'] sa by (simp add: durable_state_def groupEpoch_def fun_eq_iff)
next
  case (registered written)
  let ?n = "rgGroup rg"
  obtain m where m: "carries m (canonicalRecord (registration_record rg))" "cLog written = cLog c @ [m]"
    using writeRecord_log [OF registered(2)] sa by auto
  note agree = agree_fields [OF registered(3)]
  have rg: "rgEpoch rg = groupEpoch c ?n + 1" "groupEpoch c ?n + 1 \<noteq> 0" "rgInitial rg = []" "0 < rgCount rg"
    using wf by simp_all metis
  have rec: "canonicalRecord (registration_record rg) = registration_record rg"
    by (simp add: registration_record_def registrationRecord_def canonicalRecord_def canonicalOffsetItems_def rg)
  have "log_told c'"
  proof (rule lifecycle_log [OF told m(1)])
    show "is_lifecycle (canonicalRecord (registration_record rg))" "mrGroup (canonicalRecord (registration_record rg)) = ?n"
      "mrEpoch (canonicalRecord (registration_record rg)) = groupEpoch c ?n + 1"
      unfolding rec by (simp_all add: registration_record_def registrationRecord_def is_lifecycle_def rg)
    show "groupEpoch c ?n + 1 \<noteq> 0" by (rule rg)
    show "cLog c' = cLog c @ [m]" using agree m by simp
    show "groupEpoch c' k = (if k = ?n then groupEpoch c ?n + 1 else groupEpoch c k)" for k
      using agree rg by (simp add: groupEpoch_def [of c'] groupEpoch_def [of c k])
    show "durable_state c' k = durable_state c k" if "k \<noteq> ?n" for k using agree that by (simp add: durable_state_def)
    show "case durable_state c' ?n of
        None \<Rightarrow> mrType (canonicalRecord (registration_record rg)) = RecordTombstone
      | Some d \<Rightarrow> mrType (canonicalRecord (registration_record rg)) = RecordRegistration \<and>
          mrTopic (canonicalRecord (registration_record rg)) = dTopic d \<and>
          mrPartitionCount (canonicalRecord (registration_record rg)) = dCount d \<and>
          mrInitialOffsets (canonicalRecord (registration_record rg)) = [] \<and> dOffset d = (\<lambda>_ _. None) \<and> dRevision d = (\<lambda>_. 0)"
      unfolding rec using agree rg
      by (simp add: durable_state_def durable_of_def registration_record_def registrationRecord_def getOffset_def offsetRevision_def fun_eq_iff)
  qed
  then show ?thesis using agree sa writeRecord_fields [OF registered(2)] by simp
qed

lemma deletion_log:
  assumes wf: "group_sys_wf (c, Some (Deleting dg))" and told: "log_told c" and sa: "cStandalone c"
    and del: "DeleteGroup_end now dg ack c = (err, c')"
  shows "log_told c' \<and> cStandalone c'"
  using wf del
proof (cases rule: delete_finish_cases)
  case refused
  then show ?thesis using log_told_cong [OF told, of c'] sa by (simp add: durable_state_def groupEpoch_def fun_eq_iff)
next
  case (deleted written)
  let ?n = "dgGroup dg" and ?r = "tombstoneRecord now (dgGroup dg) (dgTopic dg) (dgEpoch dg)"
  obtain m where m: "carries m (canonicalRecord ?r)" "cLog written = cLog c @ [m]"
    using writeRecord_log [OF deleted(2)] sa by auto
  note agree = agree_fields [OF deleted(3)]
  have dg: "dgEpoch dg = groupEpoch c ?n + 1" "groupEpoch c ?n + 1 \<noteq> 0" using wf by simp_all metis
  have rec: "canonicalRecord ?r = ?r"
    by (simp add: tombstoneRecord_def canonicalRecord_def canonicalOffsetItems_def)
  have "log_told c'"
  proof (rule lifecycle_log [OF told m(1)])
    show "is_lifecycle (canonicalRecord ?r)" "mrGroup (canonicalRecord ?r) = ?n" "mrEpoch (canonicalRecord ?r) = groupEpoch c ?n + 1"
      unfolding rec by (simp_all add: tombstoneRecord_def is_lifecycle_def dg)
    show "groupEpoch c ?n + 1 \<noteq> 0" by (rule dg)
    show "cLog c' = cLog c @ [m]" using agree m by simp
    show "groupEpoch c' k = (if k = ?n then groupEpoch c ?n + 1 else groupEpoch c k)" for k
      using agree dg by (simp add: groupEpoch_def [of c'] groupEpoch_def [of c k])
    show "durable_state c' k = durable_state c k" if "k \<noteq> ?n" for k using agree that by (simp add: durable_state_def)
    show "case durable_state c' ?n of
        None \<Rightarrow> mrType (canonicalRecord ?r) = RecordTombstone
      | Some d \<Rightarrow> mrType (canonicalRecord ?r) = RecordRegistration \<and> mrTopic (canonicalRecord ?r) = dTopic d \<and>
          mrPartitionCount (canonicalRecord ?r) = dCount d \<and> mrInitialOffsets (canonicalRecord ?r) = [] \<and>
          dOffset d = (\<lambda>_ _. None) \<and> dRevision d = (\<lambda>_. 0)"
      unfolding rec using agree by (simp add: durable_state_def tombstoneRecord_def)
  qed
  then show ?thesis using agree sa writeRecord_fields [OF deleted(2)] by simp
qed

lemma begin_log:
  assumes "log_told c" "cStandalone c" "c' = c\<lparr>cPending := p\<rparr>"
  shows "log_told c' \<and> cStandalone c'"
  using log_told_cong [OF assms(1), of c'] assms(2,3) by (simp add: durable_state_def groupEpoch_def fun_eq_iff)

lemma known_log:
  assumes wf: "group_sys_wf (c, None)" and told: "log_told c" and sa: "cStandalone c"
    and reg: "RegisterGroup_begin now t n k c = Inr (c', None)"
  shows "log_told c' \<and> cStandalone c'"
proof -
  from reg obtain g where g: "map_of (cGroups c) n = Some g"
    by (auto simp: RegisterGroup_begin_def Let_def split: if_splits option.splits)
  from sys_wf_group [OF wf g] have w: "group_wf g" "gRegistrationEpoch g = groupEpoch c n" by simp_all
  obtain g' where c': "c' = put_group n g' c" "gTopicName g' = gTopicName g" "gPartitions g' = gPartitions g" "gOffsets g' = gOffsets g"
    "gOffsetRevisions g' = gOffsetRevisions g"
    using reg g w by (auto simp: RegisterGroup_begin_def Let_def group_wf_def split: if_splits)
  then have "durable_state c' = durable_state c" using durable_state_put [OF g durable_of_cong] by simp
  then show ?thesis using log_told_cong [OF told, of c'] sa c' by (simp add: groupEpoch_def fun_eq_iff)
qed

lemma step_log:
  assumes wf: "group_sys_wf (c, l)" and told: "log_told c" "cStandalone c" and "group_step (c, l) (c', l')"
  shows "log_told c' \<and> cStandalone c'"
  using assms(4)
proof (cases rule: group_step_cases)
  case effect
  then show ?thesis using effect_log [OF wf told] by blast
next
  case (register_known now t n k)
  then show ?thesis using known_log wf told by blast
next
  case (register_start now t n k rg)
  then have "c' = c\<lparr>cPending := [(n, True)]\<rparr>" using register_start_Some [of c now t n k c' rg] wf by blast
  then show ?thesis by (rule begin_log [OF told])
next
  case (register_finish rg ack err)
  then show ?thesis using registration_log wf told by blast
next
  case (delete_start n dg)
  then have "c' = c\<lparr>cPending := [(n, True)]\<rparr>" using delete_start_Some [of c n c' dg] wf by blast
  then show ?thesis by (rule begin_log [OF told])
next
  case (delete_finish now dg ack err)
  then show ?thesis using deletion_log wf told by blast
qed

lemma reachable_log:
  assumes "group_step\<^sup>*\<^sup>* (group_start True) s"
  shows "log_told (fst s) \<and> cStandalone (fst s)"
  using assms
proof (induction rule: rtranclp_induct)
  case base
  have "log_told (NewCoordinator True)"
    by (simp add: log_told_def NewCoordinator_def log_records_def unique_records_def lifecycle_told_def offsets_told_def
        durable_state_def groupEpoch_def)
  then show ?case by (simp add: group_start_def NewCoordinator_def)
next
  case (step s1 s2)
  then show ?case using step_log [of "fst s1" "snd s1" "fst s2" "snd s2"] group_reachable_wf [OF step(1)] by simp
qed

subsection \<open>Recovery after a crash\<close>

lemma log_carries: "log_told c \<Longrightarrow> m \<in> set (cLog c) \<Longrightarrow> carries m (the (xPayload m))"
  by (auto simp: log_told_def carries_def)

lemma log_records_image:
  assumes "log_told c"
  shows "log_records c = (\<lambda>m. the (xPayload m)) ` set (cLog c)"
proof -
  have "xPayload m = Some (the (xPayload m))" if "m \<in> set (cLog c)" for m
    using log_carries [OF assms that] by (simp add: carries_def)
  then show ?thesis unfolding log_records_def by (auto simp: image_iff) (metis option.sel)+
qed

lemma separable_coherent:
  assumes "log_told c" "separable (cLog c)"
  shows "coherent_records (log_records c)"
proof -
  have "\<forall>r \<in> log_records c. CHR 0x00 \<notin> set (mrGroup r) \<and> CHR 0x00 \<notin> set (mrTopic r)"
    using assms(2) by (fastforce simp: separable_def log_records_def)
  with assms(1) show ?thesis unfolding log_told_def unique_records_def coherent_records_def by blast
qed

lemma list_all2_map_self: "(\<And>x. x \<in> set xs \<Longrightarrow> P x (f x)) \<Longrightarrow> list_all2 P xs (map f xs)"
  by (induction xs) auto

lemma recover_told:
  assumes told: "log_told c" and wf: "group_sys_wf (c, l)" and sep: "separable (cLog c)"
    and logs: "list_all ascending logs" "set (map snd (concat logs)) = set (cLog c)"
  shows "\<exists>c'. recoverConsumerMetadata (map (\<lambda>log. (log_reader log, 0)) logs) c0 = Inr c' \<and>
    groupEpoch c' = groupEpoch c \<and>
    (\<forall>n. rel_option (\<lambda>g g'. durable_of g' = durable_of g \<and> gRegistrationEpoch g' = gRegistrationEpoch g \<and>
       gPartitions g' = gPartitions g \<and> gMembers g' = []) (map_of (cGroups c) n) (map_of (cGroups c') n))"
proof -
  let ?ms = "map snd (concat logs)" and ?R = "log_records c"
  let ?rs = "map (\<lambda>m. the (xPayload m)) ?ms"
  have carry: "carries m (the (xPayload m))" if "m \<in> set ?ms" for m using log_carries [OF told] that logs(2) by simp
  then have "list_all2 carries ?ms ?rs" by (rule list_all2_map_self)
  moreover have R: "set ?rs = ?R" using log_records_image [OF told] logs(2) by (metis set_map)
  moreover have coh: "coherent_records ?R" by (rule separable_coherent [OF told sep])
  moreover have "collected {} \<lparr>rcLifecycles = [], rcOffsets = []\<rparr>" by (simp add: collected_def)
  ultimately obtain st where st: "scanMessages ?ms \<lparr>rcLifecycles = [], rcOffsets = []\<rparr> = Inr st" "collected ?R st"
    using scanMessages_collects [of ?ms ?rs "{}" "\<lparr>rcLifecycles = [], rcOffsets = []\<rparr>"] unfolding R by auto
  have valid: "\<forall>r \<in> ?R. validateRecord r"
    using log_carries [OF told] carries_valid unfolding log_records_image [OF told] by blast
  have counts: "0 < dCount d" if "durable_state c n = Some d" for n d
  proof -
    from that obtain g where g: "map_of (cGroups c) n = Some g" "d = durable_of g" by (auto simp: durable_state_def)
    from sys_wf_group [OF wf g(1)] show ?thesis by (simp add: g durable_of_def group_wf_def)
  qed
  have parts: "lifecycle_told ?R (groupEpoch c) (durable_state c)" "offsets_told ?R (groupEpoch c) (durable_state c)"
    using told by (simp_all add: log_told_def)
  obtain groups epochs where
    m: "materializeConsumerMetadata st = Inr (groups, epochs)"
    and e: "\<forall>n. (case map_of epochs n of None \<Rightarrow> 0 | Some e \<Rightarrow> e) = groupEpoch c n"
    and rel: "\<forall>n. rel_option (\<lambda>d g. durable_of g = d \<and> gRegistrationEpoch g = groupEpoch c n \<and> gMembers g = [] \<and> gGeneration g = 0 \<and>
       gPartitions g = makePartitions (dCount d)) (durable_state c n) (map_of groups n)"
    using materialize_told [OF parts st(2) coh valid] counts by blast
  let ?c = "c0\<lparr>cGroups := groups, cEpochs := epochs, cOwnershipSince := []\<rparr>"
  have "recoverConsumerMetadata (map (\<lambda>log. (log_reader log, 0)) logs) c0 = Inr ?c"
    using st m scanPartitions_messages [OF logs(1)] by (simp add: recoverConsumerMetadata_def)
  moreover have "groupEpoch ?c = groupEpoch c" using e by (simp add: groupEpoch_def [of ?c] fun_eq_iff)
  moreover have "rel_option (\<lambda>g g'. durable_of g' = durable_of g \<and> gRegistrationEpoch g' = gRegistrationEpoch g \<and>
       gPartitions g' = gPartitions g \<and> gMembers g' = []) (map_of (cGroups c) n) (map_of (cGroups ?c) n)" for n
  proof (cases "map_of (cGroups c) n")
    case None
    then show ?thesis using rel [rule_format, of n] by (simp add: durable_state_def)
  next
    case (Some g)
    from sys_wf_group [OF wf Some] have "gRegistrationEpoch g = groupEpoch c n"
      "gPartitions g = makePartitions (int (length (gPartitions g)))" by (simp_all add: group_wf_def)
    moreover have "dCount (durable_of g) = int (length (gPartitions g))" by (simp add: durable_of_def)
    ultimately show ?thesis
      using rel [rule_format, of n] Some by (cases "map_of groups n") (simp_all add: durable_state_def)
  qed
  ultimately show ?thesis by blast
qed


text \<open>A log of one partition, with its record at offset 3.\<close>

definition demo_logs :: "(u64 \<times> metadataMessage) list list" where
  "demo_logs = [[], map (\<lambda>m. (3, m)) (cLog (demo True (demo_group 2 3 demo_ab [])))]"


end
