(* ===== verification/Group_Snapshot.thy ===== *)
theory Group_Snapshot
  imports Group_Fencing
begin

section \<open>Snapshots of the coordinator in the replicated metadata\<close>

text \<open>
  \<open>ExportState\<close>, \<open>ValidateImportState\<close> and \<open>ImportState\<close>: the snapshot of a reachable coordinator is
  accepted, and restores every group with its members, assignments, offsets and epochs, and the epochs of
  the deleted groups; only the times of the last heartbeats start again.
\<close>

lemma assignmentsValid_disjoint:
  assumes "\<And>k as. (k, as) \<in> set ms \<Longrightarrow> k \<noteq> '''' \<and> set as \<subseteq> declared \<and> distinct as \<and> set as \<inter> taken = {}"
    and "sorted_wrt (\<lambda>a b. set (snd a) \<inter> set (snd b) = {}) ms"
  shows "assignmentsValid declared taken ms"
  using assms
proof (induction ms arbitrary: taken)
  case (Cons m ms)
  obtain k as where m: "m = (k, as)" by fastforce
  have "assignmentsValid declared (taken \<union> set as) ms"
  proof (rule Cons.IH)
    fix k' as' assume m': "(k', as') \<in> set ms"
    then have "set as \<inter> set as' = {}" using Cons.prems(2) m by force
    with Cons.prems(1) [of k' as'] m' show "k' \<noteq> '''' \<and> set as' \<subseteq> declared \<and> distinct as' \<and> set as' \<inter> (taken \<union> set as) = {}"
      by auto
  qed (use Cons.prems(2) in simp)
  with Cons.prems(1) [of k as] m show ?case by simp
qed simp

lemma sorted_wrt_distinct:
  assumes "distinct (map fst ms)" "\<And>x y. x \<in> set ms \<Longrightarrow> y \<in> set ms \<Longrightarrow> fst x \<noteq> fst y \<Longrightarrow> P x y"
  shows "sorted_wrt P ms"
  using assms
proof (induction ms)
  case (Cons a ms)
  have "fst a \<noteq> fst y" if "y \<in> set ms" for y using Cons.prems(1) that by force
  with Cons show ?case by simp
qed simp

lemma concat_distinct_member: "distinct (concat (map f xs)) \<Longrightarrow> x \<in> set xs \<Longrightarrow> distinct (f x)"
  by (induction xs) auto

lemma members_exported:
  assumes "group_wf g"
  shows "assignmentsValid (set (gPartitions g)) {} (mvals mmAssignments (gMembers g))"
proof (rule assignmentsValid_disjoint)
  have wf: "mwf (gMembers g)" "'''' \<notin> set (mkeys (gMembers g))" "fairly_assigned g"
    using assms by (simp_all add: group_wf_def members_wf_def)
  have own: "as = assigned g k \<and> k \<in> set (mkeys (gMembers g))" if "(k, as) \<in> set (mvals mmAssignments (gMembers g))" for k as
    using that wf(1) by (auto simp: mvals_def assigned_def mwf_in_set set_mkeys)
  show "k \<noteq> '''' \<and> set as \<subseteq> set (gPartitions g) \<and> distinct as \<and> set as \<inter> {} = {}"
    if m: "(k, as) \<in> set (mvals mmAssignments (gMembers g))" for k as
  proof (intro conjI)
    show "k \<noteq> ''''" using own [OF m] wf(2) by blast
    show "set as \<subseteq> set (gPartitions g)" using own [OF m] fairly_assigned_declared [OF wf(3)] by blast
    from own [OF m] have k: "k \<in> set (member_ids g)" "gMembers g \<noteq> []" by (auto simp: member_ids_def mkeys_def)
    with wf(3) group_wf_distinct [OF assms] have "distinct (concat (map (assigned g) (member_ids g)))"
      by (simp add: fairly_assigned_def)
    from concat_distinct_member [OF this k(1)] own [OF m] show "distinct as" by simp
  qed simp
  show "sorted_wrt (\<lambda>a b. set (snd a) \<inter> set (snd b) = {}) (mvals mmAssignments (gMembers g))"
  proof (rule sorted_wrt_distinct)
    show "distinct (map fst (mvals mmAssignments (gMembers g)))" using wf(1) mwf_mvals unfolding mwf_def by blast
    fix x y assume "x \<in> set (mvals mmAssignments (gMembers g))" "y \<in> set (mvals mmAssignments (gMembers g))" "fst x \<noteq> fst y"
    then show "set (snd x) \<inter> set (snd y) = {}"
      using own [of "fst x" "snd x"] own [of "fst y" "snd y"]
        fairly_assigned_unique [OF wf(3) group_wf_distinct [OF assms] wf(1)] by auto
  qed
qed

lemma export_group_valid:
  assumes "group_wf g" "n \<noteq> ''''"
  shows "validateGroupSnapshot n (export_group g)"
proof -
  have parts: "gPartitions g = makePartitions (int (length (gPartitions g)))" "gPartitions g \<noteq> []"
    using assms by (simp_all add: group_wf_def)
  have set: "set (gPartitions g) = {0..<int (length (gPartitions g))}" using set_makePartitions parts(1) by metis
  have offs: "\<forall>(t, ps) \<in> set (gOffsets g). groupTopicMatches (gTopicName g) t \<and> mwf ps \<and> fst ` set ps \<subseteq> set (gPartitions g)"
    and revs: "\<forall>(t, r) \<in> set (gOffsetRevisions g). groupTopicMatches (gTopicName g) t \<and> r \<noteq> 0"
    using assms(1) unfolding group_wf_def offsets_wf_def by blast+
  have "\<not> list_ex (\<lambda>p. p < 0) (gPartitions g)" "\<not> list_ex (\<lambda>i. int i \<notin> set (gPartitions g)) [0..<length (gPartitions g)]"
    unfolding list_ex_iff set by auto
  moreover have "\<not> list_ex (\<lambda>(t, offsets). \<not> groupTopicMatches (gTopicName g) t \<or> list_ex (\<lambda>(p, off). p \<notin> set (gPartitions g)) offsets) (gOffsets g)"
    using offs by (fastforce simp: list_ex_iff)
  moreover have "\<not> list_ex (\<lambda>(t, r). \<not> groupTopicMatches (gTopicName g) t \<or> r = 0) (gOffsetRevisions g)"
    using revs by (fastforce simp: list_ex_iff)
  ultimately show ?thesis
    using assms members_exported [OF assms(1)] group_wf_distinct [OF assms(1)] parts(2)
    by (simp add: validateGroupSnapshot_def export_group_def group_wf_def members_wf_def Let_def)
qed

lemma export_tombstone_valid: "n \<noteq> '''' \<Longrightarrow> e \<noteq> 0 \<Longrightarrow> validateGroupSnapshot n (export_tombstone e)"
  by (simp add: validateGroupSnapshot_def export_tombstone_def)

lemma ExportState_valid:
  assumes wf: "group_sys_wf (c, l)"
  shows "ValidateImportState (ExportState c)"
proof -
  have "validateGroupSnapshot n (export_group g)" if "(n, g) \<in> set (cGroups c)" for n g
  proof -
    have "mwf (cGroups c)" using wf by simp
    with that have "map_of (cGroups c) n = Some g" by (simp add: mwf_in_set)
    from sys_wf_group [OF wf this] show ?thesis by (simp add: export_group_valid)
  qed
  moreover have "\<forall>(n, e) \<in> set (cEpochs c). n \<noteq> '''' \<and> e \<noteq> 0" using wf unfolding group_sys_wf.simps by (elim conjE)
  ultimately show ?thesis
    by (auto simp: ValidateImportState_def ExportState_def list_all_iff mvals_def intro: export_tombstone_valid)
qed

lemma map_of_filter_mvals: "mwf m \<Longrightarrow> map_of (filter (\<lambda>(k, v). P k v) m) k =
   (case map_of m k of None \<Rightarrow> None | Some v \<Rightarrow> if P k v then Some v else None)"
  by (induction m) (auto simp: mwf_def map_of_eq_None_iff image_iff split: option.split)

lemma ExportState_lookup:
  assumes "mwf (cGroups c)" "mwf (cEpochs c)"
  shows "map_of (ExportState c) n =
    (case map_of (cGroups c) n of
       Some g \<Rightarrow> Some (export_group g)
     | None \<Rightarrow> map_option export_tombstone (map_of (cEpochs c) n))"
  using assms
  by (auto simp: ExportState_def map_add_def map_of_filter_mvals [where P = "\<lambda>n e. map_of (cGroups c) n = None"] split: option.split)

lemma ExportState_mwf:
  assumes "mwf (cGroups c)" "mwf (cEpochs c)"
  shows "mwf (ExportState c)"
proof -
  have "distinct (map fst (filter (\<lambda>(n, e). map_of (cGroups c) n = None) (cEpochs c)))"
    using assms(2) by (simp add: mwf_def distinct_map_filter)
  moreover have "fst ` set (cGroups c) \<inter> fst ` set (filter (\<lambda>(n, e). map_of (cGroups c) n = None) (cEpochs c)) = {}"
    by (force simp: map_of_eq_None_iff)
  ultimately show ?thesis
    using assms(1) by (auto simp: mwf_def ExportState_def mvals_def case_prod_beta' comp_def)
qed

lemma import_export_group:
  "import_group now (export_group g) =
   g\<lparr>gMembers := map (\<lambda>(k, m). (k, \<lparr>mmID = k, mmLastHeartbeat = now, mmAssignments = mmAssignments m\<rparr>)) (gMembers g)\<rparr>"
  by (simp add: import_group_def export_group_def mvals_def comp_def case_prod_beta')

lemma import_export_assigned: "assigned (import_group now (export_group g)) = assigned g"
proof -
  have "map_of (map (\<lambda>(k, m). (k, \<lparr>mmID = k, mmLastHeartbeat = now, mmAssignments = mmAssignments m\<rparr>)) ms) k =
      map_option (\<lambda>m. \<lparr>mmID = k, mmLastHeartbeat = now, mmAssignments = mmAssignments m\<rparr>) (map_of ms k)"
    for ms :: "(string, memberMetadata) gomap" and k by (induction ms) auto
  then show ?thesis by (simp add: import_export_group assigned_def fun_eq_iff split: option.split)
qed

lemma ImportState_lookup:
  assumes "mwf state" "ValidateImportState state"
  obtains c' where "ImportState now state c = Inr c'"
    "\<And>n. map_of (cGroups c') n = (case map_of state n of None \<Rightarrow> None
       | Some s \<Rightarrow> if ssDeleted s then None else Some (import_group now s))"
    "\<And>n. groupEpoch c' n = (case map_of state n of None \<Rightarrow> 0 | Some s \<Rightarrow> ssRegistrationEpoch s)"
  using assms
  by (intro that [of "c\<lparr>cGroups := mvals (import_group now) (filter (\<lambda>(name, snap). \<not> ssDeleted snap) state),
                  cEpochs := mvals ssRegistrationEpoch state, cPending := [], cOwnershipSince := []\<rparr>"])
    (auto simp: ImportState_def map_of_filter_mvals [where P = "\<lambda>n s. \<not> ssDeleted s"] groupEpoch_def split: option.split)



end
