(* ===== verification/Disk_Message.thy ===== *)
theory Disk_Message
  imports Wire_Record
begin

section \<open>Records as they are stored on disk\<close>

text \<open>
  \<open>util/serialize.go\<close> (\<open>SerializeDiskMessage\<close>, \<open>DeserializeDiskMessage\<close>), the conversions of
  \<open>util/safeconv.go\<close> it uses, and the conversions between \<open>types.Message\<close> and \<open>types.DiskMessage\<close> of
  \<open>pkg/disk/handler.go\<close> and \<open>pkg/topic/partition.go\<close>.

  A reading step takes the bytes after the current \<open>offset\<close> and returns the value with the bytes after it;
  \<open>offset+n > len(data)\<close> is \<open>n > length rest\<close>. The buffer pool has no effect on the result and is left out.
  The lemmas show that serialization is invertible up to the nil-ness of empty control batch slices, has the
  length \<open>EstimateDiskMessageSize\<close> announces, and is accepted exactly for the messages whose fields fit.
\<close>

record diskMessage =
  dTopic :: string
  dPartition :: i32
  dOffset :: u64
  dProducerID :: string
  dSeqNum :: u64
  dEpoch :: i64
  dPayload :: string
  dKey :: string
  dEventType :: string
  dSchemaVersion :: u32
  dAggregateVersion :: u64
  dMetadata :: string
  dTransactionalID :: string
  dTransactionState :: string
  dTransactionMarker :: string
  dControlBatchType :: string
  dControlBatchVersion :: i16
  dControlBatchCoordinatorEpoch :: i64
  dControlBatchKey :: "bytes option"
  dControlBatchValue :: "bytes option"

definition zeroDiskMessage :: diskMessage where
  "zeroDiskMessage = \<lparr>dTopic = [], dPartition = 0, dOffset = 0, dProducerID = [], dSeqNum = 0, dEpoch = 0,
     dPayload = [], dKey = [], dEventType = [], dSchemaVersion = 0, dAggregateVersion = 0, dMetadata = [],
     dTransactionalID = [], dTransactionState = [], dTransactionMarker = [], dControlBatchType = [],
     dControlBatchVersion = 0, dControlBatchCoordinatorEpoch = 0, dControlBatchKey = None,
     dControlBatchValue = None\<rparr>"

datatype disk_error =
    FieldOutOfRange           \<comment> \<open>a length that does not fit its prefix, a negative partition or epoch\<close>
  | UnsupportedFormat         \<comment> \<open>missing magic\<close>
  | TruncatedMessage
  | ValueOutOfRange           \<comment> \<open>partition or epoch above the signed range\<close>
  | TrailingDiskBytes
  | MessageTooLarge
  | CorruptLength
  | TruncatedRecord
  | NonContiguousOffset
  | UnexpectedFirstOffset
  | NonIncreasingOffset
  | PartialTail
  | OffsetOutOfRange u64 u64 u64
  | WriteUnavailable
  | WriteFailed
  | PartitionRange
  | TruncateAhead
  | TruncateBeforeRetained
  | TruncateCompacted
  | RollBoundary
  | SegmentMissing
  | EnqueueRejected
  | ReadersActive
  | InvalidRange
  | RangeStart

subsection \<open>Checked conversions\<close>

definition SafeIntToUint16 :: "nat \<Rightarrow> u16 option" where
  "SafeIntToUint16 v = (if v > 65535 then None else Some (word_of_nat v))"

definition SafeIntToUint32 :: "nat \<Rightarrow> u32 option" where
  "SafeIntToUint32 v = (if v > 4294967295 then None else Some (word_of_nat v))"

definition SafeInt32ToUint32 :: "i32 \<Rightarrow> u32 option" where
  "SafeInt32ToUint32 v = (if sint v < 0 then None else Some v)"

definition SafeInt64ToUint64 :: "i64 \<Rightarrow> u64 option" where
  "SafeInt64ToUint64 v = (if sint v < 0 then None else Some v)"

definition SafeUint32ToInt32 :: "u32 \<Rightarrow> i32 option" where
  "SafeUint32ToInt32 v = (if v > 2147483647 then None else Some v)"

definition SafeUint64ToInt64 :: "u64 \<Rightarrow> i64 option" where
  "SafeUint64ToInt64 v = (if v > 9223372036854775807 then None else Some v)"

subsection \<open>Serialization\<close>

definition diskMessageMagic :: string where
  "diskMessageMagic = ''CDM2''"

text \<open>\<open>len\<close> and \<open>append\<close> of a byte slice that may be nil.\<close>

definition slice_bytes :: "bytes option \<Rightarrow> bytes" where
  "slice_bytes v = (case v of None \<Rightarrow> [] | Some bs \<Rightarrow> bs)"

definition EstimateDiskMessageSize :: "diskMessage \<Rightarrow> nat" where
  "EstimateDiskMessageSize m =
     length diskMessageMagic + 2 + length (dTopic m) + 4 + 8 + 2 + length (dProducerID m) + 8 + 8 +
     4 + length (dPayload m) + 2 + length (dKey m) +
     2 + length (dEventType m) + 4 + 8 + 2 + length (dMetadata m) + 2 + length (dTransactionalID m) +
     2 + length (dTransactionState m) + 2 + length (dTransactionMarker m) + 2 + length (dControlBatchType m) +
     2 + 8 + 2 + length (slice_bytes (dControlBatchKey m)) + 2 + length (slice_bytes (dControlBatchValue m))"

text \<open>A length prefix and its bytes.\<close>

definition lay16 :: "bytes \<Rightarrow> bytes" where
  "lay16 bs = put_be 2 (word_of_nat (length bs) :: u16) @ bs"

definition lay32 :: "bytes \<Rightarrow> bytes" where
  "lay32 bs = put_be 4 (word_of_nat (length bs) :: u32) @ bs"

definition diskLengthsFit :: "diskMessage \<Rightarrow> bool" where
  "diskLengthsFit m \<longleftrightarrow>
     list_all (\<lambda>n. SafeIntToUint16 n \<noteq> None)
       [length (dTopic m), length (dProducerID m), length (dEventType m), length (dMetadata m), length (dKey m),
        length (dTransactionalID m), length (dTransactionState m), length (dTransactionMarker m),
        length (dControlBatchType m), length (slice_bytes (dControlBatchKey m)),
        length (slice_bytes (dControlBatchValue m))] \<and>
     SafeIntToUint32 (length (dPayload m)) \<noteq> None"

definition diskHeader :: "diskMessage \<Rightarrow> bytes" where
  "diskHeader m =
     bytes_of_string diskMessageMagic @
     lay16 (bytes_of_string (dTopic m)) @
     put_be 4 (dPartition m) @
     put_be 8 (dOffset m) @
     lay16 (bytes_of_string (dProducerID m)) @
     put_be 8 (dSeqNum m) @
     put_be 8 (dEpoch m)"

definition diskBody :: "diskMessage \<Rightarrow> bytes" where
  "diskBody m =
     lay32 (bytes_of_string (dPayload m)) @
     lay16 (bytes_of_string (dEventType m)) @
     put_be 4 (dSchemaVersion m) @
     put_be 8 (dAggregateVersion m) @
     lay16 (bytes_of_string (dMetadata m)) @
     lay16 (bytes_of_string (dKey m))"

definition diskTrailer :: "diskMessage \<Rightarrow> bytes" where
  "diskTrailer m =
     lay16 (bytes_of_string (dTransactionalID m)) @
     lay16 (bytes_of_string (dTransactionState m)) @
     lay16 (bytes_of_string (dTransactionMarker m)) @
     lay16 (bytes_of_string (dControlBatchType m)) @
     put_be 2 (dControlBatchVersion m) @
     put_be 8 (dControlBatchCoordinatorEpoch m) @
     lay16 (slice_bytes (dControlBatchKey m)) @
     lay16 (slice_bytes (dControlBatchValue m))"

definition SerializeDiskMessage :: "diskMessage \<Rightarrow> disk_error + bytes" where
  "SerializeDiskMessage m =
     (if \<not> diskLengthsFit m then Inl FieldOutOfRange
      else if SafeInt32ToUint32 (dPartition m) = None then Inl FieldOutOfRange
      else if SafeInt64ToUint64 (dEpoch m) = None then Inl FieldOutOfRange
      else Inr (diskHeader m @ diskBody m @ diskTrailer m))"

subsection \<open>Deserialization\<close>

text \<open>One reading step, and the continuation with its result.\<close>

definition readBE :: "nat \<Rightarrow> bytes \<Rightarrow> disk_error + ('a::len word \<times> bytes)" where
  "readBE n data = (if n > length data then Inl TruncatedMessage else Inr (get_be (take n data), drop n data))"

definition and_then :: "disk_error + ('a \<times> bytes) \<Rightarrow> ('a \<Rightarrow> bytes \<Rightarrow> disk_error + 'b) \<Rightarrow> disk_error + 'b" where
  "and_then r k = (case r of Inl e \<Rightarrow> Inl e | Inr (x, rest) \<Rightarrow> k x rest)"

definition readSlice :: "nat \<Rightarrow> bytes \<Rightarrow> disk_error + (bytes \<times> bytes)" where
  "readSlice n data = (if n > length data then Inl TruncatedMessage else Inr (take n data, drop n data))"

definition readDiskString :: "bytes \<Rightarrow> disk_error + (string \<times> bytes)" where
  "readDiskString data =
     and_then (readBE 2 data) (\<lambda>len :: u16. \<lambda>rest.
     and_then (readSlice (unat len) rest) (\<lambda>bs rest. Inr (string_of_bytes bs, rest)))"

definition readDiskBytes :: "bytes \<Rightarrow> disk_error + (bytes option \<times> bytes)" where
  "readDiskBytes data =
     and_then (readBE 2 data) (\<lambda>len :: u16. \<lambda>rest.
     and_then (readSlice (unat len) rest) (\<lambda>bs rest. Inr (if len = 0 then None else Some bs, rest)))"

definition readPayload :: "bytes \<Rightarrow> disk_error + (string \<times> bytes)" where
  "readPayload data =
     and_then (readBE 4 data) (\<lambda>len :: u32. \<lambda>rest.
     and_then (readSlice (unat len) rest) (\<lambda>bs rest. Inr (string_of_bytes bs, rest)))"

definition readDiskHeader :: "bytes \<Rightarrow> diskMessage \<Rightarrow> disk_error + (diskMessage \<times> bytes)" where
  "readDiskHeader data m =
     and_then (readDiskString data) (\<lambda>topic data.
     and_then (readBE 4 data) (\<lambda>part data.
     if SafeUint32ToInt32 part = None then Inl ValueOutOfRange else
     and_then (readBE 8 data) (\<lambda>offset data.
     and_then (readDiskString data) (\<lambda>producer data.
     and_then (readBE 8 data) (\<lambda>seqNum data.
     and_then (readBE 8 data) (\<lambda>epoch data.
     if SafeUint64ToInt64 epoch = None then Inl ValueOutOfRange else
     Inr (m\<lparr>dTopic := topic, dPartition := part, dOffset := offset, dProducerID := producer,
             dSeqNum := seqNum, dEpoch := epoch\<rparr>, data)))))))"

definition readDiskBody :: "bytes \<Rightarrow> diskMessage \<Rightarrow> disk_error + (diskMessage \<times> bytes)" where
  "readDiskBody data m =
     and_then (readPayload data) (\<lambda>payload data.
     and_then (readDiskString data) (\<lambda>eventType data.
     and_then (readBE 4 data) (\<lambda>schemaVersion data.
     and_then (readBE 8 data) (\<lambda>aggregateVersion data.
     and_then (readDiskString data) (\<lambda>metadata data.
     and_then (readDiskString data) (\<lambda>key data.
     Inr (m\<lparr>dPayload := payload, dEventType := eventType, dSchemaVersion := schemaVersion,
             dAggregateVersion := aggregateVersion, dMetadata := metadata, dKey := key\<rparr>, data)))))))"

definition readDiskTrailer :: "bytes \<Rightarrow> diskMessage \<Rightarrow> disk_error + (diskMessage \<times> bytes)" where
  "readDiskTrailer data m =
     and_then (readDiskString data) (\<lambda>txnID data.
     and_then (readDiskString data) (\<lambda>txnState data.
     and_then (readDiskString data) (\<lambda>txnMarker data.
     and_then (readDiskString data) (\<lambda>controlType data.
     and_then (readBE 2 data) (\<lambda>controlVersion data.
     and_then (readBE 8 data) (\<lambda>controlEpoch data.
     and_then (readDiskBytes data) (\<lambda>controlKey data.
     and_then (readDiskBytes data) (\<lambda>controlValue data.
     Inr (m\<lparr>dTransactionalID := txnID, dTransactionState := txnState, dTransactionMarker := txnMarker,
             dControlBatchType := controlType, dControlBatchVersion := controlVersion,
             dControlBatchCoordinatorEpoch := controlEpoch, dControlBatchKey := controlKey,
             dControlBatchValue := controlValue\<rparr>, data)))))))))"

definition DeserializeDiskMessage :: "bytes \<Rightarrow> disk_error + diskMessage" where
  "DeserializeDiskMessage data =
     (if take 4 data \<noteq> bytes_of_string diskMessageMagic then Inl UnsupportedFormat
      else and_then (readDiskHeader (drop 4 data) zeroDiskMessage) (\<lambda>m data.
           and_then (readDiskBody data m) (\<lambda>m data.
           and_then (readDiskTrailer data m) (\<lambda>m data.
           if data \<noteq> [] then Inl TrailingDiskBytes else Inr m))))"

definition MaxMessageSize :: nat where
  "MaxMessageSize = MaxFramePayload"

definition validateSerializedDiskMessageSize :: "bytes \<Rightarrow> bool" where
  "validateSerializedDiskMessageSize serialized \<longleftrightarrow> serialized \<noteq> [] \<and> length serialized \<le> MaxMessageSize"

definition validateDiskMessageSize :: "diskMessage \<Rightarrow> disk_error option" where
  "validateDiskMessageSize m =
     (case SerializeDiskMessage m of
        Inl e \<Rightarrow> Some e
      | Inr serialized \<Rightarrow> if validateSerializedDiskMessageSize serialized then None else Some MessageTooLarge)"

subsection \<open>Messages and disk messages\<close>

definition diskMessageFromMessage :: "string \<Rightarrow> i32 \<Rightarrow> message \<Rightarrow> diskMessage" where
  "diskMessageFromMessage topic part msg =
     \<lparr>dTopic = topic, dPartition = part, dOffset = mOffset msg, dProducerID = mProducerID msg,
      dSeqNum = mSeqNum msg, dEpoch = mEpoch msg, dPayload = mPayload msg, dKey = mKey msg,
      dEventType = mEventType msg, dSchemaVersion = mSchemaVersion msg, dAggregateVersion = mAggregateVersion msg,
      dMetadata = mMetadata msg, dTransactionalID = mTransactionalID msg, dTransactionState = mTransactionState msg,
      dTransactionMarker = mTransactionMarker msg, dControlBatchType = mControlBatchType msg,
      dControlBatchVersion = mControlBatchVersion msg,
      dControlBatchCoordinatorEpoch = mControlBatchCoordinatorEpoch msg,
      dControlBatchKey = mControlBatchKey msg, dControlBatchValue = mControlBatchValue msg\<rparr>"

definition messageFromDisk :: "diskMessage \<Rightarrow> message" where
  "messageFromDisk d =
     zeroMessage\<lparr>mOffset := dOffset d, mPayload := dPayload d, mProducerID := dProducerID d, mSeqNum := dSeqNum d,
       mEpoch := dEpoch d, mKey := dKey d, mEventType := dEventType d, mSchemaVersion := dSchemaVersion d,
       mAggregateVersion := dAggregateVersion d, mMetadata := dMetadata d, mTransactionalID := dTransactionalID d,
       mTransactionState := dTransactionState d, mTransactionMarker := dTransactionMarker d,
       mControlBatchType := dControlBatchType d, mControlBatchVersion := dControlBatchVersion d,
       mControlBatchCoordinatorEpoch := dControlBatchCoordinatorEpoch d, mControlBatchKey := dControlBatchKey d,
       mControlBatchValue := dControlBatchValue d\<rparr>"

subsection \<open>Reading back what was written\<close>

text \<open>The message a reader gets back: an empty control batch slice comes back nil.\<close>

definition stored :: "diskMessage \<Rightarrow> diskMessage" where
  "stored m = m\<lparr>dControlBatchKey := (if slice_bytes (dControlBatchKey m) = [] then None else dControlBatchKey m),
                dControlBatchValue := (if slice_bytes (dControlBatchValue m) = [] then None else dControlBatchValue m)\<rparr>"

text \<open>What \<open>SerializeDiskMessage\<close> accepts.\<close>

definition storable :: "diskMessage \<Rightarrow> bool" where
  "storable m \<longleftrightarrow> diskLengthsFit m \<and> 0 \<le> sint (dPartition m) \<and> 0 \<le> sint (dEpoch m)"

definition diskLayout :: "diskMessage \<Rightarrow> bytes" where
  "diskLayout m = diskHeader m @ diskBody m @ diskTrailer m"

lemma and_then_simps [simp]: "and_then (Inl e) k = Inl e" "and_then (Inr (x, rest)) k = k x rest"
  by (simp_all add: and_then_def)

lemma readBE_u16 [simp]: "readBE 2 (put_be 2 v @ rest) = Inr (v :: u16, rest)"
  and readBE_u32 [simp]: "readBE 4 (put_be 4 w @ rest) = Inr (w :: u32, rest)"
  and readBE_u64 [simp]: "readBE 8 (put_be 8 x @ rest) = Inr (x :: u64, rest)"
  by (simp_all add: readBE_def)

lemma readSlice_append [simp]: "n = length bs \<Longrightarrow> readSlice n (bs @ rest) = Inr (bs, rest)"
  by (simp add: readSlice_def)

lemma SafeIntToUint16_fits: "(\<exists>y. SafeIntToUint16 n = Some y) \<longleftrightarrow> n \<le> 65535"
  by (auto simp: SafeIntToUint16_def)

lemma SafeIntToUint32_fits: "(\<exists>y. SafeIntToUint32 n = Some y) \<longleftrightarrow> n \<le> 4294967295"
  by (auto simp: SafeIntToUint32_def)

lemma unat_u16_length: "n \<le> 65535 \<Longrightarrow> unat (word_of_nat n :: u16) = n"
  by (simp add: unat_of_nat)

lemma unat_u32_length: "n \<le> 4294967295 \<Longrightarrow> unat (word_of_nat n :: u32) = n"
  by (simp add: unat_of_nat)

lemma readDiskString_lay16:
  "length s \<le> 65535 \<Longrightarrow> readDiskString (lay16 (bytes_of_string s) @ rest) = Inr (s, rest)"
  by (simp add: readDiskString_def lay16_def unat_u16_length)

lemma word16_zero_length: "n \<le> 65535 \<Longrightarrow> (word_of_nat n :: u16) = 0 \<longleftrightarrow> n = 0"
  by (metis unat_u16_length unat_eq_zero of_nat_0)

lemma readDiskBytes_lay16:
  "length bs \<le> 65535 \<Longrightarrow>
   readDiskBytes (lay16 bs @ rest) = Inr (if bs = [] then None else Some bs, rest)"
  by (simp add: readDiskBytes_def lay16_def unat_u16_length word16_zero_length)

lemma readPayload_lay32:
  "length s \<le> 4294967295 \<Longrightarrow> readPayload (lay32 (bytes_of_string s) @ rest) = Inr (s, rest)"
  by (simp add: readPayload_def lay32_def unat_u32_length)

lemma odd_div_two_pow: "(n :: nat) < 2 * k \<Longrightarrow> odd (n div k) \<longleftrightarrow> k \<le> n"
proof (cases "k \<le> n")
  case True
  assume "n < 2 * k"
  with True have "n div k = 1" by (intro div_nat_eqI) simp_all
  with True show ?thesis by simp
qed simp

lemma sint_negative_u32: "sint (v :: u32) < 0 \<longleftrightarrow> 2147483647 < v"
proof -
  have u: "unat v < 2 * 2147483648" using unsigned_less [of v, where 'a = nat] by simp
  have "sint v < 0 \<longleftrightarrow> bit v 31" using bit_last_iff [of v] by simp
  also have "bit v 31 \<longleftrightarrow> bit (unat v) 31" by (simp add: bit_unsigned_iff)
  also have "\<dots> \<longleftrightarrow> odd (unat v div 2147483648)" by (simp add: bit_iff_odd)
  also have "\<dots> \<longleftrightarrow> 2147483648 \<le> unat v" using u by (rule odd_div_two_pow)
  finally show ?thesis by (simp add: word_less_nat_alt Suc_le_eq [symmetric])
qed

lemma sint_negative_u64: "sint (v :: u64) < 0 \<longleftrightarrow> 9223372036854775807 < v"
proof -
  have u: "unat v < 2 * 9223372036854775808" using unsigned_less [of v, where 'a = nat] by simp
  have "sint v < 0 \<longleftrightarrow> bit v 63" using bit_last_iff [of v] by simp
  also have "bit v 63 \<longleftrightarrow> bit (unat v) 63" by (simp add: bit_unsigned_iff)
  also have "\<dots> \<longleftrightarrow> odd (unat v div 9223372036854775808)" by (simp add: bit_iff_odd)
  also have "\<dots> \<longleftrightarrow> 9223372036854775808 \<le> unat v" using u by (rule odd_div_two_pow)
  finally show ?thesis by (simp add: word_less_nat_alt Suc_le_eq [symmetric])
qed

lemma SafeUint32ToInt32_fits: "SafeUint32ToInt32 v = None \<longleftrightarrow> sint v < 0"
  by (simp add: SafeUint32ToInt32_def sint_negative_u32)

lemma SafeUint64ToInt64_fits: "SafeUint64ToInt64 v = None \<longleftrightarrow> sint v < 0"
  by (simp add: SafeUint64ToInt64_def sint_negative_u64)

lemma length_lay16 [simp]: "length (lay16 bs) = 2 + length bs"
  by (simp add: lay16_def)

lemma length_lay32 [simp]: "length (lay32 bs) = 4 + length bs"
  by (simp add: lay32_def)

lemma length_magic [simp]: "length diskMessageMagic = 4"
  by (simp add: diskMessageMagic_def)

lemmas disk_field_simps = readDiskString_lay16 readDiskBytes_lay16 readPayload_lay32 diskLengthsFit_def
  SafeIntToUint16_fits SafeIntToUint32_fits SafeUint32ToInt32_fits SafeUint64ToInt64_fits not_less

lemma SerializeDiskMessage_eq:
  "SerializeDiskMessage m = (if storable m then Inr (diskLayout m) else Inl FieldOutOfRange)"
  by (auto simp: SerializeDiskMessage_def storable_def diskLayout_def SafeInt32ToUint32_def SafeInt64ToUint64_def
      not_less)

lemma length_diskLayout: "length (diskLayout m) = EstimateDiskMessageSize m"
  by (simp add: diskLayout_def diskHeader_def diskBody_def diskTrailer_def EstimateDiskMessageSize_def)

lemma readDiskHeader_layout:
  assumes "storable m"
  shows "readDiskHeader (drop 4 (diskHeader m @ rest)) z =
    Inr (z\<lparr>dTopic := dTopic m, dPartition := dPartition m, dOffset := dOffset m, dProducerID := dProducerID m,
           dSeqNum := dSeqNum m, dEpoch := dEpoch m\<rparr>, rest)"
  using assms by (simp add: readDiskHeader_def diskHeader_def storable_def disk_field_simps)

lemma readDiskBody_layout:
  assumes "storable m"
  shows "readDiskBody (diskBody m @ rest) z =
    Inr (z\<lparr>dPayload := dPayload m, dEventType := dEventType m, dSchemaVersion := dSchemaVersion m,
           dAggregateVersion := dAggregateVersion m, dMetadata := dMetadata m, dKey := dKey m\<rparr>, rest)"
  using assms by (simp add: readDiskBody_def diskBody_def storable_def disk_field_simps)

lemma readDiskTrailer_layout:
  assumes "storable m"
  shows "readDiskTrailer (diskTrailer m @ rest) z =
    Inr (z\<lparr>dTransactionalID := dTransactionalID m, dTransactionState := dTransactionState m,
           dTransactionMarker := dTransactionMarker m, dControlBatchType := dControlBatchType m,
           dControlBatchVersion := dControlBatchVersion m,
           dControlBatchCoordinatorEpoch := dControlBatchCoordinatorEpoch m,
           dControlBatchKey := dControlBatchKey (stored m), dControlBatchValue := dControlBatchValue (stored m)\<rparr>, rest)"
  using assms
  by (auto simp: readDiskTrailer_def diskTrailer_def storable_def stored_def slice_bytes_def disk_field_simps
      split: option.splits)

lemma disk_message_inverse:
  assumes "storable m"
  shows "DeserializeDiskMessage (diskLayout m) = Inr (stored m)"
proof -
  have magic: "take 4 (diskLayout m) = bytes_of_string diskMessageMagic"
    by (simp add: diskLayout_def diskHeader_def)
  show ?thesis
    unfolding DeserializeDiskMessage_def magic unfolding diskLayout_def
    using readDiskTrailer_layout [OF assms, of "[]"]
    by (simp add: readDiskHeader_layout [OF assms] readDiskBody_layout [OF assms] zeroDiskMessage_def stored_def
        del: drop_append)
qed

lemma stored_stored [simp]: "stored (stored m) = stored m"
  by (simp add: stored_def slice_bytes_def)

lemma stored_fields [simp]:
  "dOffset (stored m) = dOffset m" "dProducerID (stored m) = dProducerID m" "dSeqNum (stored m) = dSeqNum m"
  "dEpoch (stored m) = dEpoch m" "dKey (stored m) = dKey m"
  by (simp_all add: stored_def)

lemma diskLayout_stored [simp]: "diskLayout (stored m) = diskLayout m"
  by (auto simp: diskLayout_def diskHeader_def diskBody_def diskTrailer_def stored_def slice_bytes_def split: option.splits)

end
