(* ===== verification/Disk_Segment.thy ===== *)
theory Disk_Segment
  imports Disk_Message
begin

section \<open>Segment files\<close>

text \<open>
  The scanners of a segment file: \<open>scanSegmentTail\<close> and \<open>recoverActiveSegmentMode\<close> of
  \<open>pkg/disk/recovery.go\<close>, \<open>readMessagesFromPosition\<close> and \<open>countMessagesInSegmentID\<close> of \<open>handler.go\<close>,
  \<open>findTruncatePosition\<close> of \<open>truncate.go\<close>, \<open>scanCompactionSegment\<close> of \<open>compaction.go\<close>, and the sparse index
  of \<open>index.go\<close>.

  A file is the list of its bytes, and a scanner that stands at byte \<open>position\<close> holds the bytes after it.
  Byte positions are natural numbers, since no file has \<open>2\<^sup>6\<^sup>4\<close> bytes. A failing \<open>ReadAt\<close> or \<open>io.ReadFull\<close> is
  modelled where the file ends too early; other I/O errors are not. An index file is the list of its 16-byte
  entries, including the zero entries that fill it up.

  A segment file is the concatenation of frames, a frame being a big-endian length and a serialized record.
  The lemmas say what each scanner returns on such a file, with or without a torn frame at the end.
\<close>

subsection \<open>One frame\<close>

text \<open>What is found at a position: the reading steps all scanners share, each with its own reaction.\<close>

datatype frame_read =
    FrameEOF
  | FrameShortLength
  | FrameBadLength
  | FrameShort
  | FrameUndecodable disk_error
  | Frame diskMessage nat

definition nextFrame :: "bytes \<Rightarrow> frame_read" where
  "nextFrame rest =
     (if rest = [] then FrameEOF
      else if length rest < 4 then FrameShortLength
      else let len = unat (get_be (take 4 rest) :: u32) in
        if len = 0 \<or> len > MaxMessageSize then FrameBadLength
        else if length rest < 4 + len then FrameShort
        else case DeserializeDiskMessage (take len (drop 4 rest)) of
               Inl e \<Rightarrow> FrameUndecodable e
             | Inr m \<Rightarrow> Frame m len)"

lemma nextFrame_Frame_length: "nextFrame rest = Frame m len \<Longrightarrow> 4 + len \<le> length rest"
  by (auto simp: nextFrame_def Let_def split: if_splits sum.splits)

subsection \<open>Recovery of the active segment\<close>

function scanTail :: "nat \<Rightarrow> u64 \<Rightarrow> bytes \<Rightarrow> disk_error + (nat \<times> u64 \<times> bool)" where
  "scanTail position nextOffset rest =
     (case nextFrame rest of
        FrameEOF \<Rightarrow> Inr (position, nextOffset, False)
      | FrameShortLength \<Rightarrow> Inr (position, nextOffset, True)
      | FrameBadLength \<Rightarrow> Inl CorruptLength
      | FrameShort \<Rightarrow> Inr (position, nextOffset, True)
      | FrameUndecodable e \<Rightarrow> Inl e
      | Frame m len \<Rightarrow>
          if dOffset m \<noteq> nextOffset then Inl NonContiguousOffset
          else scanTail (position + 4 + len) (nextOffset + 1) (drop (4 + len) rest))"
  by pat_completeness auto
termination
  by (relation "measure (\<lambda>(position, nextOffset, rest). length rest)") (auto dest: nextFrame_Frame_length)

declare scanTail.simps [simp del]

definition scanSegmentTail :: "bytes \<Rightarrow> nat \<Rightarrow> u64 \<Rightarrow> disk_error + (nat \<times> u64 \<times> bool)" where
  "scanSegmentTail file startPosition expectedOffset =
     (if startPosition > length file then Inl CorruptLength
      else scanTail startPosition expectedOffset (drop startPosition file))"

record indexEntry =
  ieOffset :: u64
  iePosition :: nat

definition zeroEntry :: "indexEntry \<Rightarrow> bool" where
  "zeroEntry e \<longleftrightarrow> ieOffset e = 0 \<and> iePosition e = 0"

definition lastUsableIndexEntry :: "indexEntry list \<Rightarrow> nat \<Rightarrow> indexEntry option" where
  "lastUsableIndexEntry index logSize = find (\<lambda>e. \<not> zeroEntry e \<and> iePosition e < logSize) (rev index)"

definition indexEntryMatchesRecord :: "bytes \<Rightarrow> indexEntry \<Rightarrow> bool" where
  "indexEntryMatchesRecord file e =
     (case nextFrame (drop (iePosition e) file) of
        Frame m len \<Rightarrow> dOffset m = ieOffset e
      | _ \<Rightarrow> False)"

record segmentRecovery =
  srFile :: bytes
  srValidBytes :: nat
  srNextOffset :: u64

definition recoverActiveSegmentMode ::
  "bytes \<Rightarrow> indexEntry list \<Rightarrow> u64 \<Rightarrow> bool \<Rightarrow> disk_error + segmentRecovery" where
  "recoverActiveSegmentMode file index baseOffset rejectPartialTail =
     (let (start, expected) =
            (case lastUsableIndexEntry index (length file) of
               Some e \<Rightarrow> if indexEntryMatchesRecord file e then (iePosition e, ieOffset e) else (0, baseOffset)
             | None \<Rightarrow> (0, baseOffset));
          first = scanSegmentTail file start expected;
          scanned = (case first of
                       Inl e \<Rightarrow> if start \<noteq> 0 then scanSegmentTail file 0 baseOffset else Inl e
                     | Inr r \<Rightarrow> Inr r)
      in case scanned of
           Inl e \<Rightarrow> Inl e
         | Inr (validBytes, nextOffset, partial) \<Rightarrow>
             if partial \<and> rejectPartialTail then Inl PartialTail
             else Inr \<lparr>srFile = (if partial then take validBytes file else file),
                       srValidBytes = validBytes, srNextOffset = nextOffset\<rparr>)"

subsection \<open>Reading\<close>

function readFrom ::
  "bool \<Rightarrow> bool \<Rightarrow> u64 \<Rightarrow> u64 \<Rightarrow> nat \<Rightarrow> nat \<Rightarrow> u64 option \<Rightarrow> bytes \<Rightarrow> disk_error + message list" where
  "readFrom allowPartialTail allowOffsetGaps segmentBase targetOffset limit pos previous rest =
     (if limit = 0 then Inr []
      else case nextFrame rest of
        FrameEOF \<Rightarrow> Inr []
      | FrameShortLength \<Rightarrow> if allowPartialTail then Inr [] else Inl TruncatedRecord
      | FrameBadLength \<Rightarrow> Inl CorruptLength
      | FrameShort \<Rightarrow> if allowPartialTail then Inr [] else Inl TruncatedRecord
      | FrameUndecodable e \<Rightarrow> Inl e
      | Frame m len \<Rightarrow>
          if previous = None \<and> pos = 0 \<and> \<not> allowOffsetGaps \<and> dOffset m \<noteq> segmentBase
          then Inl UnexpectedFirstOffset
          else if (case previous of None \<Rightarrow> False | Some p \<Rightarrow> dOffset m \<le> p) then Inl NonIncreasingOffset
          else if (case previous of None \<Rightarrow> False | Some p \<Rightarrow> \<not> allowOffsetGaps \<and> dOffset m \<noteq> p + 1)
          then Inl NonContiguousOffset
          else if dOffset m < targetOffset
          then readFrom allowPartialTail allowOffsetGaps segmentBase targetOffset limit (pos + 4 + len)
                 (Some (dOffset m)) (drop (4 + len) rest)
          else case readFrom allowPartialTail allowOffsetGaps segmentBase targetOffset (limit - 1) (pos + 4 + len)
                      (Some (dOffset m)) (drop (4 + len) rest) of
                 Inl e \<Rightarrow> Inl e
               | Inr ms \<Rightarrow> Inr (messageFromDisk m # ms))"
  by pat_completeness auto
termination
  by (relation "measure (\<lambda>(a, b, c, d, e, f, g, rest). length rest)") (auto dest: nextFrame_Frame_length)

declare readFrom.simps [simp del]

definition readMessagesFromPosition ::
  "bytes \<Rightarrow> nat \<Rightarrow> nat \<Rightarrow> u64 \<Rightarrow> u64 \<Rightarrow> bool \<Rightarrow> bool \<Rightarrow> disk_error + message list" where
  "readMessagesFromPosition file position limit targetOffset segmentBase allowPartialTail allowOffsetGaps =
     readFrom allowPartialTail allowOffsetGaps segmentBase targetOffset limit position None (drop position file)"

subsection \<open>Truncation and counting\<close>

function truncateScan :: "u64 \<Rightarrow> nat \<Rightarrow> bytes \<Rightarrow> disk_error + nat" where
  "truncateScan nextOffset position rest =
     (case nextFrame rest of
        FrameEOF \<Rightarrow> Inr position
      | FrameShortLength \<Rightarrow> Inl TruncatedRecord
      | FrameBadLength \<Rightarrow> Inl CorruptLength
      | FrameShort \<Rightarrow> Inl TruncatedRecord
      | FrameUndecodable e \<Rightarrow> Inl e
      | Frame m len \<Rightarrow>
          if dOffset m \<ge> nextOffset then Inr position
          else truncateScan nextOffset (position + 4 + len) (drop (4 + len) rest))"
  by pat_completeness auto
termination
  by (relation "measure (\<lambda>(nextOffset, position, rest). length rest)") (auto dest: nextFrame_Frame_length)

declare truncateScan.simps [simp del]

definition findTruncatePosition :: "bytes \<Rightarrow> u64 \<Rightarrow> disk_error + nat" where
  "findTruncatePosition file nextOffset = truncateScan nextOffset 0 file"

function countFrames :: "bytes \<Rightarrow> nat" where
  "countFrames rest =
     (if length rest < 4 then 0
      else let len = unat (get_be (take 4 rest) :: u32) in
        if len = 0 \<or> len > MaxMessageSize \<or> length rest < 4 + len then 0
        else Suc (countFrames (drop (4 + len) rest)))"
  by pat_completeness auto
termination
  by (relation "measure length") auto

declare countFrames.simps [simp del]

subsection \<open>Scanning for compaction\<close>

record compactionFrame =
  cfMessage :: diskMessage
  cfRaw :: bytes

function compactionScan :: "u64 \<Rightarrow> bool \<Rightarrow> u64 option \<Rightarrow> bytes \<Rightarrow> disk_error + compactionFrame list" where
  "compactionScan expectedBase allowOffsetGaps previous rest =
     (case nextFrame rest of
        FrameEOF \<Rightarrow> Inr []
      | FrameShortLength \<Rightarrow> Inl TruncatedRecord
      | FrameBadLength \<Rightarrow> Inl CorruptLength
      | FrameShort \<Rightarrow> Inl TruncatedRecord
      | FrameUndecodable e \<Rightarrow> Inl e
      | Frame m len \<Rightarrow>
          if previous = None \<and> \<not> allowOffsetGaps \<and> dOffset m \<noteq> expectedBase then Inl UnexpectedFirstOffset
          else if (case previous of None \<Rightarrow> False | Some p \<Rightarrow> dOffset m \<le> p) then Inl NonIncreasingOffset
          else if (case previous of None \<Rightarrow> False | Some p \<Rightarrow> \<not> allowOffsetGaps \<and> dOffset m \<noteq> p + 1)
          then Inl NonContiguousOffset
          else case compactionScan expectedBase allowOffsetGaps (Some (dOffset m)) (drop (4 + len) rest) of
                 Inl e \<Rightarrow> Inl e
               | Inr fs \<Rightarrow> Inr (\<lparr>cfMessage = m, cfRaw = take (4 + len) rest\<rparr> # fs))"
  by pat_completeness auto
termination
  by (relation "measure (\<lambda>(a, b, c, rest). length rest)") (auto dest: nextFrame_Frame_length)

declare compactionScan.simps [simp del]

definition scanCompactionSegment :: "bytes \<Rightarrow> u64 \<Rightarrow> bool \<Rightarrow> disk_error + compactionFrame list" where
  "scanCompactionSegment file expectedBase allowOffsetGaps = compactionScan expectedBase allowOffsetGaps None file"

subsection \<open>The sparse index\<close>

text \<open>The entries \<open>indexValidBytes\<close> and \<open>validIndexPrefix\<close> keep; the latter also stops at the end of the log.\<close>

fun indexPrefix :: "(indexEntry \<Rightarrow> bool) \<Rightarrow> indexEntry option \<Rightarrow> indexEntry list \<Rightarrow> indexEntry list" where
  "indexPrefix good prev [] = []"
| "indexPrefix good prev (e # es) =
     (if zeroEntry e then []
      else if (case prev of None \<Rightarrow> False
               | Some l \<Rightarrow> ieOffset e \<le> ieOffset l \<or> iePosition e \<le> iePosition l) then []
      else if \<not> good e then []
      else e # indexPrefix good (Some e) es)"

definition indexValidBytes :: "indexEntry list \<Rightarrow> indexEntry list" where
  "indexValidBytes index = indexPrefix (\<lambda>e. True) None index"

definition validIndexPrefix :: "nat \<Rightarrow> indexEntry list \<Rightarrow> indexEntry list" where
  "validIndexPrefix currentOffset index = indexPrefix (\<lambda>e. iePosition e < currentOffset) None index"

function indexSearch :: "indexEntry list \<Rightarrow> u64 \<Rightarrow> int \<Rightarrow> int \<Rightarrow> indexEntry option \<Rightarrow> indexEntry option" where
  "indexSearch entries offset low high candidate =
     (if low > high then candidate
      else let mid = (low + high) div 2; e = entries ! nat mid in
        if ieOffset e = offset then Some e
        else if ieOffset e < offset then indexSearch entries offset (mid + 1) high (Some e)
        else indexSearch entries offset low (mid - 1) candidate)"
  by pat_completeness auto
termination
  by (relation "measure (\<lambda>(entries, offset, low, high, candidate). nat (high + 1 - low))") auto

declare indexSearch.simps [simp del]

definition findIndexEntry :: "indexEntry list \<Rightarrow> u64 \<Rightarrow> indexEntry option" where
  "findIndexEntry entries offset = indexSearch entries offset 0 (int (length entries) - 1) None"

text \<open>The position a read of \<open>offset\<close> starts at: that of the closest index entry before it that is still right.\<close>

definition positionFromIndex :: "bytes \<Rightarrow> indexEntry list \<Rightarrow> u64 \<Rightarrow> nat" where
  "positionFromIndex file entries offset =
     (case findIndexEntry entries offset of
        None \<Rightarrow> 0
      | Some e \<Rightarrow> if indexEntryMatchesRecord file e then iePosition e else 0)"

subsection \<open>Framed records\<close>

definition frame :: "diskMessage \<Rightarrow> bytes" where
  "frame m = put_be 4 (word_of_nat (length (diskLayout m)) :: u32) @ diskLayout m"

definition framed :: "diskMessage list \<Rightarrow> bytes" where
  "framed ms = concat (map frame ms)"

text \<open>The records a handler writes: as they come back from disk, serializable, and within the size limit.\<close>

definition writable :: "diskMessage \<Rightarrow> bool" where
  "writable m \<longleftrightarrow> storable m \<and> stored m = m \<and> length (diskLayout m) \<le> MaxMessageSize"

text \<open>What a torn write leaves behind: a proper prefix of a frame.\<close>

definition torn :: "bytes \<Rightarrow> bool" where
  "torn t \<longleftrightarrow> (\<exists>m k. writable m \<and> k < length (frame m) \<and> t = take k (frame m))"

abbreviation off :: "diskMessage \<Rightarrow> nat" where
  "off m \<equiv> unat (dOffset m)"

lemma framed_simps [simp]: "framed [] = []" "framed (m # ms) = frame m @ framed ms" "framed (ms @ ns) = framed ms @ framed ns"
  by (simp_all add: framed_def)

lemma length_frame [simp]: "length (frame m) = 4 + length (diskLayout m)"
  by (simp add: frame_def)

lemma diskLayout_not_Nil [simp]: "diskLayout m \<noteq> []"
  using length_diskLayout [of m] by (auto simp: EstimateDiskMessageSize_def)

lemma frame_not_Nil [simp]: "frame m \<noteq> []"
  by (simp add: frame_def)

lemma writable_length_u32:
  "writable m \<Longrightarrow> unat (word_of_nat (length (diskLayout m)) :: u32) = length (diskLayout m)"
  by (rule unat_u32_length) (simp add: writable_def MaxMessageSize_def MaxFramePayload_def)

lemma nextFrame_Nil [simp]: "nextFrame [] = FrameEOF"
  by (simp add: nextFrame_def)

lemma nextFrame_frame:
  assumes "writable m"
  shows "nextFrame (frame m @ rest) = Frame m (length (diskLayout m))"
proof -
  have "take 4 (frame m @ rest) = put_be 4 (word_of_nat (length (diskLayout m)) :: u32)"
    by (simp add: frame_def)
  moreover have "take (length (diskLayout m)) (drop 4 (frame m @ rest)) = diskLayout m"
    by (simp add: frame_def)
  ultimately show ?thesis
    using assms disk_message_inverse [of m]
    by (simp add: nextFrame_def writable_length_u32) (simp add: writable_def)
qed

lemma nextFrame_torn: "torn t \<Longrightarrow> t \<noteq> [] \<Longrightarrow> nextFrame t \<in> {FrameShortLength, FrameShort}"
proof -
  assume "torn t" and ne: "t \<noteq> []"
  then obtain m k where m: "writable m" and k: "k < length (frame m)" and t: "t = take k (frame m)"
    unfolding torn_def by blast
  show ?thesis
  proof (cases "k < 4")
    case True
    with ne show ?thesis by (simp add: t nextFrame_def)
  next
    case False
    then have "take 4 t = put_be 4 (word_of_nat (length (diskLayout m)) :: u32)"
      by (simp add: t frame_def take_append)
    with False k ne m show ?thesis
      by (simp add: nextFrame_def t writable_length_u32) (simp add: writable_def)
  qed
qed

lemma torn_Nil [simp]: "writable m \<Longrightarrow> torn []"
  unfolding torn_def by (intro exI [of _ m] exI [of _ 0]) simp

lemma writable_word_succ: "off m + 1 < 2 ^ 64 \<Longrightarrow> unat (dOffset m + 1) = off m + 1"
  by (simp add: unat_word_ariths)

subsection \<open>What the scanners find\<close>

text \<open>Consecutive offsets.\<close>

abbreviation run :: "diskMessage list \<Rightarrow> nat \<Rightarrow> nat \<Rightarrow> bool" where
  "run ms a b \<equiv> map off ms = [a..<b]"

lemma run_Cons: "run (m # ms) a b \<longleftrightarrow> off m = a \<and> a < b \<and> run ms (Suc a) b"
  by (cases "a < b") (auto simp: upt_rec)

lemma run_length: "run ms a b \<Longrightarrow> length ms = b - a"
  by (metis length_map length_upt)

lemma scanTail_framed:
  assumes "list_all writable ms" and "run ms (unat n) b" and "unat n \<le> b" and "b < 2 ^ 64"
    and "t = [] \<or> torn t"
  shows "scanTail pos n (framed ms @ t) = Inr (pos + length (framed ms), word_of_nat b, t \<noteq> [])"
  using assms(1-4)
proof (induction ms arbitrary: pos n)
  case Nil
  then have "unat n = b" using run_length [of "[]" "unat n" b] by simp
  then have "n = word_of_nat b" by auto
  with assms(5) nextFrame_torn [of t] show ?case
    by (cases "t = []") (auto simp: scanTail.simps [of pos _ t] scanTail.simps [of pos _ "[]"])
next
  case (Cons m ms)
  from Cons.prems have w: "writable m" "list_all writable ms" by simp_all
  from Cons.prems(2) have r: "off m = unat n" "run ms (Suc (unat n)) b" "unat n < b"
    unfolding run_Cons by blast+
  have n: "dOffset m = n" using r(1) by (rule unsigned_word_eqI)
  have s: "unat (n + 1) = Suc (unat n)" using r(3) Cons.prems(4) by (simp add: unat_word_ariths)
  have "scanTail pos n (frame m @ framed ms @ t) = scanTail (pos + length (frame m)) (n + 1) (framed ms @ t)"
    using nextFrame_frame [OF w(1), of "framed ms @ t"] n by (simp add: scanTail.simps [of pos n] add.assoc)
  also have "\<dots> = Inr (pos + length (frame m) + length (framed ms), word_of_nat b, t \<noteq> [])"
    using Cons.IH [of "n + 1" "pos + length (frame m)"] w(2) r(2,3) Cons.prems(4) s by simp
  finally show ?case by simp
qed

text \<open>Strictly increasing offsets within a segment, consecutive where gaps are not allowed.\<close>

fun follows :: "bool \<Rightarrow> u64 option \<Rightarrow> diskMessage list \<Rightarrow> bool" where
  "follows gaps prev [] = True"
| "follows gaps prev (m # ms) =
     ((case prev of None \<Rightarrow> True | Some p \<Rightarrow> p < dOffset m \<and> (gaps \<or> dOffset m = p + 1)) \<and>
      follows gaps (Some (dOffset m)) ms)"

lemma readFrom_framed:
  assumes "list_all writable ms" and "follows gaps prev ms"
    and "prev = None \<Longrightarrow> pos = 0 \<Longrightarrow> \<not> gaps \<Longrightarrow> ms \<noteq> [] \<Longrightarrow> dOffset (hd ms) = base"
    and "t = [] \<or> torn t \<and> partial"
  shows "readFrom partial gaps base target limit pos prev (framed ms @ t) =
         Inr (map messageFromDisk (take limit (filter (\<lambda>m. target \<le> dOffset m) ms)))"
  using assms(1-3)
proof (induction ms arbitrary: pos prev limit)
  case Nil
  with assms(4) nextFrame_torn [of t] show ?case
    by (cases "t = []") (auto simp: readFrom.simps [of _ gaps base target limit pos prev t] readFrom.simps [of _ gaps base target limit pos prev "[]"])
next
  case (Cons m ms)
  from Cons.prems have w: "writable m" "list_all writable ms" and f: "follows gaps (Some (dOffset m)) ms" by simp_all
  have step: "readFrom partial gaps base target l (pos + length (frame m)) (Some (dOffset m)) (framed ms @ t) =
      Inr (map messageFromDisk (take l (filter (\<lambda>m. target \<le> dOffset m) ms)))" for l
    using Cons.IH [of "Some (dOffset m)" "pos + length (frame m)" l] w(2) f by simp
  have order: "\<not> (case prev of None \<Rightarrow> False | Some p \<Rightarrow> dOffset m \<le> p)"
    "\<not> (case prev of None \<Rightarrow> False | Some p \<Rightarrow> \<not> gaps \<and> dOffset m \<noteq> p + 1)"
    using Cons.prems(2) by (auto split: option.splits simp: not_le)
  have first: "\<not> (prev = None \<and> pos = 0 \<and> \<not> gaps \<and> dOffset m \<noteq> base)"
    using Cons.prems(3) by auto
  show ?case
    using step [of limit] step [of "limit - 1"] order first nextFrame_frame [OF w(1), of "framed ms @ t"]
    by (cases limit; cases "dOffset m < target")
      (simp_all add: readFrom.simps [of partial gaps base target _ pos prev] add.assoc not_less leD)
qed

lemma compactionScan_framed:
  assumes "list_all writable ms" and "follows gaps prev ms"
    and "prev = None \<Longrightarrow> \<not> gaps \<Longrightarrow> ms \<noteq> [] \<Longrightarrow> dOffset (hd ms) = base"
  shows "compactionScan base gaps prev (framed ms) = Inr (map (\<lambda>m. \<lparr>cfMessage = m, cfRaw = frame m\<rparr>) ms)"
  using assms
proof (induction ms arbitrary: prev)
  case Nil
  then show ?case by (simp add: compactionScan.simps [of base gaps prev "[]"])
next
  case (Cons m ms)
  from Cons.prems have w: "writable m" "list_all writable ms" and f: "follows gaps (Some (dOffset m)) ms" by simp_all
  have step: "compactionScan base gaps (Some (dOffset m)) (framed ms) = Inr (map (\<lambda>m. \<lparr>cfMessage = m, cfRaw = frame m\<rparr>) ms)"
    using Cons.IH [of "Some (dOffset m)"] w(2) f by simp
  have order: "\<not> (case prev of None \<Rightarrow> False | Some p \<Rightarrow> dOffset m \<le> p)"
    "\<not> (case prev of None \<Rightarrow> False | Some p \<Rightarrow> \<not> gaps \<and> dOffset m \<noteq> p + 1)"
    using Cons.prems(2) by (auto split: option.splits simp: not_le)
  have first: "\<not> (prev = None \<and> \<not> gaps \<and> dOffset m \<noteq> base)"
    using Cons.prems(3) by auto
  show ?case
    using step order first nextFrame_frame [OF w(1), of "framed ms"]
    by (simp add: compactionScan.simps [of base gaps prev])
qed

lemma truncateScan_framed:
  assumes "list_all writable ms" and "follows True prev ms"
  shows "truncateScan n pos (framed ms) = Inr (pos + length (framed (takeWhile (\<lambda>m. dOffset m < n) ms)))"
  using assms
proof (induction ms arbitrary: pos prev)
  case Nil
  then show ?case by (simp add: truncateScan.simps [of n pos "[]"])
next
  case (Cons m ms)
  then show ?case
    using nextFrame_frame [of m "framed ms"] Cons.IH [of "Some (dOffset m)" "pos + length (frame m)"]
    by (auto simp: truncateScan.simps [of n pos] add.assoc not_le)
qed

lemma countFrames_framed:
  "list_all writable ms \<Longrightarrow> countFrames (framed ms) = length ms"
proof (induction ms)
  case Nil
  then show ?case by (simp add: countFrames.simps)
next
  case (Cons m ms)
  then have "take 4 (frame m @ framed ms) = put_be 4 (word_of_nat (length (diskLayout m)) :: u32)"
    by (simp add: frame_def)
  with Cons show ?case
    using writable_length_u32 [of m]
    by (simp add: countFrames.simps [of "frame m @ _"] Let_def) (simp add: writable_def)
qed

subsection \<open>The index only saves time\<close>

text \<open>An entry is genuine when the record that starts at its position has its offset.\<close>

definition genuine :: "diskMessage list \<Rightarrow> indexEntry \<Rightarrow> bool" where
  "genuine ms e \<longleftrightarrow>
     (\<exists>as m bs. ms = as @ m # bs \<and> iePosition e = length (framed as) \<and> ieOffset e = dOffset m)"

lemma genuineE:
  assumes "genuine ms e"
  obtains as m bs where "ms = as @ m # bs" "iePosition e = length (framed as)" "ieOffset e = dOffset m"
  using assms unfolding genuine_def by blast

lemma framed_eq_Nil [simp]: "framed ms = [] \<longleftrightarrow> ms = []"
  by (cases ms) simp_all

lemma indexEntryMatchesRecord_genuine:
  assumes "genuine ms e" and "list_all writable ms"
  shows "indexEntryMatchesRecord (framed ms @ t) e"
proof -
  from assms(1) obtain as m bs where "ms = as @ m # bs" "iePosition e = length (framed as)" "ieOffset e = dOffset m"
    by (rule genuineE)
  with assms(2) nextFrame_frame [of m "framed bs @ t"] show ?thesis
    by (simp add: indexEntryMatchesRecord_def)
qed

lemma indexSearch_le:
  assumes "indexSearch entries offset low high candidate = Some e"
    and "\<And>c. candidate = Some c \<Longrightarrow> c \<in> set entries \<and> ieOffset c \<le> offset"
    and "0 \<le> low" and "high < int (length entries)"
  shows "e \<in> set entries \<and> ieOffset e \<le> offset"
  using assms
proof (induction entries offset low high candidate rule: indexSearch.induct)
  case (1 entries offset low high candidate)
  show ?case
  proof (cases "low > high")
    case True
    with "1.prems" show ?thesis by (simp add: indexSearch.simps [of entries offset low high])
  next
    case False
    define mid where "mid = (low + high) div 2"
    define e' where "e' = entries ! nat mid"
    from False "1.prems" have mid: "low \<le> mid" "mid \<le> high" by (auto simp: mid_def)
    with "1.prems" have e': "e' \<in> set entries" unfolding e'_def by (intro nth_mem) simp
    note IH = "1.IH" [OF False mid_def e'_def]
    show ?thesis
      using IH "1.prems" e' mid False
      by (auto simp: indexSearch.simps [of entries offset low high] Let_def mid_def [symmetric] e'_def [symmetric]
          split: if_splits)
  qed
qed

lemma findIndexEntry_le: "findIndexEntry entries offset = Some e \<Longrightarrow> e \<in> set entries \<and> ieOffset e \<le> offset"
  unfolding findIndexEntry_def by (rule indexSearch_le) auto

lemma follows_None: "follows gaps prev ms \<Longrightarrow> follows gaps None ms"
  by (cases ms) auto

lemma follows_append: "follows gaps prev (as @ bs) \<Longrightarrow> follows gaps None bs"
  by (induction as arbitrary: prev) (auto intro: follows_None)

lemma follows_less: "follows gaps (Some p) ms \<Longrightarrow> m \<in> set ms \<Longrightarrow> p < dOffset m"
  by (induction ms arbitrary: p) (auto dest: order.strict_trans)

lemma follows_before:
  "follows gaps prev (as @ m # bs) \<Longrightarrow> a \<in> set as \<Longrightarrow> dOffset a < dOffset m"
proof (induction as arbitrary: prev)
  case (Cons x as)
  then show ?case
    using follows_less [of gaps "dOffset x" "as @ m # bs" m] by auto
qed simp

lemma read_through_index:
  assumes "list_all writable ms" and "follows gaps None ms" and "\<not> gaps \<Longrightarrow> ms \<noteq> [] \<Longrightarrow> dOffset (hd ms) = base"
    and "t = [] \<or> torn t \<and> partial" and "list_all (genuine ms) entries"
  shows "readMessagesFromPosition (framed ms @ t) (positionFromIndex (framed ms @ t) entries target) limit target base
           partial gaps = Inr (map messageFromDisk (take limit (filter (\<lambda>m. target \<le> dOffset m) ms)))"
proof (cases "findIndexEntry entries target")
  case None
  with readFrom_framed [OF assms(1,2) assms(3,4), of 0] show ?thesis
    by (simp add: readMessagesFromPosition_def positionFromIndex_def)
next
  case (Some e)
  with assms(5) have e: "genuine ms e" "ieOffset e \<le> target"
    by (auto dest: findIndexEntry_le simp: list_all_iff)
  from e(1) obtain as m bs where ms: "ms = as @ m # bs" and pos: "iePosition e = length (framed as)"
    and "ieOffset e = dOffset m" by (rule genuineE)
  with e(2) have m: "dOffset m \<le> target" by simp
  have "filter (\<lambda>m. target \<le> dOffset m) as = []"
    using follows_before [of gaps None as m bs] assms(2) m
    by (auto simp: ms filter_empty_conv not_le dest: order.strict_trans2)
  then have filter: "filter (\<lambda>m. target \<le> dOffset m) ms = filter (\<lambda>m. target \<le> dOffset m) (m # bs)"
    by (simp add: ms)
  have "list_all writable (m # bs)" "follows gaps None (m # bs)"
    using assms(1) follows_append [of gaps None as "m # bs"] assms(2) by (simp_all add: ms)
  moreover have "dOffset (hd (m # bs)) = base" if "length (framed as) = 0" "\<not> gaps"
    using that assms(3) by (simp add: ms)
  ultimately have "readFrom partial gaps base target limit (length (framed as)) None (framed (m # bs) @ t) =
      Inr (map messageFromDisk (take limit (filter (\<lambda>m. target \<le> dOffset m) (m # bs))))"
    using assms(4) by (intro readFrom_framed) simp_all
  with Some indexEntryMatchesRecord_genuine [OF e(1) assms(1), of t] show ?thesis
    unfolding filter readMessagesFromPosition_def positionFromIndex_def by (simp add: pos ms)
qed

text \<open>Recovery of the active segment: the whole frames stay, a torn frame at the end is cut off.\<close>

definition index_sane :: "diskMessage list \<Rightarrow> bytes \<Rightarrow> indexEntry \<Rightarrow> bool" where
  "index_sane ms file e \<longleftrightarrow> zeroEntry e \<or> genuine ms e \<or> \<not> indexEntryMatchesRecord file e"

lemma find_SomeD: "find P xs = Some x \<Longrightarrow> x \<in> set xs \<and> P x"
  by (induction xs) (auto split: if_splits)

lemma lastUsableIndexEntry_Some:
  "lastUsableIndexEntry index n = Some e \<Longrightarrow> e \<in> set index \<and> \<not> zeroEntry e"
  unfolding lastUsableIndexEntry_def by (drule find_SomeD) simp

lemma run_append: "run (as @ m # bs) a b \<Longrightarrow> off m = a + length as \<and> run (m # bs) (off m) b"
proof (induction as arbitrary: a)
  case Nil
  then have "off m = a" by (simp only: append_Nil run_Cons)
  with Nil show ?case by simp
next
  case (Cons x as)
  from Cons.prems have "run (as @ m # bs) (Suc a) b" by (simp only: append_Cons run_Cons)
  from Cons.IH [OF this] have m: "off m = Suc a + length as" and r: "run (m # bs) (off m) b" by blast+
  have "off m = a + length (x # as)" using m by simp
  with r show ?case by blast
qed

lemma recover_framed:
  assumes "list_all writable ms" and "run ms (unat base) b" and "unat base \<le> b" and "b < 2 ^ 64"
    and "t = [] \<or> torn t" and "list_all (index_sane ms (framed ms @ t)) index"
  shows "recoverActiveSegmentMode (framed ms @ t) index base strict =
    (if t \<noteq> [] \<and> strict then Inl PartialTail
     else Inr \<lparr>srFile = framed ms, srValidBytes = length (framed ms), srNextOffset = word_of_nat b\<rparr>)"
proof -
  let ?file = "framed ms @ t"
  let ?start = "case lastUsableIndexEntry index (length ?file) of
      Some e \<Rightarrow> if indexEntryMatchesRecord ?file e then (iePosition e, ieOffset e) else (0, base)
    | None \<Rightarrow> (0, base)"
  have scan0: "scanSegmentTail ?file 0 base = Inr (length (framed ms), word_of_nat b, t \<noteq> [])"
    using scanTail_framed [OF assms(1-5), of 0] by (simp add: scanSegmentTail_def)
  have "\<exists>start expected. ?start = (start, expected) \<and>
      scanSegmentTail ?file start expected = Inr (length (framed ms), word_of_nat b, t \<noteq> [])"
  proof (cases "lastUsableIndexEntry index (length ?file)")
    case None
    with scan0 show ?thesis by simp
  next
    case (Some e)
    show ?thesis
    proof (cases "indexEntryMatchesRecord ?file e")
      case False
      with Some scan0 show ?thesis by simp
    next
      case True
      with lastUsableIndexEntry_Some [OF Some] assms(6) have "genuine ms e"
        by (auto simp: list_all_iff index_sane_def)
      then obtain as m bs where ms: "ms = as @ m # bs" and e: "iePosition e = length (framed as)" "ieOffset e = dOffset m"
        by (rule genuineE)
      from assms(2) have r: "off m = unat base + length as" "run (m # bs) (off m) b"
        using run_append [of as m bs "unat base" b] unfolding ms by blast+
      have "off m \<le> b" using r(2) unfolding run_Cons by simp
      then have "scanTail (length (framed as)) (dOffset m) (framed (m # bs) @ t) =
          Inr (length (framed as) + length (framed (m # bs)), word_of_nat b, t \<noteq> [])"
        using assms(1,4,5) r(2) by (intro scanTail_framed) (simp_all add: ms)
      with Some True e show ?thesis by (simp add: scanSegmentTail_def ms)
    qed
  qed
  then obtain start expected where "?start = (start, expected)"
    "scanSegmentTail ?file start expected = Inr (length (framed ms), word_of_nat b, t \<noteq> [])" by blast
  then show ?thesis
    unfolding recoverActiveSegmentMode_def by (auto simp: Let_def)
qed

end
