(* ===== verification/Disk_Handler.thy ===== *)
theory Disk_Handler
  imports Disk_Segment
begin

section \<open>The disk handler of a partition\<close>

text \<open>
  \<open>DiskHandler\<close> of \<open>pkg/disk\<close>: appending (\<open>flush_common.go\<close>, \<open>handler.go\<close>), rolling segments and reading
  across segments.

  \<open>dhFiles\<close> and \<open>dhIndexes\<close> are the segment and index files by base offset. The write buffers are flushed by
  every operation before it returns and are not separate state. \<open>dhWriteCh\<close> holds the messages that
  \<open>AppendMessage\<close> has queued and \<open>flushLoop\<close> has not written yet, in the channel or in its batch.
  \<open>dhSynced\<close> is the number of bytes of the active segment known to have crossed \<open>fsync\<close>.

  The mutexes make each operation atomic. An argument \<open>fault\<close> of a write says how it fails: \<open>Some k\<close> when
  flushing or syncing reports an error after \<open>k\<close> bytes have reached the file. A write that fails returns the
  error and leaves a handler that refuses further writes. Failures to open, close, rename or stat a file, the
  cache of closed segment readers and the file attributes are not modelled.
\<close>

record diskHandler =
  dhSegmentSize :: nat
  dhIndexSize :: nat
  dhIndexInterval :: nat
  dhCurrentOffset :: nat
  dhAbsoluteOffset :: u64
  dhCurrentSegment :: u64
  dhSegments :: "u64 list"
  dhIndexBytesWritten :: nat
  dhLastIndexPosition :: nat
  dhFlushedOffset :: u64
  dhCompacted :: "(u64, nat) gomap"
  dhWriteFailure :: bool
  dhWriteCh :: "diskMessage list"
  dhFiles :: "(u64, bytes) gomap"
  dhIndexes :: "(u64, indexEntry list) gomap"
  dhSynced :: nat

definition IndexEntrySize :: nat where
  "IndexEntrySize = 16"

definition segmentFile :: "diskHandler \<Rightarrow> u64 \<Rightarrow> bytes" where
  "segmentFile d base = (case map_of (dhFiles d) base of None \<Rightarrow> [] | Some file \<Rightarrow> file)"

definition segmentIndex :: "diskHandler \<Rightarrow> u64 \<Rightarrow> indexEntry list" where
  "segmentIndex d base = (case map_of (dhIndexes d) base of None \<Rightarrow> [] | Some index \<Rightarrow> index)"

definition GetFirstOffset :: "diskHandler \<Rightarrow> u64" where
  "GetFirstOffset d = (case dhSegments d of [] \<Rightarrow> dhCurrentSegment d | base # _ \<Rightarrow> base)"

definition segmentAllowsOffsetGaps :: "diskHandler \<Rightarrow> u64 \<Rightarrow> nat \<Rightarrow> bool" where
  "segmentAllowsOffsetGaps d segment actualSize \<longleftrightarrow> map_of (dhCompacted d) segment = Some actualSize"

subsection \<open>Opening files and rolling segments\<close>

text \<open>The index writer continues after the entries that are still valid; the rest of the file is zeroed.\<close>

definition openIndexFiles :: "diskHandler \<Rightarrow> diskHandler" where
  "openIndexFiles d =
     (let valid = validIndexPrefix (dhCurrentOffset d)
                    (take (dhIndexSize d div IndexEntrySize) (segmentIndex d (dhCurrentSegment d)))
      in d\<lparr>dhIndexes := mput (dhCurrentSegment d) valid (dhIndexes d),
           dhIndexBytesWritten := IndexEntrySize * length valid,
           dhLastIndexPosition := (if valid = [] then 0 else iePosition (last valid))\<rparr>)"

definition openSegment :: "diskHandler \<Rightarrow> diskHandler" where
  "openSegment d = d\<lparr>dhFiles := mput (dhCurrentSegment d) (segmentFile d (dhCurrentSegment d)) (dhFiles d)\<rparr>"

definition rotateSegment :: "u64 \<Rightarrow> diskHandler \<Rightarrow> diskHandler" where
  "rotateSegment nextBaseOffset d =
     (if nextBaseOffset \<le> dhCurrentSegment d \<and> dhCurrentOffset d = 0 then d
      else openIndexFiles (openSegment
             (d\<lparr>dhCurrentSegment := nextBaseOffset, dhCurrentOffset := 0, dhLastIndexPosition := 0,
                dhIndexBytesWritten := 0, dhSegments := dhSegments d @ [nextBaseOffset], dhSynced := 0\<rparr>)))"

definition RollSegmentAt :: "u64 \<Rightarrow> diskHandler \<Rightarrow> disk_error + diskHandler" where
  "RollSegmentAt nextBaseOffset d =
     (if nextBaseOffset \<noteq> dhAbsoluteOffset d then Inl RollBoundary else Inr (rotateSegment nextBaseOffset d))"

text \<open>The tick of \<open>flushLoop\<close> that closes a segment by age.\<close>

definition rollByAge :: "diskHandler \<Rightarrow> diskHandler" where
  "rollByAge d = rotateSegment (dhAbsoluteOffset d) d"

subsection \<open>Appending\<close>

definition indexInterval :: "diskHandler \<Rightarrow> nat" where
  "indexInterval d = (if dhIndexInterval d = 0 then 4096 else dhIndexInterval d)"

fun serializeBatch :: "diskMessage list \<Rightarrow> disk_error + bytes list" where
  "serializeBatch [] = Inr []"
| "serializeBatch (m # ms) =
     (case SerializeDiskMessage m of
        Inl e \<Rightarrow> Inl e
      | Inr serialized \<Rightarrow>
          if \<not> validateSerializedDiskMessageSize serialized then Inl MessageTooLarge
          else case SafeIntToUint32 (length serialized) of
            None \<Rightarrow> Inl MessageTooLarge
          | Some sLen \<Rightarrow>
              (case serializeBatch ms of
                 Inl e \<Rightarrow> Inl e
               | Inr frames \<Rightarrow> Inr ((put_be 4 sLen @ serialized) # frames)))"

fun batchIndex :: "nat \<Rightarrow> nat \<Rightarrow> nat \<Rightarrow> (diskMessage \<times> bytes) list \<Rightarrow> indexEntry list" where
  "batchIndex interval position lastPosition [] = []"
| "batchIndex interval position lastPosition ((m, bs) # rest) =
     (if position - lastPosition \<ge> interval
      then \<lparr>ieOffset = dOffset m, iePosition = position\<rparr> # batchIndex interval (position + length bs) position rest
      else batchIndex interval (position + length bs) lastPosition rest)"

definition addIndexEntries :: "indexEntry list \<Rightarrow> diskHandler \<Rightarrow> diskHandler" where
  "addIndexEntries entries d =
     d\<lparr>dhIndexes := mput (dhCurrentSegment d) (segmentIndex d (dhCurrentSegment d) @ entries) (dhIndexes d),
       dhIndexBytesWritten := dhIndexBytesWritten d + IndexEntrySize * length entries,
       dhLastIndexPosition := (if entries = [] then dhLastIndexPosition d else iePosition (last entries))\<rparr>"

definition appendBytes :: "bytes \<Rightarrow> diskHandler \<Rightarrow> diskHandler" where
  "appendBytes bs d =
     d\<lparr>dhFiles := mput (dhCurrentSegment d) (segmentFile d (dhCurrentSegment d) @ bs) (dhFiles d)\<rparr>"

definition writeBatch ::
  "diskMessage list \<Rightarrow> bool \<Rightarrow> nat option \<Rightarrow> diskHandler \<Rightarrow> disk_error option \<times> diskHandler" where
  "writeBatch batch syncData fault d =
     (if batch = [] then (None, d)
      else if dhWriteFailure d then (Some WriteUnavailable, d)
      else case serializeBatch batch of
        Inl e \<Rightarrow> (Some e, d)
      | Inr frames \<Rightarrow>
          (let totalSize = length (concat frames);
               willExceedData = dhCurrentOffset d + totalSize > dhSegmentSize d;
               requiredIndexSpace = (totalSize div indexInterval d + 1) * IndexEntrySize;
               willExceedIndex = dhIndexBytesWritten d + requiredIndexSpace > dhIndexSize d;
               d = (if willExceedData \<or> willExceedIndex then rotateSegment (dOffset (hd batch)) d else d);
               d = addIndexEntries (batchIndex (indexInterval d) (dhCurrentOffset d) (dhLastIndexPosition d)
                      (zip batch frames)) d
           in case fault of
                Some k \<Rightarrow> (Some WriteFailed, (appendBytes (take k (concat frames)) d)\<lparr>dhWriteFailure := True\<rparr>)
              | None \<Rightarrow>
                  (let newAbsOffset = dOffset (last batch) + 1;
                       d = appendBytes (concat frames) d
                   in (None, d\<lparr>dhCurrentOffset := dhCurrentOffset d + totalSize,
                               dhAbsoluteOffset := (if newAbsOffset \<le> dhAbsoluteOffset d then dhAbsoluteOffset d
                                                    else newAbsOffset),
                               dhFlushedOffset := newAbsOffset,
                               dhSynced := (if syncData then dhCurrentOffset d + totalSize else dhSynced d)\<rparr>))))"

definition WriteBatch :: "diskMessage list \<Rightarrow> nat option \<Rightarrow> diskHandler \<Rightarrow> disk_error option \<times> diskHandler" where
  "WriteBatch batch = writeBatch batch False"

definition WriteBatchSync :: "diskMessage list \<Rightarrow> nat option \<Rightarrow> diskHandler \<Rightarrow> disk_error option \<times> diskHandler" where
  "WriteBatchSync batch = writeBatch batch True"

definition int32_partition :: "int \<Rightarrow> bool" where
  "int32_partition part \<longleftrightarrow> 0 \<le> part \<and> part \<le> 2147483647"

definition directExceeds :: "nat \<Rightarrow> diskHandler \<Rightarrow> bool" where
  "directExceeds totalLen d \<longleftrightarrow>
     (let willWriteIndex = dhCurrentOffset d - dhLastIndexPosition d \<ge> indexInterval d;
          willExceedData = dhCurrentOffset d + totalLen > dhSegmentSize d;
          willExceedIndex = willWriteIndex \<and> dhIndexBytesWritten d + IndexEntrySize > dhIndexSize d
      in willExceedData \<or> willExceedIndex)"

definition directWrite :: "u64 \<Rightarrow> bytes \<Rightarrow> diskHandler \<Rightarrow> diskHandler" where
  "directWrite offset bs d =
     (let msgPosition = dhCurrentOffset d;
          newAbsOffset = offset + 1;
          d = appendBytes bs d;
          d = d\<lparr>dhCurrentOffset := dhCurrentOffset d + length bs,
                dhAbsoluteOffset := (if offset \<ge> dhAbsoluteOffset d then newAbsOffset else dhAbsoluteOffset d),
                dhFlushedOffset := newAbsOffset,
                dhSynced := dhCurrentOffset d + length bs\<rparr>
      in if msgPosition - dhLastIndexPosition d \<ge> indexInterval d
         then addIndexEntries [\<lparr>ieOffset = offset, iePosition = msgPosition\<rparr>] d
         else d)"

definition WriteDirect ::
  "string \<Rightarrow> int \<Rightarrow> message \<Rightarrow> nat option \<Rightarrow> diskHandler \<Rightarrow> disk_error option \<times> diskHandler" where
  "WriteDirect topic part msg fault d =
     (if \<not> int32_partition part then (Some PartitionRange, d)
      else if dhWriteFailure d then (Some WriteUnavailable, d)
      else case serializeBatch [diskMessageFromMessage topic (word_of_int part) msg] of
        Inl e \<Rightarrow> (Some e, d)
      | Inr frames \<Rightarrow>
          (let d = (if directExceeds (length (concat frames)) d then rotateSegment (mOffset msg) d else d)
           in case fault of
                Some k \<Rightarrow> (Some WriteFailed, (appendBytes (take k (concat frames)) d)\<lparr>dhWriteFailure := True\<rparr>)
              | None \<Rightarrow> (None, directWrite (mOffset msg) (concat frames) d)))"

definition AppendMessageSync ::
  "string \<Rightarrow> int \<Rightarrow> message \<Rightarrow> nat option \<Rightarrow> diskHandler \<Rightarrow> (disk_error + u64) \<times> diskHandler" where
  "AppendMessageSync topic part msg fault d =
     (let offset = dhAbsoluteOffset d in
      case WriteDirect topic part (msg\<lparr>mOffset := offset\<rparr>) fault d of
        (Some e, d) \<Rightarrow> (Inl e, d)
      | (None, d) \<Rightarrow> (Inr offset, d\<lparr>dhAbsoluteOffset := offset + 1\<rparr>))"

definition AppendMessageWithOffset ::
  "string \<Rightarrow> int \<Rightarrow> message \<Rightarrow> nat option \<Rightarrow> diskHandler \<Rightarrow> disk_error option \<times> diskHandler" where
  "AppendMessageWithOffset topic part msg fault d =
     (case WriteDirect topic part msg fault d of
        (Some e, d) \<Rightarrow> (Some e, d)
      | (None, d) \<Rightarrow>
          (let newOffset = mOffset msg + 1
           in (None, if newOffset \<le> dhAbsoluteOffset d then d else d\<lparr>dhAbsoluteOffset := newOffset\<rparr>)))"

text \<open>\<open>accepted\<close> is False when the channel stays full until the timeout or the handler shuts down.\<close>

definition AppendMessage ::
  "string \<Rightarrow> int \<Rightarrow> message \<Rightarrow> bool \<Rightarrow> diskHandler \<Rightarrow> (disk_error + u64) \<times> diskHandler" where
  "AppendMessage topic part msg accepted d =
     (if \<not> int32_partition part then (Inl PartitionRange, d)
      else if dhWriteFailure d then (Inl WriteUnavailable, d)
      else let offset = dhAbsoluteOffset d;
               diskMsg = diskMessageFromMessage topic (word_of_int part) (msg\<lparr>mOffset := offset\<rparr>)
        in case validateDiskMessageSize diskMsg of
             Some e \<Rightarrow> (Inl e, d)
           | None \<Rightarrow>
               if \<not> accepted then (Inl EnqueueRejected, d)
               else (Inr offset, d\<lparr>dhWriteCh := dhWriteCh d @ [diskMsg], dhAbsoluteOffset := offset + 1\<rparr>))"

text \<open>\<open>flushLoop\<close> writes the first \<open>n\<close> queued messages as one batch, and forgets them even when that fails.\<close>

definition flushQueue :: "nat \<Rightarrow> nat option \<Rightarrow> diskHandler \<Rightarrow> diskHandler" where
  "flushQueue n fault d =
     (snd (WriteBatch (take n (dhWriteCh d)) fault d))\<lparr>dhWriteCh := drop n (dhWriteCh d)\<rparr>"

definition Flush :: "nat option \<Rightarrow> diskHandler \<Rightarrow> diskHandler" where
  "Flush fault d =
     (let d = flushQueue (length (dhWriteCh d)) fault d
      in if dhWriteFailure d then d else d\<lparr>dhSynced := dhCurrentOffset d\<rparr>)"

subsection \<open>Reading\<close>

text \<open>\<open>sort.Search\<close> for the first segment above \<open>offset\<close>; the segments are in ascending order.\<close>

definition findSegmentForOffset :: "u64 \<Rightarrow> diskHandler \<Rightarrow> disk_error + u64" where
  "findSegmentForOffset offset d =
     (let earliest = GetFirstOffset d in
      if offset < earliest then Inl (OffsetOutOfRange offset earliest (dhAbsoluteOffset d))
      else if offset > dhAbsoluteOffset d then Inl (OffsetOutOfRange offset earliest (dhAbsoluteOffset d))
      else if offset \<ge> dhCurrentSegment d then Inr (dhCurrentSegment d)
      else case dhSegments d of
        [] \<Rightarrow> Inl SegmentMissing
      | first # _ \<Rightarrow>
          (let below = takeWhile (\<lambda>base. \<not> base > offset) (dhSegments d)
           in Inr (if below = [] then first else last below)))"

definition findOffsetPosition :: "u64 \<Rightarrow> u64 \<Rightarrow> diskHandler \<Rightarrow> nat" where
  "findOffsetPosition offset base d =
     positionFromIndex (segmentFile d base)
       (if base \<noteq> dhCurrentSegment d then indexValidBytes (segmentIndex d base)
        else take (dhIndexBytesWritten d div IndexEntrySize) (segmentIndex d base)) offset"

fun readSegments :: "diskHandler \<Rightarrow> u64 \<Rightarrow> nat \<Rightarrow> u64 \<Rightarrow> nat \<Rightarrow> u64 list \<Rightarrow> disk_error + message list" where
  "readSegments d targetSeg position offset limit [] = Inr []"
| "readSegments d targetSeg position offset limit (segBase # rest) =
     (let file = segmentFile d segBase in
      if file = [] then readSegments d targetSeg position offset limit rest
      else let activeSegment = (segBase = dhCurrentSegment d);
               allowOffsetGaps = (\<not> activeSegment \<and> segmentAllowsOffsetGaps d segBase (length file));
               readPos = (if segBase = targetSeg then position else 0)
        in case readMessagesFromPosition file readPos limit offset segBase activeSegment allowOffsetGaps of
             Inl e \<Rightarrow> Inl e
           | Inr batch \<Rightarrow>
               if length batch \<ge> limit then Inr batch
               else case readSegments d targetSeg position
                           (if batch = [] then offset else mOffset (last batch) + 1) (limit - length batch) rest of
                      Inl e \<Rightarrow> Inl e
                    | Inr messages \<Rightarrow> Inr (batch @ messages))"

definition ReadMessages :: "u64 \<Rightarrow> int \<Rightarrow> diskHandler \<Rightarrow> disk_error + message list" where
  "ReadMessages offset limit d =
     (if limit \<le> 0 then Inr []
      else case findSegmentForOffset offset d of
        Inl e \<Rightarrow> Inl e
      | Inr targetSeg \<Rightarrow>
          (let position = findOffsetPosition offset targetSeg d;
               readable = (if dhSegments d = [] \<or> last (dhSegments d) \<noteq> dhCurrentSegment d
                           then dhSegments d @ [dhCurrentSegment d] else dhSegments d)
           in readSegments d targetSeg position offset (nat limit) (dropWhile (\<lambda>base. base \<noteq> targetSeg) readable)))"

end
