(* ===== verification/Disk_Log.thy ===== *)
theory Disk_Log
  imports Disk_Handler
begin

section \<open>The log a disk handler holds\<close>

text \<open>
  The contract of \<open>types.StorageHandler\<close> as the disk handler keeps it: its segment files together are one log of
  records, in offset order; appending adds to the end of it, and reading returns the records from an offset on.
  \<open>disk_rep d cs ms\<close> relates the files of \<open>d\<close> to the records of its closed segments \<open>cs\<close> and of its active
  segment \<open>ms\<close>; \<open>disk_log\<close> reads the same records off the files. The lemmas show that rolling a segment keeps
  the log, that the synchronous and the batched appends extend it, and that \<open>ReadMessages\<close> filters it, whatever
  the segments, the index entries and the gaps left by compaction.
\<close>

subsection \<open>Records of a file\<close>

function fileRecords :: "bytes \<Rightarrow> diskMessage list" where
  "fileRecords rest =
     (case nextFrame rest of
        Frame m len \<Rightarrow> m # fileRecords (drop (4 + len) rest)
      | _ \<Rightarrow> [])"
  by pat_completeness auto
termination
  by (relation "measure length") (auto dest: nextFrame_Frame_length)

declare fileRecords.simps [simp del]

definition disk_log :: "diskHandler \<Rightarrow> diskMessage list" where
  "disk_log d = concat (map (\<lambda>base. fileRecords (segmentFile d base)) (dhSegments d))"

lemma fileRecords_framed: "list_all writable ms \<Longrightarrow> fileRecords (framed ms) = ms"
proof (induction ms)
  case Nil
  then show ?case by (simp add: fileRecords.simps)
next
  case (Cons m ms)
  then show ?case using nextFrame_frame [of m "framed ms"] by (simp add: fileRecords.simps [of "frame m @ _"])
qed

subsection \<open>Representation of the log by segments\<close>

text \<open>What the handler accepts for writing, and how it comes back.\<close>

definition acceptable :: "diskMessage \<Rightarrow> bool" where
  "acceptable m \<longleftrightarrow> storable m \<and> length (diskLayout m) \<le> MaxMessageSize"

definition closed_segment :: "diskHandler \<Rightarrow> u64 \<Rightarrow> diskMessage list \<Rightarrow> bool" where
  "closed_segment d base ms \<longleftrightarrow>
     segmentFile d base = framed ms \<and> list_all writable ms \<and> list_all (genuine ms) (segmentIndex d base) \<and>
     follows (segmentAllowsOffsetGaps d base (length (framed ms))) None ms \<and>
     (\<not> segmentAllowsOffsetGaps d base (length (framed ms)) \<longrightarrow> ms \<noteq> [] \<longrightarrow> dOffset (hd ms) = base) \<and>
     list_all (\<lambda>m. base \<le> dOffset m) ms"

definition active_segment :: "diskHandler \<Rightarrow> diskMessage list \<Rightarrow> bool" where
  "active_segment d ms \<longleftrightarrow>
     segmentFile d (dhCurrentSegment d) = framed ms \<and> list_all writable ms \<and>
     list_all (genuine ms) (segmentIndex d (dhCurrentSegment d)) \<and>
     run ms (unat (dhCurrentSegment d)) (unat (dhFlushedOffset d)) \<and> dhCurrentSegment d \<le> dhFlushedOffset d \<and>
     dhCurrentOffset d = length (framed ms) \<and>
     dhIndexBytesWritten d = IndexEntrySize * length (segmentIndex d (dhCurrentSegment d)) \<and>
     dhLastIndexPosition d \<le> dhCurrentOffset d"

definition disk_rep :: "diskHandler \<Rightarrow> (u64 \<times> diskMessage list) list \<Rightarrow> diskMessage list \<Rightarrow> bool" where
  "disk_rep d cs ms \<longleftrightarrow>
     dhSegments d = map fst cs @ [dhCurrentSegment d] \<and>
     sorted_wrt (\<lambda>s s'. fst s < fst s' \<and> list_all (\<lambda>m. dOffset m < fst s') (snd s)) cs \<and>
     list_all (\<lambda>s. fst s < dhCurrentSegment d \<and> closed_segment d (fst s) (snd s) \<and>
                   list_all (\<lambda>m. dOffset m < dhCurrentSegment d) (snd s)) cs \<and>
     active_segment d ms \<and>
     set (mkeys (dhFiles d)) = set (dhSegments d) \<and> mwf (dhFiles d) \<and> mwf (dhCompacted d) \<and>
     list_all acceptable (dhWriteCh d) \<and>
     run (dhWriteCh d) (unat (dhFlushedOffset d)) (unat (dhAbsoluteOffset d)) \<and>
     dhFlushedOffset d \<le> dhAbsoluteOffset d \<and>
     \<not> dhWriteFailure d"

definition disk_wf :: "diskHandler \<Rightarrow> bool" where
  "disk_wf d \<longleftrightarrow> (\<exists>cs ms. disk_rep d cs ms)"

lemma disk_log_rep:
  assumes "disk_rep d cs ms"
  shows "disk_log d = concat (map snd cs) @ ms"
proof -
  have "fileRecords (segmentFile d (fst s)) = snd s" if "s \<in> set cs" for s
    using assms that fileRecords_framed [of "snd s"]
    by (auto simp: disk_rep_def closed_segment_def list_all_iff)
  then have "concat (map (\<lambda>s. fileRecords (segmentFile d (fst s))) cs) = concat (map snd cs)"
    by (intro arg_cong [of _ _ concat]) simp
  moreover have "fileRecords (segmentFile d (dhCurrentSegment d)) = ms"
    using assms by (simp add: disk_rep_def active_segment_def fileRecords_framed)
  ultimately show ?thesis using assms by (simp add: disk_log_def disk_rep_def comp_def)
qed

subsection \<open>Serialized batches\<close>

lemma slice_bytes_stored [simp]:
  "slice_bytes (dControlBatchKey (stored m)) = slice_bytes (dControlBatchKey m)"
  "slice_bytes (dControlBatchValue (stored m)) = slice_bytes (dControlBatchValue m)"
  by (simp_all add: stored_def slice_bytes_def)

lemma diskLengthsFit_stored [simp]: "diskLengthsFit (stored m) = diskLengthsFit m"
  by (simp add: diskLengthsFit_def) (simp add: stored_def)

lemma acceptable_stored: "acceptable m \<Longrightarrow> writable (stored m)"
  by (simp add: acceptable_def writable_def storable_def) (simp add: stored_def)

lemma frame_stored [simp]: "frame (stored m) = frame m"
  by (simp add: frame_def)

lemma framed_stored [simp]: "framed (map stored ms) = framed ms"
  by (induction ms) simp_all

lemma MaxMessageSize_u32: "n \<le> MaxMessageSize \<Longrightarrow> SafeIntToUint32 n = Some (word_of_nat n)"
  by (simp add: SafeIntToUint32_def MaxMessageSize_def MaxFramePayload_def)

lemma serializeBatch_acceptable: "list_all acceptable ms \<Longrightarrow> serializeBatch ms = Inr (map frame ms)"
  by (induction ms)
     (simp_all add: acceptable_def SerializeDiskMessage_eq validateSerializedDiskMessageSize_def MaxMessageSize_u32
       frame_def)

lemma serializeBatch_Inr: "serializeBatch ms = Inr frames \<Longrightarrow> list_all acceptable ms \<and> frames = map frame ms"
  by (induction ms arbitrary: frames)
     (auto simp: acceptable_def SerializeDiskMessage_eq validateSerializedDiskMessageSize_def MaxMessageSize_u32
       frame_def split: sum.splits if_splits option.splits)

lemma validateDiskMessageSize_None: "validateDiskMessageSize m = None \<longleftrightarrow> acceptable m"
  by (simp add: validateDiskMessageSize_def acceptable_def SerializeDiskMessage_eq
      validateSerializedDiskMessageSize_def split: sum.splits)

lemma concat_map_frame: "concat (map frame ms) = framed ms"
  by (simp add: framed_def)

subsection \<open>Index entries of a batch\<close>

lemma genuine_append: "genuine ms e \<Longrightarrow> genuine (ms @ ns) e"
  unfolding genuine_def by fastforce

lemma batchIndex_genuine:
  assumes "e \<in> set (batchIndex interval (length (framed ms)) l (zip ns (map frame ns)))"
  shows "genuine (ms @ map stored ns) e"
  using assms
proof (induction ns arbitrary: ms l)
  case (Cons n ns)
  have "genuine (ms @ map stored (n # ns)) \<lparr>ieOffset = dOffset n, iePosition = length (framed ms)\<rparr>"
    unfolding genuine_def by (rule exI [of _ ms]) simp
  moreover have "genuine (ms @ map stored (n # ns)) e"
    if "e \<in> set (batchIndex interval (length (framed ms) + length (frame n)) l' (zip ns (map frame ns)))" for l'
    using Cons.IH [of "ms @ [stored n]" l'] that by simp
  ultimately show ?case using Cons.prems by (auto split: if_splits)
qed simp

lemma batchIndex_last:
  assumes "batchIndex interval p l (zip ns (map frame ns)) \<noteq> []"
  shows "iePosition (last (batchIndex interval p l (zip ns (map frame ns)))) \<le> p + length (framed ns)"
  using assms
proof (induction ns arbitrary: p l)
  case (Cons n ns)
  then show ?case
    using Cons.IH [of "p + length (frame n)" p] Cons.IH [of "p + length (frame n)" l] by (auto simp: add.assoc)
qed simp

subsection \<open>Rolling a segment keeps the log\<close>

lemma run_follows:
  assumes "run ms a b" and "b < 2 ^ 64" and "\<And>p. prev = Some p \<Longrightarrow> Suc (unat p) = a"
  shows "follows gaps prev ms"
  using assms(1,3)
proof (induction ms arbitrary: a prev)
  case (Cons m ms)
  from Cons.prems(1) have r: "off m = a" "a < b" "run ms (Suc a) b" unfolding run_Cons by blast+
  have "p < dOffset m \<and> dOffset m = p + 1" if "prev = Some p" for p
  proof -
    have p: "Suc (unat p) = a" using that by (rule Cons.prems(2))
    then have "unat (p + 1) = Suc (unat p)" using r(2) assms(2) by (simp add: unat_word_ariths)
    then have "off m = unat (p + 1)" using r(1) p by simp
    then have "dOffset m = p + 1" by (rule unsigned_word_eqI)
    moreover have "p < dOffset m" using p r(1) by (simp add: word_less_nat_alt)
    ultimately show ?thesis by simp
  qed
  moreover have "follows gaps (Some (dOffset m)) ms"
    using Cons.IH [OF r(3), of "Some (dOffset m)"] r(1) by simp
  ultimately show ?case by (auto split: option.splits)
qed simp

lemma run_bounds: "run ms a b \<Longrightarrow> m \<in> set ms \<Longrightarrow> a \<le> off m \<and> off m < b"
  by (metis atLeastLessThan_iff image_eqI set_map set_upt)

lemma run_hd: "run ms (unat base) b \<Longrightarrow> ms \<noteq> [] \<Longrightarrow> dOffset (hd ms) = base"
  by (cases ms) (auto simp only: run_Cons list.sel intro: unsigned_word_eqI)

lemma unat_u64_bound: "unat (x :: u64) < 2 ^ 64"
  using unsigned_less [of x, where 'a = nat] by simp

lemma active_becomes_closed:
  assumes "active_segment d ms" and "segmentFile d' (dhCurrentSegment d) = segmentFile d (dhCurrentSegment d)"
    and "segmentIndex d' (dhCurrentSegment d) = segmentIndex d (dhCurrentSegment d)"
  shows "closed_segment d' (dhCurrentSegment d) ms" and "list_all (\<lambda>m. dOffset m < dhFlushedOffset d) ms"
proof -
  have r: "run ms (unat (dhCurrentSegment d)) (unat (dhFlushedOffset d))" using assms(1) by (simp add: active_segment_def)
  have b: "\<And>m. m \<in> set ms \<Longrightarrow> dhCurrentSegment d \<le> dOffset m \<and> dOffset m < dhFlushedOffset d"
    using run_bounds [OF r] by (simp add: word_le_nat_alt word_less_nat_alt)
  then show "list_all (\<lambda>m. dOffset m < dhFlushedOffset d) ms" by (simp add: list_all_iff)
  have "follows gaps None ms" for gaps using run_follows [OF r unat_u64_bound, of None gaps] by simp
  with b run_hd [OF r] assms show "closed_segment d' (dhCurrentSegment d) ms"
    by (simp add: closed_segment_def active_segment_def list_all_iff)
qed

lemma closed_segment_cong:
  assumes "closed_segment d base ms" and "segmentFile d' base = segmentFile d base"
    and "segmentIndex d' base = segmentIndex d base" and "dhCompacted d' = dhCompacted d"
  shows "closed_segment d' base ms"
  using assms by (simp add: closed_segment_def segmentAllowsOffsetGaps_def)

lemma validIndexPrefix_0 [simp]: "validIndexPrefix 0 index = []"
  by (cases index) (simp_all add: validIndexPrefix_def)

lemma segmentFile_openIndexFiles [simp]: "segmentFile (openIndexFiles d) = segmentFile d"
  by (simp add: fun_eq_iff openIndexFiles_def Let_def segmentFile_def)

lemma segmentFile_openSegment [simp]: "segmentFile (openSegment d) = segmentFile d"
  by (simp add: fun_eq_iff openSegment_def segmentFile_def)

lemma segmentFile_update [simp]:
  "segmentFile (d\<lparr>dhCurrentSegment := a\<rparr>) = segmentFile d" "segmentFile (d\<lparr>dhCurrentOffset := b\<rparr>) = segmentFile d"
  "segmentFile (d\<lparr>dhLastIndexPosition := c\<rparr>) = segmentFile d" "segmentFile (d\<lparr>dhIndexBytesWritten := e\<rparr>) = segmentFile d"
  "segmentFile (d\<lparr>dhSegments := f\<rparr>) = segmentFile d" "segmentFile (d\<lparr>dhSynced := g\<rparr>) = segmentFile d"
  "segmentFile (d\<lparr>dhAbsoluteOffset := h\<rparr>) = segmentFile d" "segmentFile (d\<lparr>dhFlushedOffset := i\<rparr>) = segmentFile d"
  "segmentFile (d\<lparr>dhWriteCh := j\<rparr>) = segmentFile d" "segmentFile (d\<lparr>dhCompacted := k\<rparr>) = segmentFile d"
  "segmentFile (d\<lparr>dhIndexes := l\<rparr>) = segmentFile d" "segmentFile (d\<lparr>dhWriteFailure := m\<rparr>) = segmentFile d"
  by (simp_all add: fun_eq_iff segmentFile_def)

lemma segmentIndex_update [simp]:
  "segmentIndex (d\<lparr>dhCurrentSegment := a\<rparr>) = segmentIndex d" "segmentIndex (d\<lparr>dhCurrentOffset := b\<rparr>) = segmentIndex d"
  "segmentIndex (d\<lparr>dhLastIndexPosition := c\<rparr>) = segmentIndex d" "segmentIndex (d\<lparr>dhIndexBytesWritten := e\<rparr>) = segmentIndex d"
  "segmentIndex (d\<lparr>dhSegments := f\<rparr>) = segmentIndex d" "segmentIndex (d\<lparr>dhSynced := g\<rparr>) = segmentIndex d"
  "segmentIndex (d\<lparr>dhAbsoluteOffset := h\<rparr>) = segmentIndex d" "segmentIndex (d\<lparr>dhFlushedOffset := i\<rparr>) = segmentIndex d"
  "segmentIndex (d\<lparr>dhWriteCh := j\<rparr>) = segmentIndex d" "segmentIndex (d\<lparr>dhCompacted := k\<rparr>) = segmentIndex d"
  "segmentIndex (d\<lparr>dhFiles := l\<rparr>) = segmentIndex d" "segmentIndex (d\<lparr>dhWriteFailure := m\<rparr>) = segmentIndex d"
  by (simp_all add: fun_eq_iff segmentIndex_def)

lemma segmentFile_put [simp]:
  "segmentFile (d\<lparr>dhFiles := mput b f (dhFiles d0)\<rparr>) = (segmentFile d0)(b := f)"
  by (simp add: fun_eq_iff segmentFile_def)

lemma segmentIndex_put [simp]:
  "segmentIndex (d\<lparr>dhIndexes := mput b f (dhIndexes d0)\<rparr>) = (segmentIndex d0)(b := f)"
  by (simp add: fun_eq_iff segmentIndex_def)

lemma mkeys_mput [simp]: "set (mkeys (mput k v m)) = insert k (set (mkeys m))"
  by (simp add: set_mkeys)

lemma segmentFile_missing: "base \<notin> set (mkeys (dhFiles d)) \<Longrightarrow> segmentFile d base = []"
  by (simp add: segmentFile_def set_mkeys domIff)

text \<open>The settings, queue and offsets that rolling a segment does not touch.\<close>

definition same_bounds :: "diskHandler \<Rightarrow> diskHandler \<Rightarrow> bool" where
  "same_bounds d d' \<longleftrightarrow>
     dhAbsoluteOffset d' = dhAbsoluteOffset d \<and> dhFlushedOffset d' = dhFlushedOffset d \<and>
     dhWriteCh d' = dhWriteCh d \<and> GetFirstOffset d' = GetFirstOffset d \<and> dhWriteFailure d' = dhWriteFailure d \<and>
     dhIndexInterval d' = dhIndexInterval d"

lemma rotate_rep:
  assumes rep: "disk_rep d cs ms"
  shows "\<exists>cs' ms'. disk_rep (rotateSegment (dhFlushedOffset d) d) cs' ms' \<and>
           concat (map snd cs') @ ms' = concat (map snd cs) @ ms \<and> same_bounds d (rotateSegment (dhFlushedOffset d) d)"
proof (cases "dhFlushedOffset d \<le> dhCurrentSegment d \<and> dhCurrentOffset d = 0")
  case True
  with rep show ?thesis by (auto simp: rotateSegment_def same_bounds_def)
next
  case False
  let ?d = "rotateSegment (dhFlushedOffset d) d" and ?cur = "dhCurrentSegment d" and ?fl = "dhFlushedOffset d"
  have act: "active_segment d ms" using rep by (simp add: disk_rep_def)
  have lt: "?cur < ?fl"
  proof (rule ccontr)
    assume "\<not> ?cur < ?fl"
    with act have "run ms (unat ?cur) (unat ?cur)" by (auto simp: active_segment_def)
    then have "dhCurrentOffset d = 0" using act by (simp add: active_segment_def)
    with False act \<open>\<not> ?cur < ?fl\<close> show False by (simp add: active_segment_def not_less)
  qed
  have above: "b \<le> ?cur" if "b \<in> set (dhSegments d)" for b
    using rep that by (auto simp: disk_rep_def list_all_iff)
  with rep lt have fresh: "?fl \<notin> set (dhSegments d)" by fastforce
  with rep have "?fl \<notin> set (mkeys (dhFiles d))" by (auto simp: disk_rep_def)
  then have new: "segmentFile d ?fl = []" by (rule segmentFile_missing)
  have d: "?d = openIndexFiles (openSegment (d\<lparr>dhCurrentSegment := ?fl, dhCurrentOffset := 0, dhLastIndexPosition := 0,
      dhIndexBytesWritten := 0, dhSegments := dhSegments d @ [?fl], dhSynced := 0\<rparr>))"
    using False by (auto simp: rotateSegment_def)
  have filesame: "segmentFile ?d = segmentFile d" unfolding d by simp
  have index: "segmentIndex ?d = (segmentIndex d)(?fl := [])"
    unfolding d by (simp add: openIndexFiles_def openSegment_def Let_def)
  have fields: "dhSegments ?d = dhSegments d @ [?fl]" "dhCurrentSegment ?d = ?fl" "dhCurrentOffset ?d = 0"
    "dhIndexBytesWritten ?d = 0" "dhLastIndexPosition ?d = 0" "dhFlushedOffset ?d = ?fl"
    "dhAbsoluteOffset ?d = dhAbsoluteOffset d" "dhWriteCh ?d = dhWriteCh d" "dhWriteFailure ?d = dhWriteFailure d"
    "dhCompacted ?d = dhCompacted d" "set (mkeys (dhFiles ?d)) = insert ?fl (set (mkeys (dhFiles d)))"
    "dhIndexInterval ?d = dhIndexInterval d" "mwf (dhFiles d) \<Longrightarrow> mwf (dhFiles ?d)"
    unfolding d by (simp_all add: openIndexFiles_def openSegment_def Let_def)
  have closed: "closed_segment ?d (fst s) (snd s)" if "s \<in> set (cs @ [(?cur, ms)])" for s
  proof (cases "s = (?cur, ms)")
    case True
    with active_becomes_closed(1) [OF act, of ?d] lt [THEN less_imp_neq] show ?thesis by (simp add: filesame index)
  next
    case False
    with that rep lt have c: "closed_segment d (fst s) (snd s)" and ne: "fst s < ?fl"
      by (auto simp: disk_rep_def list_all_iff dest: order.strict_trans)
    from c show ?thesis by (rule closed_segment_cong) (use ne in \<open>auto simp: filesame index fields\<close>)
  qed
  have old: "fst s < ?cur \<and> list_all (\<lambda>m. dOffset m < ?cur) (snd s)" if "s \<in> set cs" for s
    using rep that by (auto simp: disk_rep_def list_all_iff)
  have below: "fst s < ?fl \<and> list_all (\<lambda>m. dOffset m < ?fl) (snd s)" if "s \<in> set (cs @ [(?cur, ms)])" for s
    using that old active_becomes_closed(2) [OF act, of d] lt by (fastforce simp: list_all_iff)
  have "disk_rep ?d (cs @ [(?cur, ms)]) []"
    using rep closed below old
    by (auto simp: disk_rep_def active_segment_def fields filesame index new sorted_wrt_append list_all_iff IndexEntrySize_def)
  moreover have "same_bounds d ?d"
    using rep by (cases cs) (simp_all add: same_bounds_def fields GetFirstOffset_def disk_rep_def)
  ultimately show ?thesis by (intro exI [of _ "cs @ [(?cur, ms)]"] exI [of _ "[]"]) simp
qed

subsection \<open>Appending extends the log\<close>

lemma run_appendI: "run ms a b \<Longrightarrow> run ns b c \<Longrightarrow> a \<le> b \<Longrightarrow> b \<le> c \<Longrightarrow> run (ms @ ns) a c"
  using upt_add_eq_append [of a b "c - b"] by simp

lemma run_stored: "run (map stored ns) a b \<longleftrightarrow> run ns a b"
  by (simp add: comp_def)

lemma append_rep:
  assumes rep: "disk_rep d cs ms" and acc: "list_all acceptable ns"
    and ns: "run ns (unat (dhFlushedOffset d)) (unat (dhFlushedOffset d'))" "dhFlushedOffset d \<le> dhFlushedOffset d'"
    and files: "segmentFile d' = (segmentFile d)(dhCurrentSegment d := framed ms @ framed ns)"
    and index: "segmentIndex d' = (segmentIndex d)(dhCurrentSegment d := segmentIndex d (dhCurrentSegment d) @ es)"
    and es: "\<And>e. e \<in> set es \<Longrightarrow> genuine (ms @ map stored ns) e"
    and fields: "dhSegments d' = dhSegments d" "dhCurrentSegment d' = dhCurrentSegment d"
      "dhCompacted d' = dhCompacted d" "dhWriteFailure d' = dhWriteFailure d"
      "dhCurrentOffset d' = dhCurrentOffset d + length (framed ns)"
      "dhIndexBytesWritten d' = dhIndexBytesWritten d + IndexEntrySize * length es"
      "dhLastIndexPosition d' \<le> dhCurrentOffset d + length (framed ns)"
      "set (mkeys (dhFiles d')) = insert (dhCurrentSegment d) (set (mkeys (dhFiles d)))"
      "mwf (dhFiles d) \<Longrightarrow> mwf (dhFiles d')"
    and queue: "list_all acceptable (dhWriteCh d')"
      "run (dhWriteCh d') (unat (dhFlushedOffset d')) (unat (dhAbsoluteOffset d'))"
      "dhFlushedOffset d' \<le> dhAbsoluteOffset d'"
  shows "disk_rep d' cs (ms @ map stored ns)"
proof -
  have closed: "closed_segment d' (fst s) (snd s)" if "s \<in> set cs" for s
  proof -
    from rep that have c: "closed_segment d (fst s) (snd s)" and ne: "fst s < dhCurrentSegment d"
      by (auto simp: disk_rep_def list_all_iff)
    from c show ?thesis by (rule closed_segment_cong) (use ne in \<open>auto simp: files index fields\<close>)
  qed
  have act: "active_segment d ms" using rep by (simp add: disk_rep_def)
  have "run (ms @ map stored ns) (unat (dhCurrentSegment d)) (unat (dhFlushedOffset d'))"
    using act ns by (intro run_appendI) (auto simp: active_segment_def comp_def word_le_nat_alt)
  moreover have "list_all writable (map stored ns)" using acc by (auto simp: list_all_iff acceptable_stored)
  ultimately have "active_segment d' (ms @ map stored ns)"
    using act ns(2) es fields(7)
    by (auto simp: active_segment_def fields(1-6,8,9) files index list_all_iff genuine_append algebra_simps)
  with rep closed queue show ?thesis
    by (auto simp: disk_rep_def fields list_all_iff)
qed

lemma word_succ_le: "(x :: u64) + 1 \<noteq> 0 \<Longrightarrow> x < x + 1 \<and> unat (x + 1) = Suc (unat x)"
  by (simp add: word_less_nat_alt unatSuc add.commute)

lemma run_last: "run ns a b \<Longrightarrow> ns \<noteq> [] \<Longrightarrow> a < b \<and> Suc (off (last ns)) = b"
  by (cases ns rule: rev_cases; cases b) (auto split: if_splits)

lemma run_last_word:
  assumes "run ns (unat a) b" and "ns \<noteq> []" and "dOffset (last ns) + 1 \<noteq> 0"
  shows "unat (dOffset (last ns) + 1) = b" and "a < dOffset (last ns) + 1"
proof -
  show "unat (dOffset (last ns) + 1) = b"
    using run_last [OF assms(1,2)] word_succ_le [OF assms(3)] by simp
  with run_last [OF assms(1,2)] show "a < dOffset (last ns) + 1" by (simp add: word_less_nat_alt)
qed

lemma rotate_if_rep:
  assumes "disk_rep d cs ms" and "base = dhFlushedOffset d"
  obtains cs' ms' where "disk_rep (if c then rotateSegment base d else d) cs' ms'"
    "concat (map snd cs') @ ms' = concat (map snd cs) @ ms" "same_bounds d (if c then rotateSegment base d else d)"
proof (cases c)
  case True
  with rotate_rep [OF assms(1)] assms(2) that show ?thesis by auto
next
  case False
  with assms(1) that [of cs ms] show ?thesis by (simp add: same_bounds_def)
qed

lemma GetFirstOffset_cong:
  "dhSegments d' = dhSegments d \<Longrightarrow> dhCurrentSegment d' = dhCurrentSegment d \<Longrightarrow> GetFirstOffset d' = GetFirstOffset d"
  by (cases "dhSegments d") (simp_all add: GetFirstOffset_def)

lemma writeBatch_parts:
  assumes rep: "disk_rep d cs ms" and batch: "batch \<noteq> []" "run batch (unat (dhFlushedOffset d)) b"
      "dOffset (last batch) + 1 \<noteq> 0"
    and wr: "writeBatch batch syncData None d = (None, d1)"
    and queue: "list_all acceptable q" "run q b (unat (dhAbsoluteOffset d1))" "b \<le> unat (dhAbsoluteOffset d1)"
  shows "\<exists>cs' ms'. disk_rep (d1\<lparr>dhWriteCh := q\<rparr>) cs' (ms' @ map stored batch) \<and>
      concat (map snd cs') @ ms' = concat (map snd cs) @ ms \<and>
      dhFlushedOffset d1 = dOffset (last batch) + 1 \<and> GetFirstOffset d1 = GetFirstOffset d"
proof -
  let ?nf = "dOffset (last batch) + 1"
  note nf = run_last_word [OF batch(2,1,3)]
  from wr rep batch(1) obtain frames where fr: "serializeBatch batch = Inr frames"
    by (auto simp: writeBatch_def disk_rep_def split: sum.splits)
  with serializeBatch_Inr have acc: "list_all acceptable batch" and frames: "frames = map frame batch" by blast+
  have base: "dOffset (hd batch) = dhFlushedOffset d" by (rule run_hd [OF batch(2,1)])
  obtain c where c: "c \<longleftrightarrow> (dhCurrentOffset d + length (framed batch) > dhSegmentSize d \<or>
      dhIndexBytesWritten d + (length (framed batch) div indexInterval d + 1) * IndexEntrySize > dhIndexSize d)"
    by blast
  define dr where "dr = (if c then rotateSegment (dOffset (hd batch)) d else d)"
  obtain cs' ms' where rep': "disk_rep dr cs' ms'" and log: "concat (map snd cs') @ ms' = concat (map snd cs) @ ms"
    and same: "same_bounds d dr"
    unfolding dr_def by (rule rotate_if_rep [OF rep base])
  define es where "es = batchIndex (indexInterval dr) (dhCurrentOffset dr) (dhLastIndexPosition dr) (zip batch (map frame batch))"
  have d1: "d1 = (let d = appendBytes (framed batch) (addIndexEntries es dr)
      in d\<lparr>dhCurrentOffset := dhCurrentOffset d + length (framed batch),
           dhAbsoluteOffset := (if ?nf \<le> dhAbsoluteOffset d then dhAbsoluteOffset d else ?nf),
           dhFlushedOffset := ?nf,
           dhSynced := (if syncData then dhCurrentOffset d + length (framed batch) else dhSynced d)\<rparr>)"
    using wr rep batch(1) fr c
    by (auto simp: writeBatch_def disk_rep_def frames concat_map_frame dr_def es_def Let_def)
  have act: "active_segment dr ms'" using rep' by (simp add: disk_rep_def)
  have es: "genuine (ms' @ map stored batch) e" if "e \<in> set es" for e
    using that act batchIndex_genuine [of e "indexInterval dr" ms'] by (simp add: es_def active_segment_def)
  have fl: "dhFlushedOffset dr = dhFlushedOffset d" using same by (simp add: same_bounds_def)
  have lastpos: "dhLastIndexPosition d1 \<le> dhCurrentOffset dr + length (framed batch)"
    using act batchIndex_last [of "indexInterval dr" "dhCurrentOffset dr" "dhLastIndexPosition dr" batch]
    by (auto simp: d1 Let_def appendBytes_def addIndexEntries_def es_def active_segment_def)
  have "disk_rep (d1\<lparr>dhWriteCh := q\<rparr>) cs' (ms' @ map stored batch)"
  proof (rule append_rep [OF rep' acc, of "d1\<lparr>dhWriteCh := q\<rparr>" es])
    show "segmentFile (d1\<lparr>dhWriteCh := q\<rparr>) = (segmentFile dr)(dhCurrentSegment dr := framed ms' @ framed batch)"
      using act by (simp add: d1 Let_def appendBytes_def addIndexEntries_def active_segment_def)
    show "dhLastIndexPosition (d1\<lparr>dhWriteCh := q\<rparr>) \<le> dhCurrentOffset dr + length (framed batch)"
      using lastpos by simp
    show "run (dhWriteCh (d1\<lparr>dhWriteCh := q\<rparr>)) (unat (dhFlushedOffset (d1\<lparr>dhWriteCh := q\<rparr>)))
        (unat (dhAbsoluteOffset (d1\<lparr>dhWriteCh := q\<rparr>)))"
      using queue(2) nf(1) by (simp add: d1 Let_def)
    show "dhFlushedOffset (d1\<lparr>dhWriteCh := q\<rparr>) \<le> dhAbsoluteOffset (d1\<lparr>dhWriteCh := q\<rparr>)"
      using queue(3) nf(1) by (simp add: d1 Let_def word_le_nat_alt)
  qed (use es queue batch nf fl in \<open>simp_all add: d1 Let_def appendBytes_def addIndexEntries_def\<close>)
  moreover have "GetFirstOffset d1 = GetFirstOffset dr"
    by (rule GetFirstOffset_cong) (simp_all add: d1 Let_def appendBytes_def addIndexEntries_def)
  ultimately show ?thesis
    using log same
    by (intro exI [of _ cs'] exI [of _ ms']) (simp add: d1 Let_def same_bounds_def)
qed

lemma writeBatch_rep:
  assumes "disk_rep d cs ms" and "batch \<noteq> []" and "run batch (unat (dhFlushedOffset d)) b"
    and "dOffset (last batch) + 1 \<noteq> 0" and "writeBatch batch syncData None d = (None, d1)"
    and "list_all acceptable q" and "run q b (unat (dhAbsoluteOffset d1))" and "b \<le> unat (dhAbsoluteOffset d1)"
  shows "\<exists>cs' ms'. disk_rep (d1\<lparr>dhWriteCh := q\<rparr>) cs' ms' \<and>
      concat (map snd cs') @ ms' = concat (map snd cs) @ ms @ map stored batch \<and>
      dhFlushedOffset d1 = dOffset (last batch) + 1 \<and> GetFirstOffset d1 = GetFirstOffset d"
  using writeBatch_parts [OF assms] by (metis append_assoc)

lemma genuine_last: "genuine (ms @ [m]) \<lparr>ieOffset = dOffset m, iePosition = length (framed ms)\<rparr>"
  unfolding genuine_def by (rule exI [of _ ms]) simp

lemma dOffset_diskMessageFromMessage [simp]: "dOffset (diskMessageFromMessage topic part msg) = mOffset msg"
  by (simp add: diskMessageFromMessage_def)

lemma run_Nil_word:
  assumes "run [] (unat a) (unat b)" and "a \<le> b"
  shows "a = (b :: u64)"
  using run_length [OF assms(1)] assms(2) by (auto simp: word_le_nat_alt intro: unsigned_word_eqI)

lemma empty_queue_flushed: "disk_rep d cs ms \<Longrightarrow> dhWriteCh d = [] \<Longrightarrow> dhFlushedOffset d = dhAbsoluteOffset d"
  by (rule run_Nil_word) (simp_all add: disk_rep_def)

lemma WriteDirect_rep:
  assumes rep: "disk_rep d cs ms" and queue: "dhWriteCh d = []"
    and msg: "mOffset msg = dhAbsoluteOffset d" "dhAbsoluteOffset d + 1 \<noteq> 0"
    and wr: "WriteDirect topic part msg None d = (None, d1)"
  shows "\<exists>cs' ms'. disk_rep d1 cs' ms' \<and>
      concat (map snd cs') @ ms' =
        concat (map snd cs) @ ms @ [stored (diskMessageFromMessage topic (word_of_int part) msg)] \<and>
      dhFlushedOffset d1 = mOffset msg + 1 \<and> dhAbsoluteOffset d1 = mOffset msg + 1 \<and>
      dhWriteCh d1 = [] \<and> GetFirstOffset d1 = GetFirstOffset d"
proof -
  let ?m = "diskMessageFromMessage topic (word_of_int part) msg" and ?nf = "mOffset msg + 1"
  from wr rep obtain frames where fr: "serializeBatch [?m] = Inr frames"
    by (auto simp: WriteDirect_def disk_rep_def split: sum.splits if_splits)
  with serializeBatch_Inr [of "[?m]"] have acc: "list_all acceptable [?m]" and frames: "frames = map frame [?m]" by blast+
  have fl: "dhFlushedOffset d = dhAbsoluteOffset d"
    using rep by (rule empty_queue_flushed) (rule queue)
  define dr where "dr = (if directExceeds (length (concat frames)) d then rotateSegment (mOffset msg) d else d)"
  obtain cs' ms' where rep': "disk_rep dr cs' ms'" and log: "concat (map snd cs') @ ms' = concat (map snd cs) @ ms"
    and same: "same_bounds d dr"
    unfolding dr_def by (rule rotate_if_rep [OF rep, of "mOffset msg"]) (simp add: fl msg)
  define es where "es = (if dhCurrentOffset dr - dhLastIndexPosition dr \<ge> indexInterval dr
      then [\<lparr>ieOffset = mOffset msg, iePosition = dhCurrentOffset dr\<rparr>] else [])"
  define dn where "dn = (appendBytes (frame ?m) dr)\<lparr>dhCurrentOffset := dhCurrentOffset dr + length (frame ?m),
      dhAbsoluteOffset := ?nf, dhFlushedOffset := ?nf, dhSynced := dhCurrentOffset dr + length (frame ?m)\<rparr>"
  have abs: "dhAbsoluteOffset dr = mOffset msg" using same msg by (simp add: same_bounds_def)
  have "d1 = directWrite (mOffset msg) (concat frames) dr"
    using wr rep by (simp add: WriteDirect_def fr dr_def Let_def disk_rep_def del: serializeBatch.simps split: if_splits)
  then have d1: "d1 = addIndexEntries es dn \<or> es = [] \<and> d1 = dn"
    by (simp add: directWrite_def Let_def frames es_def dn_def appendBytes_def abs indexInterval_def)
  note d1 = d1 [unfolded dn_def]
  have act: "active_segment dr ms'" using rep' by (simp add: disk_rep_def)
  have run: "run [?m] (unat (dhFlushedOffset dr)) (unat ?nf)"
    using same fl msg word_succ_le [of "mOffset msg"] by (simp add: same_bounds_def)
  have es: "genuine (ms' @ map stored [?m]) e" if "e \<in> set es" for e
    using that act genuine_last [of ms' "stored ?m"] by (simp add: es_def active_segment_def split: if_splits)
  have "disk_rep d1 cs' (ms' @ map stored [?m])"
  proof (rule append_rep [OF rep' acc, of d1 es])
    show "segmentFile d1 = (segmentFile dr)(dhCurrentSegment dr := framed ms' @ framed [?m])"
      using act d1 by (auto simp: appendBytes_def addIndexEntries_def active_segment_def)
    show "dhLastIndexPosition d1 \<le> dhCurrentOffset dr + length (framed [?m])"
      using act d1 by (auto simp: appendBytes_def addIndexEntries_def active_segment_def es_def split: if_splits)
    show "run [?m] (unat (dhFlushedOffset dr)) (unat (dhFlushedOffset d1))"
      using run d1 by (auto simp: addIndexEntries_def)
    show "dhFlushedOffset dr \<le> dhFlushedOffset d1"
      using same fl msg word_succ_le [of "mOffset msg"] d1 by (auto simp: same_bounds_def addIndexEntries_def)
    show "segmentIndex d1 = (segmentIndex dr)(dhCurrentSegment dr := segmentIndex dr (dhCurrentSegment dr) @ es)"
      using d1 by (auto simp: appendBytes_def addIndexEntries_def)
  qed (use es d1 same queue in \<open>auto simp: appendBytes_def addIndexEntries_def same_bounds_def\<close>)
  moreover have "GetFirstOffset d1 = GetFirstOffset dr"
    by (rule GetFirstOffset_cong) (use d1 in \<open>auto simp: appendBytes_def addIndexEntries_def\<close>)
  ultimately show ?thesis
    using log same d1 queue
    by (intro exI [of _ cs'] exI [of _ "ms' @ map stored [?m]"])
       (auto simp: same_bounds_def appendBytes_def addIndexEntries_def simp flip: append_assoc)
qed

subsection \<open>Reading filters the log\<close>

lemma mOffset_messageFromDisk [simp]: "mOffset (messageFromDisk m) = dOffset m"
  by (simp add: messageFromDisk_def)

definition segment_gaps :: "diskHandler \<Rightarrow> u64 \<Rightarrow> diskMessage list \<Rightarrow> bool" where
  "segment_gaps d base ms \<longleftrightarrow> base \<noteq> dhCurrentSegment d \<and> segmentAllowsOffsetGaps d base (length (framed ms))"

text \<open>What reading needs of a segment, closed or active.\<close>

definition readable :: "diskHandler \<Rightarrow> u64 \<times> diskMessage list \<Rightarrow> bool" where
  "readable d s \<longleftrightarrow>
     segmentFile d (fst s) = framed (snd s) \<and> list_all writable (snd s) \<and>
     list_all (genuine (snd s)) (segmentIndex d (fst s)) \<and>
     follows (segment_gaps d (fst s) (snd s)) None (snd s) \<and>
     (\<not> segment_gaps d (fst s) (snd s) \<longrightarrow> snd s \<noteq> [] \<longrightarrow> dOffset (hd (snd s)) = fst s) \<and>
     list_all (\<lambda>m. fst s \<le> dOffset m) (snd s)"

definition segments_of :: "diskHandler \<Rightarrow> (u64 \<times> diskMessage list) list \<Rightarrow> diskMessage list \<Rightarrow> (u64 \<times> diskMessage list) list" where
  "segments_of d cs ms = cs @ [(dhCurrentSegment d, ms)]"

abbreviation before :: "u64 \<times> diskMessage list \<Rightarrow> u64 \<times> diskMessage list \<Rightarrow> bool" where
  "before s s' \<equiv> fst s < fst s' \<and> list_all (\<lambda>m. dOffset m < fst s') (snd s)"

lemma segments_of_rep:
  assumes "disk_rep d cs ms"
  shows "map fst (segments_of d cs ms) = dhSegments d" and "concat (map snd (segments_of d cs ms)) = disk_log d"
    and "sorted_wrt before (segments_of d cs ms)" and "list_all (readable d) (segments_of d cs ms)"
proof -
  have act: "active_segment d ms" using assms by (simp add: disk_rep_def)
  have r: "run ms (unat (dhCurrentSegment d)) (unat (dhFlushedOffset d))" using act by (simp add: active_segment_def)
  show "map fst (segments_of d cs ms) = dhSegments d" using assms by (simp add: segments_of_def disk_rep_def)
  show "concat (map snd (segments_of d cs ms)) = disk_log d"
    using disk_log_rep [OF assms] by (simp add: segments_of_def)
  show "sorted_wrt before (segments_of d cs ms)"
    using assms by (auto simp: segments_of_def disk_rep_def sorted_wrt_append list_all_iff)
  have "readable d (dhCurrentSegment d, ms)"
    using active_becomes_closed(1) [OF act, of d] run_follows [OF r unat_u64_bound, of None False] run_hd [OF r] act
    by (auto simp: readable_def segment_gaps_def closed_segment_def active_segment_def)
  moreover have "readable d s" if "s \<in> set cs" for s
  proof -
    from assms that have "fst s \<noteq> dhCurrentSegment d" "closed_segment d (fst s) (snd s)"
      by (auto simp: disk_rep_def list_all_iff)
    then show ?thesis by (simp add: readable_def segment_gaps_def closed_segment_def)
  qed
  ultimately show "list_all (readable d) (segments_of d cs ms)"
    by (simp add: segments_of_def list_all_iff)
qed

lemma take_filter_append:
  assumes "length (take lim xs) < lim"
  shows "take lim (xs @ ys) = xs @ take (lim - length (take lim xs)) ys"
  using assms by simp

lemma filter_after_last:
  assumes "list_all (\<lambda>m. \<forall>n \<in> set ns. dOffset n < dOffset m) rest"
    and "xs = filter (\<lambda>m. offset \<le> dOffset m) ns"
  shows "filter (\<lambda>m. (if xs = [] then offset else dOffset (last xs) + 1) \<le> dOffset m) rest =
    filter (\<lambda>m. offset \<le> dOffset m) rest"
proof (cases "xs = []")
  case False
  then have "last xs \<in> set ns" "offset \<le> dOffset (last xs)"
    using assms(2) last_in_set [OF False] by auto
  have "dOffset (last xs) + 1 \<le> dOffset m \<and> offset \<le> dOffset m" if "m \<in> set rest" for m
  proof -
    have lt: "dOffset (last xs) < dOffset m"
      using assms(1) that \<open>last xs \<in> set ns\<close> by (simp add: list_all_iff)
    with \<open>offset \<le> dOffset (last xs)\<close> have "offset \<le> dOffset m" by (rule order.trans [OF _ less_imp_le])
    with inc_le [OF lt] show ?thesis by simp
  qed
  with False show ?thesis by (simp cong: filter_cong)
qed simp

lemma indexPrefix_subset: "e \<in> set (indexPrefix good prev index) \<Longrightarrow> e \<in> set index"
  by (induction good prev index rule: indexPrefix.induct) (auto split: if_splits)

text \<open>One segment, then the rest; the two uses differ in the position the segment is read from.\<close>

lemma readSegments_step:
  assumes s: "readable d s" and later: "list_all (\<lambda>m. \<forall>n \<in> set (snd s). dOffset n < dOffset m) (concat (map snd ss))"
    and read: "readMessagesFromPosition (segmentFile d (fst s)) (if fst s = target then position else 0) limit offset (fst s)
        (fst s = dhCurrentSegment d) (segment_gaps d (fst s) (snd s)) =
        Inr (map messageFromDisk (take limit (filter (\<lambda>m. offset \<le> dOffset m) (snd s))))"
    and rest: "\<And>off' lim'. 0 < lim' \<Longrightarrow> readSegments d target position off' lim' (map fst ss) =
        Inr (map messageFromDisk (take lim' (filter (\<lambda>m. off' \<le> dOffset m) (concat (map snd ss)))))"
    and "0 < limit"
  shows "readSegments d target position offset limit (map fst (s # ss)) =
    Inr (map messageFromDisk (take limit (filter (\<lambda>m. offset \<le> dOffset m) (concat (map snd (s # ss))))))"
proof (cases "snd s = []")
  case True
  with s have "segmentFile d (fst s) = []" by (simp add: readable_def)
  with True rest [OF assms(5)] show ?thesis by simp
next
  case False
  let ?batch = "take limit (filter (\<lambda>m. offset \<le> dOffset m) (snd s))"
  have nonempty: "segmentFile d (fst s) \<noteq> []" using s False by (simp add: readable_def)
  have gaps: "segment_gaps d (fst s) (snd s) \<longleftrightarrow>
      fst s \<noteq> dhCurrentSegment d \<and> segmentAllowsOffsetGaps d (fst s) (length (segmentFile d (fst s)))"
    using s by (simp add: segment_gaps_def readable_def)
  show ?thesis
  proof (cases "length ?batch \<ge> limit")
    case True
    then show ?thesis using read nonempty unfolding gaps by (simp add: Let_def)
  next
    case short: False
    then have batch: "?batch = filter (\<lambda>m. offset \<le> dOffset m) (snd s)" by simp
    have "last (map messageFromDisk xs) = messageFromDisk (last xs)" if "xs \<noteq> []" for xs
      using that by (rule last_map)
    then show ?thesis
      using read nonempty short rest [of "limit - length ?batch"] filter_after_last [OF later batch] unfolding gaps
      by (simp add: Let_def batch cong: if_cong)
  qed
qed

lemma sorted_before_later:
  assumes "sorted_wrt before (s # ss)" and "list_all (readable d) ss"
  shows "list_all (\<lambda>m. \<forall>n \<in> set (snd s). dOffset n < dOffset m) (concat (map snd ss))"
  using assms by (fastforce simp: list_all_iff readable_def)

lemma readSegments_log:
  assumes "list_all (readable d) ss" and "sorted_wrt before ss" and "target \<notin> fst ` set ss" and "0 < limit"
  shows "readSegments d target position offset limit (map fst ss) =
    Inr (map messageFromDisk (take limit (filter (\<lambda>m. offset \<le> dOffset m) (concat (map snd ss)))))"
  using assms
proof (induction ss arbitrary: offset limit)
  case (Cons s ss)
  have s: "readable d s" "fst s \<noteq> target" using Cons.prems by auto
  have "readFrom (fst s = dhCurrentSegment d) (segment_gaps d (fst s) (snd s)) (fst s) offset limit 0 None (framed (snd s) @ []) =
      Inr (map messageFromDisk (take limit (filter (\<lambda>m. offset \<le> dOffset m) (snd s))))"
    by (rule readFrom_framed) (use s(1) in \<open>simp_all add: readable_def\<close>)
  with s(1) have read: "readMessagesFromPosition (segmentFile d (fst s)) 0 limit offset (fst s) (fst s = dhCurrentSegment d)
      (segment_gaps d (fst s) (snd s)) = Inr (map messageFromDisk (take limit (filter (\<lambda>m. offset \<le> dOffset m) (snd s))))"
    by (simp add: readable_def readMessagesFromPosition_def)
  show ?case
  proof (rule readSegments_step [OF s(1)])
    show "list_all (\<lambda>m. \<forall>n\<in>set (snd s). dOffset n < dOffset m) (concat (map snd ss))"
      using sorted_before_later [OF Cons.prems(2), of d] Cons.prems(1) by simp
  qed (use Cons s(2) read in \<open>simp_all\<close>)
qed simp

lemma takeWhile_last_segment:
  assumes "sorted_wrt (<) bases" and "bases \<noteq> []" and "hd bases \<le> (offset :: u64)"
  shows "takeWhile (\<lambda>base. \<not> base > offset) bases \<noteq> []"
    and "last (takeWhile (\<lambda>base. \<not> base > offset) bases) \<in> set bases"
    and "last (takeWhile (\<lambda>base. \<not> base > offset) bases) \<le> offset"
proof -
  let ?below = "takeWhile (\<lambda>base. \<not> base > offset) bases"
  from assms show ne: "?below \<noteq> []" by (cases bases) (auto simp: not_less)
  from last_in_set [OF ne] show "last ?below \<in> set bases" by (rule set_takeWhileD [THEN conjunct1])
  from last_in_set [OF ne] have "\<not> last ?below > offset" by (rule set_takeWhileD [THEN conjunct2])
  then show "last ?below \<le> offset" by simp
qed

lemma sorted_before_bases: "sorted_wrt before ss \<Longrightarrow> sorted_wrt (<) (map fst ss)"
  by (induction ss) auto

lemma findSegmentForOffset_rep:
  assumes rep: "disk_rep d cs ms" and "GetFirstOffset d \<le> offset" and "offset \<le> dhAbsoluteOffset d"
  obtains base where "findSegmentForOffset offset d = Inr base" "base \<in> set (dhSegments d)" "base \<le> offset"
proof (cases "offset \<ge> dhCurrentSegment d")
  case True
  with assms that [of "dhCurrentSegment d"] show ?thesis
    by (simp add: findSegmentForOffset_def disk_rep_def Let_def not_less)
next
  case False
  have "sorted_wrt (<) (dhSegments d)"
    using sorted_before_bases [OF segments_of_rep(3) [OF rep]] by (simp add: segments_of_rep(1) [OF rep])
  moreover have ne: "dhSegments d \<noteq> []" using rep by (simp add: disk_rep_def)
  moreover have "hd (dhSegments d) \<le> offset"
    using assms(2) ne by (cases "dhSegments d") (simp_all add: GetFirstOffset_def)
  ultimately have below: "takeWhile (\<lambda>base. \<not> base > offset) (dhSegments d) \<noteq> []"
    "last (takeWhile (\<lambda>base. \<not> base > offset) (dhSegments d)) \<in> set (dhSegments d)"
    "last (takeWhile (\<lambda>base. \<not> base > offset) (dhSegments d)) \<le> offset"
    by (rule takeWhile_last_segment)+
  with False ne assms(2,3) show ?thesis
    by (intro that [of "last (takeWhile (\<lambda>base. \<not> base > offset) (dhSegments d))"])
       (auto simp: findSegmentForOffset_def Let_def not_less split: list.splits)
qed

lemma dropWhile_bases:
  fixes s :: "u64 \<times> diskMessage list"
  assumes "sorted_wrt (<) (map fst (pre @ s # post))"
  shows "dropWhile (\<lambda>base. base \<noteq> fst s) (map fst (pre @ s # post)) = fst s # map fst post"
  using assms by (induction pre) auto

lemma ReadMessages_log:
  assumes "disk_wf d" and "GetFirstOffset d \<le> offset" and "offset \<le> dhAbsoluteOffset d"
  shows "ReadMessages offset limit d =
    Inr (map messageFromDisk (take (nat limit) (filter (\<lambda>m. offset \<le> dOffset m) (disk_log d))))"
proof (cases "limit \<le> 0")
  case True
  then show ?thesis by (simp add: ReadMessages_def)
next
  case False
  from assms(1) obtain cs ms where rep: "disk_rep d cs ms" by (auto simp: disk_wf_def)
  note segs = segments_of_rep [OF rep]
  obtain base where target: "findSegmentForOffset offset d = Inr base" and base: "base \<in> set (dhSegments d)" "base \<le> offset"
    using findSegmentForOffset_rep [OF rep assms(2,3)] by blast
  from base(1) segs(1) obtain s where "s \<in> set (segments_of d cs ms)" and fst: "fst s = base" by (metis imageE set_map)
  then obtain pre post where split: "segments_of d cs ms = pre @ s # post" by (meson split_list)
  have sorted: "sorted_wrt before (pre @ s # post)" and readables: "list_all (readable d) (pre @ s # post)"
    using segs(3,4) by (simp_all add: split)
  have s: "readable d s" using readables by simp
  let ?file = "segmentFile d base"
  define index where "index = (if base \<noteq> dhCurrentSegment d then indexValidBytes (segmentIndex d base)
        else take (dhIndexBytesWritten d div IndexEntrySize) (segmentIndex d base))"
  have position: "findOffsetPosition offset base d = positionFromIndex ?file index offset"
    by (simp add: findOffsetPosition_def index_def)
  have "list_all (genuine (snd s)) index"
    using s fst by (auto simp: index_def readable_def list_all_iff indexValidBytes_def dest: indexPrefix_subset in_set_takeD)
  then have read: "readMessagesFromPosition ?file (findOffsetPosition offset base d) (nat limit) offset base
      (base = dhCurrentSegment d) (segment_gaps d base (snd s)) =
      Inr (map messageFromDisk (take (nat limit) (filter (\<lambda>m. offset \<le> dOffset m) (snd s))))"
    using read_through_index [of "snd s" "segment_gaps d base (snd s)" base "[]" "base = dhCurrentSegment d" index offset "nat limit"] s
    by (simp add: readable_def position fst)
  have "readSegments d base (findOffsetPosition offset base d) offset (nat limit) (map fst (s # post)) =
      Inr (map messageFromDisk (take (nat limit) (filter (\<lambda>m. offset \<le> dOffset m) (concat (map snd (s # post))))))"
  proof (rule readSegments_step [OF s])
    show "list_all (\<lambda>m. \<forall>n\<in>set (snd s). dOffset n < dOffset m) (concat (map snd post))"
      using sorted readables by (intro sorted_before_later [of s post d]) (simp_all add: sorted_wrt_append)
    show "readSegments d base (findOffsetPosition offset base d) off' lim' (map fst post) =
        Inr (map messageFromDisk (take lim' (filter (\<lambda>m. off' \<le> dOffset m) (concat (map snd post)))))" if "0 < lim'" for off' lim'
      using sorted readables that fst by (intro readSegments_log) (auto simp: sorted_wrt_append)
  qed (use read fst False in simp_all)
  moreover have "filter (\<lambda>m. offset \<le> dOffset m) (concat (map snd pre)) = []"
    using sorted base(2) by (fastforce simp: filter_empty_conv sorted_wrt_append list_all_iff fst not_le)
  ultimately show ?thesis
    using False target dropWhile_bases [OF sorted_before_bases [OF sorted]] segs(1,2) rep
    by (simp add: ReadMessages_def Let_def disk_rep_def fst flip: segs(2) segs(1)) (simp add: split fst)
qed

subsection \<open>The operations on the log\<close>

lemma disk_log_order:
  assumes "disk_wf d"
  shows "sorted_wrt (\<lambda>m n. dOffset m < dOffset n) (disk_log d)"
    and "\<And>m. m \<in> set (disk_log d) \<Longrightarrow> GetFirstOffset d \<le> dOffset m \<and> dOffset m < dhFlushedOffset d"
    and "dhFlushedOffset d \<le> dhAbsoluteOffset d" and "GetFirstOffset d \<le> dhFlushedOffset d"
proof -
  from assms obtain cs ms where rep: "disk_rep d cs ms" by (auto simp: disk_wf_def)
  note segs = segments_of_rep [OF rep]
  have inner: "sorted_wrt (\<lambda>m n. dOffset m < dOffset n) ns" if "follows gaps prev ns" for gaps prev ns
    using that by (induction ns arbitrary: prev) (auto dest: follows_less)
  have "sorted_wrt (\<lambda>m n. dOffset m < dOffset n) (concat (map snd ss))"
    if "sorted_wrt before ss" "list_all (readable d) ss" for ss
    using that
  proof (induction ss)
    case (Cons s ss)
    with sorted_before_later [of s ss d] inner [of _ None "snd s"] show ?case
      by (auto simp: sorted_wrt_append readable_def list_all_iff)
  qed simp
  from this [OF segs(3,4)] show "sorted_wrt (\<lambda>m n. dOffset m < dOffset n) (disk_log d)" by (simp add: segs(2))
  have act: "active_segment d ms" using rep by (simp add: disk_rep_def)
  show "dhFlushedOffset d \<le> dhAbsoluteOffset d" using rep by (simp add: disk_rep_def)
  have first: "GetFirstOffset d \<le> fst s" if "s \<in> set (segments_of d cs ms)" for s
    using sorted_before_bases [OF segs(3)] that
    by (cases "segments_of d cs ms") (auto simp: GetFirstOffset_def less_imp_le simp flip: segs(1))
  have cur: "fst s \<le> dhCurrentSegment d" if "s \<in> set (segments_of d cs ms)" for s
    using rep that by (auto simp: segments_of_def disk_rep_def list_all_iff)
  have "GetFirstOffset d \<le> dhCurrentSegment d" using first [of "(dhCurrentSegment d, ms)"] by (simp add: segments_of_def)
  with act show "GetFirstOffset d \<le> dhFlushedOffset d" by (auto simp: active_segment_def)
  show "GetFirstOffset d \<le> dOffset m \<and> dOffset m < dhFlushedOffset d" if "m \<in> set (disk_log d)" for m
  proof -
    from that obtain s where s: "s \<in> set (segments_of d cs ms)" "m \<in> set (snd s)" by (auto simp flip: segs(2))
    have "fst s \<le> dOffset m" using segs(4) s by (auto simp: list_all_iff readable_def)
    with first [OF s(1)] have "GetFirstOffset d \<le> dOffset m" by simp
    moreover have "dOffset m < dhFlushedOffset d"
    proof (cases "s \<in> set cs")
      case True
      with rep s(2) have "dOffset m < dhCurrentSegment d" by (auto simp: disk_rep_def list_all_iff)
      with act show ?thesis by (auto simp: active_segment_def intro: order.strict_trans2)
    next
      case False
      with s have "m \<in> set ms" by (auto simp: segments_of_def)
      with active_becomes_closed(2) [OF act, of d] show ?thesis by (simp add: list_all_iff)
    qed
    ultimately show ?thesis by simp
  qed
qed

lemma WriteBatchSync_log:
  assumes wf: "disk_wf d" "dhWriteCh d = []" and batch: "batch \<noteq> []" "run batch (unat (dhAbsoluteOffset d)) b"
      "dOffset (last batch) + 1 \<noteq> 0"
    and wr: "WriteBatchSync batch None d = (None, d')"
  shows "disk_wf d' \<and> dhWriteCh d' = [] \<and> disk_log d' = disk_log d @ map stored batch \<and>
    dhAbsoluteOffset d' = dOffset (last batch) + 1 \<and> dhFlushedOffset d' = dOffset (last batch) + 1 \<and>
    GetFirstOffset d' = GetFirstOffset d"
proof -
  from wf obtain cs ms where rep: "disk_rep d cs ms" by (auto simp: disk_wf_def)
  note fl = empty_queue_flushed [OF rep wf(2)]
  note nf = run_last_word [OF batch(2,1,3)]
  have nf2: "\<not> dOffset (last batch) + 1 \<le> dhAbsoluteOffset d" using nf(2) by simp
  have fields: "dhWriteCh d' = [] \<and> dhAbsoluteOffset d' = dOffset (last batch) + 1"
    using wr wf(2) batch(1) nf2
    by (auto simp: WriteBatchSync_def writeBatch_def Let_def addIndexEntries_def appendBytes_def rotateSegment_def
        openIndexFiles_def openSegment_def split: sum.splits if_splits)
  have "\<exists>cs' ms'. disk_rep (d'\<lparr>dhWriteCh := []\<rparr>) cs' ms' \<and>
      concat (map snd cs') @ ms' = concat (map snd cs) @ ms @ map stored batch \<and>
      dhFlushedOffset d' = dOffset (last batch) + 1 \<and> GetFirstOffset d' = GetFirstOffset d"
    using writeBatch_rep [OF rep batch(1) _ batch(3), of b True d' "[]"] wr batch(2) fields nf(1) fl
    by (simp add: WriteBatchSync_def)
  moreover have "d'\<lparr>dhWriteCh := []\<rparr> = d'" using fields by simp
  ultimately show ?thesis
    using fields disk_log_rep [OF rep] disk_log_rep [of d'] by (auto simp: disk_wf_def)
qed

lemma writeBatch_error: "writeBatch batch syncData None d = (Some e, d') \<Longrightarrow> d' = d"
  by (auto simp: writeBatch_def Let_def split: if_splits sum.splits)

lemma writeBatch_succeeds:
  "\<not> dhWriteFailure d \<Longrightarrow> list_all acceptable batch \<Longrightarrow> \<exists>d'. writeBatch batch syncData None d = (None, d')"
  by (simp add: writeBatch_def Let_def serializeBatch_acceptable)

lemma AppendMessageSync_log:
  assumes wf: "disk_wf d" "dhWriteCh d = []" and "dhAbsoluteOffset d + 1 \<noteq> 0"
    and app: "AppendMessageSync topic part msg None d = (Inr offset, d')"
  shows "offset = dhAbsoluteOffset d \<and> disk_wf d' \<and> dhWriteCh d' = [] \<and>
    disk_log d' = disk_log d @ [stored (diskMessageFromMessage topic (word_of_int part) (msg\<lparr>mOffset := offset\<rparr>))] \<and>
    dhAbsoluteOffset d' = offset + 1 \<and> dhFlushedOffset d' = offset + 1 \<and> GetFirstOffset d' = GetFirstOffset d"
proof -
  from wf obtain cs ms where rep: "disk_rep d cs ms" by (auto simp: disk_wf_def)
  let ?msg = "msg\<lparr>mOffset := dhAbsoluteOffset d\<rparr>"
  from app obtain d1 where offset: "offset = dhAbsoluteOffset d" and wr: "WriteDirect topic part ?msg None d = (None, d1)"
    and d': "d' = d1\<lparr>dhAbsoluteOffset := offset + 1\<rparr>"
    by (auto simp: AppendMessageSync_def Let_def split: prod.splits option.splits)
  from WriteDirect_rep [OF rep wf(2) _ assms(3) wr] obtain cs' ms' where rep': "disk_rep d1 cs' ms'"
    and log: "concat (map snd cs') @ ms' = concat (map snd cs) @ ms @ [stored (diskMessageFromMessage topic (word_of_int part) ?msg)]"
    and fields: "dhFlushedOffset d1 = offset + 1" "dhAbsoluteOffset d1 = offset + 1" "dhWriteCh d1 = []"
      "GetFirstOffset d1 = GetFirstOffset d"
    by (auto simp: offset)
  have "d' = d1" using d' fields by simp
  with rep' log fields disk_log_rep [OF rep] disk_log_rep [OF rep'] offset show ?thesis
    by (auto simp: disk_wf_def)
qed

lemma run_take_drop:
  assumes "run ms a b" and "a \<le> b"
  shows "run (take n ms) a (a + length (take n ms)) \<and> run (drop n ms) (a + length (take n ms)) b \<and>
    a + length (take n ms) \<le> b"
proof -
  have len: "length ms = b - a" by (rule run_length [OF assms(1)])
  have "map off (take n ms) = take n [a..<b]" "map off (drop n ms) = drop n [a..<b]"
    by (simp_all flip: take_map drop_map add: assms(1))
  with len assms(2) show ?thesis by (auto simp: take_upt drop_upt min_def)
qed

lemma AppendMessageSync_error:
  assumes "AppendMessageSync topic part msg None d = (Inl e, d')"
  shows "d' = d"
  using assms
  by (auto simp: AppendMessageSync_def WriteDirect_def Let_def split: prod.splits option.splits if_splits sum.splits)

lemma AppendMessage_log:
  assumes "disk_wf d" and "dhAbsoluteOffset d + 1 \<noteq> 0" and "AppendMessage topic part msg accepted d = (Inr offset, d')"
  shows "offset = dhAbsoluteOffset d \<and> disk_wf d' \<and> disk_log d' = disk_log d \<and>
    dhWriteCh d' = dhWriteCh d @ [diskMessageFromMessage topic (word_of_int part) (msg\<lparr>mOffset := offset\<rparr>)] \<and>
    dhAbsoluteOffset d' = offset + 1 \<and> dhFlushedOffset d' = dhFlushedOffset d \<and> GetFirstOffset d' = GetFirstOffset d"
proof -
  let ?m = "diskMessageFromMessage topic (word_of_int part) (msg\<lparr>mOffset := dhAbsoluteOffset d\<rparr>)"
  from assms(1) obtain cs ms where rep: "disk_rep d cs ms" by (auto simp: disk_wf_def)
  have offset: "offset = dhAbsoluteOffset d" and acc: "acceptable ?m"
    and d': "d' = d\<lparr>dhWriteCh := dhWriteCh d @ [?m], dhAbsoluteOffset := dhAbsoluteOffset d + 1\<rparr>"
    using assms(3) by (auto simp: AppendMessage_def Let_def validateDiskMessageSize_None split: if_splits option.splits)
  have r: "run (dhWriteCh d @ [?m]) (unat (dhFlushedOffset d)) (unat (dhAbsoluteOffset d + 1))"
    using rep word_succ_le [OF assms(2)]
    by (intro run_appendI [of _ _ "unat (dhAbsoluteOffset d)"]) (auto simp: disk_rep_def word_le_nat_alt)
  have le: "dhFlushedOffset d \<le> dhAbsoluteOffset d + 1"
    using rep word_succ_le [OF assms(2)] by (auto simp: disk_rep_def)
  have segs: "closed_segment d' b ns = closed_segment d b ns" "active_segment d' ms = active_segment d ms" for b ns
    by (simp_all add: d' closed_segment_def active_segment_def segmentAllowsOffsetGaps_def)
  have fields: "dhWriteCh d' = dhWriteCh d @ [?m]" "dhAbsoluteOffset d' = dhAbsoluteOffset d + 1"
    "dhFlushedOffset d' = dhFlushedOffset d" "dhSegments d' = dhSegments d" "dhCurrentSegment d' = dhCurrentSegment d"
    "dhFiles d' = dhFiles d" "dhWriteFailure d' = dhWriteFailure d" "dhCompacted d' = dhCompacted d"
    by (simp_all add: d')
  have rep': "disk_rep d' cs ms"
    unfolding disk_rep_def fields segs using rep acc by (intro conjI r le) (auto simp: disk_rep_def)
  have "GetFirstOffset d' = GetFirstOffset d" by (rule GetFirstOffset_cong) (simp_all add: d')
  with rep' disk_log_rep [OF rep] disk_log_rep [OF rep'] show ?thesis by (auto simp: disk_wf_def d' offset)
qed

lemma flushQueue_log:
  assumes "disk_wf d"
  shows "disk_wf (flushQueue n None d) \<and> disk_log (flushQueue n None d) = disk_log d @ map stored (take n (dhWriteCh d)) \<and>
    dhWriteCh (flushQueue n None d) = drop n (dhWriteCh d) \<and>
    dhAbsoluteOffset (flushQueue n None d) = dhAbsoluteOffset d \<and> GetFirstOffset (flushQueue n None d) = GetFirstOffset d"
proof (cases "take n (dhWriteCh d) = []")
  case True
  then have "drop n (dhWriteCh d) = dhWriteCh d" by auto
  with True assms show ?thesis by (simp add: flushQueue_def WriteBatch_def writeBatch_def)
next
  case False
  let ?batch = "take n (dhWriteCh d)" and ?q = "drop n (dhWriteCh d)"
  from assms obtain cs ms where rep: "disk_rep d cs ms" by (auto simp: disk_wf_def)
  have acc: "list_all acceptable ?batch" "list_all acceptable ?q"
    using rep by (auto simp: disk_rep_def list_all_iff dest: in_set_takeD in_set_dropD)
  obtain d1 where wr: "writeBatch ?batch False None d = (None, d1)"
    using writeBatch_succeeds [OF _ acc(1), of d False] rep by (auto simp: disk_rep_def)
  define b where "b = unat (dhFlushedOffset d) + length ?batch"
  have "run (dhWriteCh d) (unat (dhFlushedOffset d)) (unat (dhAbsoluteOffset d))"
    "unat (dhFlushedOffset d) \<le> unat (dhAbsoluteOffset d)"
    using rep by (simp_all add: disk_rep_def word_le_nat_alt)
  from run_take_drop [OF this, of n] have runs: "run ?batch (unat (dhFlushedOffset d)) b"
    "run ?q b (unat (dhAbsoluteOffset d))" "b \<le> unat (dhAbsoluteOffset d)"
    unfolding b_def by simp_all
  from run_last [OF runs(1) False] have "Suc (off (last ?batch)) = b" by simp
  with runs(3) have lt: "Suc (off (last ?batch)) \<le> unat (dhAbsoluteOffset d)" by simp
  then have nz: "dOffset (last ?batch) + 1 \<noteq> 0"
    using unat_u64_bound [of "dhAbsoluteOffset d"] by (auto simp: unat_eq_0 [symmetric] unat_word_ariths)
  have "dOffset (last ?batch) + 1 \<le> dhAbsoluteOffset d"
    using lt word_succ_le [OF nz] by (simp add: word_le_nat_alt)
  then have abs: "dhAbsoluteOffset d1 = dhAbsoluteOffset d"
    using wr False
    by (auto simp: writeBatch_def Let_def addIndexEntries_def appendBytes_def rotateSegment_def
        openIndexFiles_def openSegment_def split: sum.splits if_splits)
  from writeBatch_rep [OF rep False runs(1) nz wr acc(2)] runs(2,3) abs obtain cs' ms' where
    rep': "disk_rep (d1\<lparr>dhWriteCh := ?q\<rparr>) cs' ms'"
    and log: "concat (map snd cs') @ ms' = concat (map snd cs) @ ms @ map stored ?batch"
    and first: "GetFirstOffset d1 = GetFirstOffset d" by auto
  have d': "flushQueue n None d = d1\<lparr>dhWriteCh := ?q\<rparr>" by (simp add: flushQueue_def WriteBatch_def wr)
  have "GetFirstOffset (d1\<lparr>dhWriteCh := ?q\<rparr>) = GetFirstOffset d1" by (rule GetFirstOffset_cong) simp_all
  with rep' log first abs disk_log_rep [OF rep] disk_log_rep [OF rep'] show ?thesis
    unfolding d' by (auto simp: disk_wf_def)
qed

lemma Flush_log:
  assumes "disk_wf d"
  shows "disk_wf (Flush None d) \<and> disk_log (Flush None d) = disk_log d @ map stored (dhWriteCh d) \<and>
    dhWriteCh (Flush None d) = [] \<and> dhAbsoluteOffset (Flush None d) = dhAbsoluteOffset d \<and>
    GetFirstOffset (Flush None d) = GetFirstOffset d"
proof -
  define d1 where "d1 = flushQueue (length (dhWriteCh d)) None d"
  note q = flushQueue_log [OF assms, of "length (dhWriteCh d)", folded d1_def]
  then obtain cs ms where rep: "disk_rep d1 cs ms" by (auto simp: disk_wf_def)
  have d': "Flush None d = d1\<lparr>dhSynced := dhCurrentOffset d1\<rparr>"
    using rep by (simp add: Flush_def d1_def [symmetric] Let_def disk_rep_def)
  have "closed_segment (d1\<lparr>dhSynced := x\<rparr>) b ns = closed_segment d1 b ns"
    "active_segment (d1\<lparr>dhSynced := x\<rparr>) ms = active_segment d1 ms" for b ns x
    by (simp_all add: closed_segment_def active_segment_def segmentAllowsOffsetGaps_def)
  with rep have rep': "disk_rep (Flush None d) cs ms" by (auto simp: disk_rep_def d')
  have "GetFirstOffset (Flush None d) = GetFirstOffset d1" by (rule GetFirstOffset_cong) (simp_all add: d')
  with q disk_log_rep [OF rep] disk_log_rep [OF rep'] rep' show ?thesis by (auto simp: disk_wf_def d')
qed

subsection \<open>The storage contract\<close>

text \<open>
  What a partition relies on: an acknowledged batch is appended to the log and moves the tail behind it, a
  refused one changes nothing, and a read within the retained range returns the records from its offset on.
\<close>

locale log_storage =
  fixes ready :: "'s \<Rightarrow> bool"
    and records :: "'s \<Rightarrow> diskMessage list"
    and first :: "'s \<Rightarrow> u64"
    and tail :: "'s \<Rightarrow> u64"
    and append_batch :: "diskMessage list \<Rightarrow> 's \<Rightarrow> disk_error option \<times> 's"
    and fetch :: "u64 \<Rightarrow> int \<Rightarrow> 's \<Rightarrow> disk_error + message list"
  assumes append_ok: "ready s \<Longrightarrow> batch \<noteq> [] \<Longrightarrow> run batch (unat (tail s)) b \<Longrightarrow> dOffset (last batch) + 1 \<noteq> 0 \<Longrightarrow>
      append_batch batch s = (None, s') \<Longrightarrow>
      ready s' \<and> records s' = records s @ map stored batch \<and> tail s' = dOffset (last batch) + 1 \<and> first s' = first s"
    and append_refused: "append_batch batch s = (Some e, s') \<Longrightarrow> s' = s"
    and fetch_records: "ready s \<Longrightarrow> first s \<le> offset \<Longrightarrow> offset \<le> tail s \<Longrightarrow>
      fetch offset limit s = Inr (map messageFromDisk (take (nat limit) (filter (\<lambda>m. offset \<le> dOffset m) (records s))))"
    and records_range: "ready s \<Longrightarrow> m \<in> set (records s) \<Longrightarrow> first s \<le> dOffset m \<and> dOffset m < tail s"
    and first_le_tail: "ready s \<Longrightarrow> first s \<le> tail s"
begin

lemma fetch_appended:
  assumes "ready s" and "batch \<noteq> []" and "run batch (unat (tail s)) b" and "dOffset (last batch) + 1 \<noteq> 0"
    and "append_batch batch s = (None, s')"
  shows "fetch (tail s) (int (length batch)) s' = Inr (map (\<lambda>m. messageFromDisk (stored m)) batch)"
proof -
  note ok = append_ok [OF assms]
  have "filter (\<lambda>m. tail s \<le> dOffset m) (records s) = []"
    using records_range [OF assms(1)] by (auto simp: filter_empty_conv not_le)
  moreover have "filter (\<lambda>m. tail s \<le> dOffset m) (map stored batch) = map stored batch"
    using run_bounds [OF assms(3)] by (auto simp: word_le_nat_alt)
  moreover have "tail s \<le> tail s'" using run_last_word(2) [OF assms(3,2,4)] ok by simp
  ultimately show ?thesis
    using ok fetch_records [of s' "tail s" "int (length batch)"] first_le_tail [OF assms(1)] by (simp add: comp_def)
qed

lemma fetch_stable:
  assumes "ready s" and "batch \<noteq> []" and "run batch (unat (tail s)) b" and "dOffset (last batch) + 1 \<noteq> 0"
    and "append_batch batch s = (None, s')" and "first s \<le> offset" and "offset \<le> tail s"
  shows "\<exists>old new. fetch offset limit s = Inr old \<and> fetch offset limit s' = Inr (old @ new)"
proof -
  note ok = append_ok [OF assms(1-5)]
  have "offset \<le> tail s'" using assms(7) run_last_word(2) [OF assms(3,2,4)] ok by simp
  then show ?thesis
    using ok assms(6) fetch_records [OF assms(1,6,7), of limit] fetch_records [of s' offset limit] by simp
qed

end

interpretation disk_storage: log_storage "\<lambda>d. disk_wf d \<and> dhWriteCh d = []" disk_log GetFirstOffset dhAbsoluteOffset
  "\<lambda>batch. WriteBatchSync batch None" ReadMessages
proof unfold_locales
  show "s' = s" if "WriteBatchSync batch None s = (Some e, s')" for batch e and s s' :: diskHandler
    using that unfolding WriteBatchSync_def by (rule writeBatch_error)
  show "GetFirstOffset s \<le> dOffset m \<and> dOffset m < dhAbsoluteOffset s"
    if "disk_wf s \<and> dhWriteCh s = []" "m \<in> set (disk_log s)" for s m
    using disk_log_order [of s] that by (meson order.strict_trans2)
  show "GetFirstOffset s \<le> dhAbsoluteOffset s" if "disk_wf s \<and> dhWriteCh s = []" for s
    using disk_log_order [of s] that by (meson order.trans)
qed (auto dest: WriteBatchSync_log ReadMessages_log)

end
