(* ===== verification/Disk_Maintenance.thy ===== *)
theory Disk_Maintenance
  imports Disk_Log
begin

section \<open>Truncation, retention, compaction and restart\<close>

text \<open>
  The operations of \<open>pkg/disk\<close> that rewrite existing segments: \<open>TruncateTo\<close> (\<open>truncate.go\<close>),
  \<open>EnforceRetention\<close> (\<open>retention.go\<close>), \<open>EnforceCompaction\<close> (\<open>compaction.go\<close>), and \<open>newDiskHandler\<close>
  (\<open>handler.go\<close>), which rebuilds the state from the files.

  Whether readers are active, whether the cleanup policy and the cluster gate allow a pass, the age of a
  segment and the floating point comparison with the dirty ratio are arguments. The temporary files of a
  compaction, and the staged files and the manifest of a compacted replica range, are not modelled: a rewritten
  segment, its marker and its index appear in one step.
\<close>

subsection \<open>Truncation\<close>

definition truncateTarget :: "u64 \<Rightarrow> u64 list \<Rightarrow> u64" where
  "truncateTarget nextOffset bases =
     (let below = takeWhile (\<lambda>base. \<not> base > nextOffset) bases in if below = [] then hd bases else last below)"

definition truncated :: "u64 \<Rightarrow> u64 \<Rightarrow> nat \<Rightarrow> diskHandler \<Rightarrow> diskHandler" where
  "truncated nextOffset target position d =
     openIndexFiles (openSegment
       (d\<lparr>dhSegments := filter (\<lambda>base. base \<le> target) (dhSegments d),
          dhFiles := mput target (take position (segmentFile d target))
                       (filter (\<lambda>f. \<not> (fst f \<in> set (dhSegments d) \<and> fst f > target)) (dhFiles d)),
          dhIndexes := mdel target (filter (\<lambda>f. \<not> (fst f \<in> set (dhSegments d) \<and> fst f > target)) (dhIndexes d)),
          dhCompacted := filter (\<lambda>f. \<not> (fst f \<in> set (dhSegments d) \<and> fst f > target)) (dhCompacted d),
          dhCurrentSegment := target, dhCurrentOffset := position, dhLastIndexPosition := 0,
          dhIndexBytesWritten := 0, dhAbsoluteOffset := nextOffset, dhFlushedOffset := nextOffset,
          dhSynced := position\<rparr>))"

definition TruncateTo :: "u64 \<Rightarrow> bool \<Rightarrow> nat option \<Rightarrow> diskHandler \<Rightarrow> disk_error option \<times> diskHandler" where
  "TruncateTo nextOffset busy fault d =
     (let d = Flush fault d in
      if busy then (Some ReadersActive, d)
      else if nextOffset > dhAbsoluteOffset d then (Some TruncateAhead, d)
      else if nextOffset = dhAbsoluteOffset d then (None, d)
      else if dhSegments d = [] then (Some SegmentMissing, d)
      else let d = d\<lparr>dhSegments := sort (dhSegments d)\<rparr> in
        if nextOffset < hd (dhSegments d) then (Some TruncateBeforeRetained, d)
        else let target = truncateTarget nextOffset (dhSegments d); file = segmentFile d target in
          if segmentAllowsOffsetGaps d target (length file) then (Some TruncateCompacted, d)
          else case findTruncatePosition file nextOffset of
                 Inl e \<Rightarrow> (Some e, d)
               | Inr position \<Rightarrow> (None, truncated nextOffset target position d))"

subsection \<open>Retention\<close>

definition markAsDeleted :: "u64 \<Rightarrow> diskHandler \<Rightarrow> diskHandler" where
  "markAsDeleted base d =
     d\<lparr>dhFiles := mdel base (dhFiles d), dhIndexes := mdel base (dhIndexes d), dhCompacted := mdel base (dhCompacted d),
       dhSegments := remove1 base (dhSegments d)\<rparr>"

fun retentionLoop :: "(u64 \<Rightarrow> bool) \<Rightarrow> nat \<Rightarrow> nat \<Rightarrow> u64 list \<Rightarrow> diskHandler \<Rightarrow> diskHandler" where
  "retentionLoop expired limit totalSize (base # next # rest) d =
     (if expired base \<or> limit > 0 \<and> totalSize > limit
      then retentionLoop expired limit (totalSize - length (segmentFile d base)) (next # rest) (markAsDeleted base d)
      else retentionLoop expired limit totalSize (next # rest) d)"
| "retentionLoop expired limit totalSize bases d = d"

definition EnforceRetention :: "bool \<Rightarrow> (u64 \<Rightarrow> bool) \<Rightarrow> nat \<Rightarrow> diskHandler \<Rightarrow> diskHandler" where
  "EnforceRetention allowed expired limit d =
     (if \<not> allowed then d
      else let bases = sort (mkeys (dhFiles d));
               totalSize = sum_list (map (\<lambda>base. length (segmentFile d base)) bases)
        in retentionLoop expired limit totalSize bases d)"

subsection \<open>Compaction\<close>

definition hasTransactionMetadata :: "diskMessage \<Rightarrow> bool" where
  "hasTransactionMetadata m \<longleftrightarrow>
     dTransactionalID m \<noteq> [] \<or> dTransactionState m \<noteq> [] \<or> dTransactionMarker m \<noteq> [] \<or> dControlBatchType m \<noteq> [] \<or>
     dControlBatchVersion m \<noteq> 0 \<or> dControlBatchCoordinatorEpoch m \<noteq> 0 \<or>
     slice_bytes (dControlBatchKey m) \<noteq> [] \<or> slice_bytes (dControlBatchValue m) \<noteq> []"

definition isOrdinaryKeyedRecord :: "diskMessage \<Rightarrow> bool" where
  "isOrdinaryKeyedRecord m \<longleftrightarrow> dKey m \<noteq> [] \<and> \<not> hasTransactionMetadata m"

definition latestOf :: "(string, u64) gomap \<Rightarrow> string \<Rightarrow> u64" where
  "latestOf m k = (case map_of m k of None \<Rightarrow> 0 | Some v \<Rightarrow> v)"

definition shouldRemoveCompactionRecord :: "diskMessage \<Rightarrow> (string, u64) gomap \<Rightarrow> (string, u64) gomap \<Rightarrow> bool" where
  "shouldRemoveCompactionRecord m latestKeyOffset latestProducerOffset =
     (if \<not> isOrdinaryKeyedRecord m \<or> latestOf latestKeyOffset (dKey m) = dOffset m then False
      else if dProducerID m \<noteq> [] \<and> latestOf latestProducerOffset (dProducerID m) = dOffset m then False
      else True)"

text \<open>The first pass over the closed segments: the latest offset of every key and of every producer.\<close>

definition noteLatest :: "diskMessage \<Rightarrow> (string, u64) gomap \<times> (string, u64) gomap \<Rightarrow> (string, u64) gomap \<times> (string, u64) gomap" where
  "noteLatest m latest =
     ((if isOrdinaryKeyedRecord m then mput (dKey m) (dOffset m) (fst latest) else fst latest),
      (if dProducerID m \<noteq> [] then mput (dProducerID m) (dOffset m) (snd latest) else snd latest))"

definition scanSegment :: "diskHandler \<Rightarrow> u64 \<Rightarrow> disk_error + compactionFrame list" where
  "scanSegment d segment =
     scanCompactionSegment (segmentFile d segment) segment
       (segmentAllowsOffsetGaps d segment (length (segmentFile d segment)))"

fun scanSegments :: "diskHandler \<Rightarrow> u64 list \<Rightarrow> disk_error + (u64 \<times> compactionFrame list) list" where
  "scanSegments d [] = Inr []"
| "scanSegments d (segment # rest) =
     (case scanSegment d segment of
        Inl e \<Rightarrow> Inl e
      | Inr frames \<Rightarrow>
          (case scanSegments d rest of Inl e \<Rightarrow> Inl e | Inr scans \<Rightarrow> Inr ((segment, frames) # scans)))"

definition removableBytes ::
  "(string, u64) gomap \<times> (string, u64) gomap \<Rightarrow> compactionFrame list \<Rightarrow> nat" where
  "removableBytes latest frames =
     sum_list (map (\<lambda>f. length (cfRaw f))
       (filter (\<lambda>f. shouldRemoveCompactionRecord (cfMessage f) (fst latest) (snd latest)) frames))"

definition compactClosedSegment ::
  "u64 \<Rightarrow> (string, u64) gomap \<times> (string, u64) gomap \<Rightarrow> diskHandler \<Rightarrow> disk_error + diskHandler" where
  "compactClosedSegment segment latest d =
     (case scanSegment d segment of
        Inl e \<Rightarrow> Inl e
      | Inr frames \<Rightarrow>
          (let kept = filter (\<lambda>f. \<not> shouldRemoveCompactionRecord (cfMessage f) (fst latest) (snd latest)) frames;
               output = concat (map cfRaw kept)
           in if length kept = length frames then Inr d
              else Inr (d\<lparr>dhFiles := mput segment output (dhFiles d),
                          dhIndexes := mput segment
                            (batchIndex (indexInterval d) 0 0 (zip (map cfMessage kept) (map cfRaw kept))) (dhIndexes d),
                          dhCompacted := mput segment (length output) (dhCompacted d)\<rparr>)))"

fun compactLoop ::
  "(string, u64) gomap \<times> (string, u64) gomap \<Rightarrow> (u64 \<times> compactionFrame list) list \<Rightarrow> diskHandler \<Rightarrow>
   disk_error option \<times> diskHandler" where
  "compactLoop latest [] d = (None, d)"
| "compactLoop latest ((segment, frames) # rest) d =
     (if removableBytes latest frames = 0 then compactLoop latest rest d
      else case compactClosedSegment segment latest d of
             Inl e \<Rightarrow> (Some e, d)
           | Inr d \<Rightarrow> compactLoop latest rest d)"

definition EnforceCompaction :: "bool \<Rightarrow> (nat \<Rightarrow> nat \<Rightarrow> bool) \<Rightarrow> diskHandler \<Rightarrow> disk_error option \<times> diskHandler" where
  "EnforceCompaction allowed dirtyEnough d =
     (if \<not> allowed then (None, d)
      else let closedSegments = sort (filter (\<lambda>segment. segment \<noteq> dhCurrentSegment d) (dhSegments d)) in
        case scanSegments d closedSegments of
          Inl e \<Rightarrow> (Some e, d)
        | Inr scans \<Rightarrow>
            (let latest = fold noteLatest (map cfMessage (concat (map snd scans))) ([], []);
                 removable = sum_list (map (\<lambda>s. removableBytes latest (snd s)) scans);
                 bytesBefore = sum_list (map (\<lambda>f. length (cfRaw f)) (concat (map snd scans)))
             in if removable = 0 then (None, d)
                else if \<not> dirtyEnough removable bytesBefore then (None, d)
                else compactLoop latest scans d))"

subsection \<open>Ranges from a compacted leader\<close>

text \<open>
  \<open>WriteCompactedReplicaRange\<close> installs the records a leader still has of an offset range as a closed, compacted
  segment, and starts the next segment at the end of the range.
\<close>

fun compactedRangeLoop :: "u64 \<Rightarrow> u64 \<Rightarrow> u64 option \<Rightarrow> diskMessage list \<Rightarrow> disk_error option" where
  "compactedRangeLoop startOffset endOffset previous [] = None"
| "compactedRangeLoop startOffset endOffset previous (m # batch) =
     (if dOffset m < startOffset \<or> dOffset m \<ge> endOffset then Some InvalidRange
      else if (case previous of None \<Rightarrow> False | Some p \<Rightarrow> dOffset m \<le> p) then Some NonIncreasingOffset
      else compactedRangeLoop startOffset endOffset (Some (dOffset m)) batch)"

definition validateCompactedReplicaRange :: "u64 \<Rightarrow> u64 \<Rightarrow> diskMessage list \<Rightarrow> disk_error option" where
  "validateCompactedReplicaRange startOffset endOffset batch =
     (if endOffset \<le> startOffset then Some InvalidRange else compactedRangeLoop startOffset endOffset None batch)"

definition appendSegmentIfMissing :: "u64 list \<Rightarrow> u64 \<Rightarrow> u64 list" where
  "appendSegmentIfMissing segments segment =
     (if segment \<in> set segments then segments else sort (segments @ [segment]))"

definition WriteCompactedReplicaRange ::
  "bool \<Rightarrow> u64 \<Rightarrow> u64 \<Rightarrow> diskMessage list \<Rightarrow> diskHandler \<Rightarrow> disk_error option \<times> diskHandler" where
  "WriteCompactedReplicaRange busy startOffset endOffset batch d =
     (case validateCompactedReplicaRange startOffset endOffset batch of
        Some e \<Rightarrow> (Some e, d)
      | None \<Rightarrow>
          if dhWriteFailure d then (Some WriteUnavailable, d)
          else if busy then (Some ReadersActive, d)
          else if dhAbsoluteOffset d \<noteq> startOffset then (Some RangeStart, d)
          else let d = (if dhCurrentSegment d \<noteq> startOffset \<or> dhCurrentOffset d \<noteq> 0
                        then rotateSegment startOffset d else d) in
            case serializeBatch batch of
              Inl e \<Rightarrow> (Some e, d)
            | Inr frames \<Rightarrow>
                (let d = d\<lparr>dhFiles := mput startOffset (concat frames) (dhFiles d),
                           dhIndexes := mput startOffset (batchIndex (indexInterval d) 0 0 (zip batch frames)) (dhIndexes d),
                           dhCurrentSegment := endOffset, dhCurrentOffset := 0, dhLastIndexPosition := 0,
                           dhIndexBytesWritten := 0, dhSegments := appendSegmentIfMissing (dhSegments d) endOffset\<rparr>;
                     d = openIndexFiles (openSegment d)
                 in (None, d\<lparr>dhCompacted := mput startOffset (length (concat frames)) (dhCompacted d),
                             dhAbsoluteOffset := endOffset, dhFlushedOffset := endOffset, dhSynced := 0\<rparr>)))"

subsection \<open>Opening after a restart\<close>

text \<open>
  \<open>newDiskHandler\<close> on the files found in the directory, with the compaction markers \<open>dhCompacted\<close>. A marker
  whose size is not that of its segment is dropped. The active segment is the one with the highest base.
\<close>

definition loadCompactionMarkers :: "diskHandler \<Rightarrow> (u64, nat) gomap" where
  "loadCompactionMarkers d =
     filter (\<lambda>m. fst m \<in> set (mkeys (dhFiles d)) \<and> length (segmentFile d (fst m)) = snd m) (dhCompacted d)"

definition newDiskHandler :: "bool \<Rightarrow> diskHandler \<Rightarrow> disk_error + diskHandler" where
  "newDiskHandler standaloneInternalMetadata d =
     (let bases = sort (mkeys (dhFiles d));
          current = (if bases = [] then 0 else last bases);
          recovery = (if bases = [] then Inr \<lparr>srFile = [], srValidBytes = 0, srNextOffset = 0\<rparr>
                      else recoverActiveSegmentMode (segmentFile d current) (segmentIndex d current) current
                             standaloneInternalMetadata)
      in case recovery of
           Inl e \<Rightarrow> Inl e
         | Inr r \<Rightarrow>
             Inr (openIndexFiles
               (d\<lparr>dhCurrentOffset := srValidBytes r, dhAbsoluteOffset := srNextOffset r, dhCurrentSegment := current,
                  dhSegments := (if bases = [] then [current] else bases), dhFlushedOffset := srNextOffset r,
                  dhCompacted := loadCompactionMarkers d, dhWriteFailure := False, dhWriteCh := [],
                  dhFiles := mput current (srFile r) (dhFiles d), dhSynced := srValidBytes r\<rparr>)))"

end
