(* ===== verification/Disk_Recovery.thy ===== *)
theory Disk_Recovery
  imports Disk_Maintenance "HOL-Library.Sublist"
begin

section \<open>Restart after a crash\<close>

text \<open>
  What \<open>newDiskHandler\<close> makes of the files a crash leaves: the active segment cut anywhere after its synced bytes
  and an index that may be behind or ahead of it. The recovered handler represents the closed segments and the whole
  records of the active one, so an append that was synced is still there.
\<close>

subsection \<open>What is left of a segment\<close>

text \<open>A file cut anywhere holds the whole frames that still fit, and a torn frame of the next record.\<close>

lemma take_framed:
  assumes "list_all writable ms"
  obtains ns rest t where "ms = ns @ rest" "take c (framed ms) = framed ns @ t"
    "t = [] \<or> (\<exists>r rest' k. rest = r # rest' \<and> k < length (frame r) \<and> t = take k (frame r))"
    "\<And>as. prefix as ms \<Longrightarrow> length (framed as) \<le> c \<Longrightarrow> prefix as ns"
  using assms
proof (induction ms arbitrary: c thesis)
  case Nil
  then show ?case by (metis append_Nil framed_simps(1) prefix_bot.bot_least prefix_Nil take_Nil)
next
  case (Cons m ms)
  show ?case
  proof (cases "c < length (frame m)")
    case True
    show ?thesis
    proof (rule Cons.prems(1) [of "[]" "m # ms" "take c (frame m)"])
      show "prefix as []" if "prefix as (m # ms)" "length (framed as) \<le> c" for as
        using that True by (cases as) auto
    qed (use True in auto)
  next
    case False
    from Cons.prems(2) have w: "list_all writable ms" by simp
    obtain ns rest t where ih: "ms = ns @ rest" "take (c - length (frame m)) (framed ms) = framed ns @ t"
      "t = [] \<or> (\<exists>r rest' k. rest = r # rest' \<and> k < length (frame r) \<and> t = take k (frame r))"
      "\<And>as. prefix as ms \<Longrightarrow> length (framed as) \<le> c - length (frame m) \<Longrightarrow> prefix as ns"
      using Cons.IH [OF _ w, of "c - length (frame m)"] by blast
    show ?thesis
    proof (rule Cons.prems(1) [of "m # ns" rest t])
      show "prefix as (m # ns)" if "prefix as (m # ms)" "length (framed as) \<le> c" for as
        using that ih(4) by (cases as) auto
    qed (use ih False in auto)
  qed
qed

lemma genuine_prefix:
  assumes "genuine (ns @ rest) e" and "iePosition e < length (framed ns)"
  shows "genuine ns e"
proof -
  from assms(1) obtain as m bs where split: "ns @ rest = as @ m # bs" and e: "iePosition e = length (framed as)" "ieOffset e = dOffset m"
    by (rule genuineE)
  have "\<not> prefix ns as"
  proof
    assume "prefix ns as"
    then have "length (framed ns) \<le> length (framed as)" by (auto elim!: prefixE)
    with assms(2) e show False by simp
  qed
  with split obtain us where "ns = as @ us" "us \<noteq> []" by (metis append_eq_append_conv2 prefixI append_Nil2)
  moreover with split have "hd us = m" by (cases us) auto
  ultimately have "ns = as @ m # tl us" by (cases us) auto
  with e show ?thesis unfolding genuine_def by blast
qed

lemma genuine_past_cut:
  assumes "genuine (ns @ rest) e" and "length (framed ns) \<le> iePosition e"
    and "t = [] \<or> (\<exists>r rest' k. rest = r # rest' \<and> k < length (frame r) \<and> t = take k (frame r))"
    and "list_all writable rest"
  shows "\<not> indexEntryMatchesRecord (framed ns @ t) e"
proof -
  from assms(1) obtain as m bs where split: "ns @ rest = as @ m # bs" and e: "iePosition e = length (framed as)"
    by (rule genuineE)
  consider "t = []" | r rest' k where "rest = r # rest'" "k < length (frame r)" "t = take k (frame r)" using assms(3) by blast
  then show ?thesis
  proof cases
    case 1
    with assms(2) show ?thesis by (simp add: indexEntryMatchesRecord_def)
  next
    case 2
    show ?thesis
    proof (cases "iePosition e = length (framed ns)")
      case True
      have "torn t" using 2 assms(4) unfolding torn_def by auto
      then have "nextFrame t \<in> {FrameEOF, FrameShortLength, FrameShort}" using nextFrame_torn [of t] by (cases "t = []") auto
      with True show ?thesis by (auto simp: indexEntryMatchesRecord_def)
    next
      case False
      have "prefix (ns @ [r]) as"
      proof -
        have "\<not> prefix as ns" using False assms(2) e by (auto elim!: prefixE)
        with split obtain us where "as = ns @ us" "us \<noteq> []" by (metis append_eq_append_conv2 prefixI append_Nil2)
        with split 2 show ?thesis by (cases us) auto
      qed
      then have "length (framed (ns @ [r])) \<le> length (framed as)" by (auto elim!: prefixE)
      with 2 e have "length (framed ns @ t) \<le> iePosition e" by simp
      then show ?thesis by (simp add: indexEntryMatchesRecord_def)
    qed
  qed
qed

subsection \<open>Opening the files\<close>

text \<open>
  The files of a directory: closed segments \<open>cs\<close>, and a last segment with the records \<open>ns\<close> and a torn tail \<open>t\<close>,
  whose index may still have entries for records that are gone.
\<close>

definition segment_image :: "diskHandler \<Rightarrow> (u64 \<times> diskMessage list) list \<Rightarrow> u64 \<Rightarrow> diskMessage list \<Rightarrow> bytes \<Rightarrow> nat \<Rightarrow> bool" where
  "segment_image d cs cur ns t b \<longleftrightarrow>
     sorted_wrt (\<lambda>s s'. fst s < fst s' \<and> list_all (\<lambda>m. dOffset m < fst s') (snd s)) cs \<and>
     list_all (\<lambda>s. fst s < cur \<and> closed_segment d (fst s) (snd s) \<and> list_all (\<lambda>m. dOffset m < cur) (snd s)) cs \<and>
     set (mkeys (dhFiles d)) = set (map fst cs @ [cur]) \<and> mwf (dhFiles d) \<and> mwf (dhCompacted d) \<and>
     segmentFile d cur = framed ns @ t \<and> (t = [] \<or> torn t) \<and> list_all writable ns \<and>
     run ns (unat cur) b \<and> unat cur \<le> b \<and> b < 2 ^ 64 \<and>
     list_all (\<lambda>e. genuine ns e \<or> length (framed ns) \<le> iePosition e \<and> \<not> indexEntryMatchesRecord (framed ns @ t) e)
       (segmentIndex d cur)"

lemma map_of_filter_mwf:
  "mwf m \<Longrightarrow> map_of (filter P m) k = (case map_of m k of None \<Rightarrow> None | Some v \<Rightarrow> if P (k, v) then Some v else None)"
proof (induction m)
  case (Cons x m)
  have "map_of m (fst x) = None" using Cons.prems by (simp add: mwf_def map_of_eq_None_iff)
  with Cons show ?case by (cases x) (auto simp: mwf_def)
qed simp

lemma mwf_filter: "mwf m \<Longrightarrow> mwf (filter P m)"
  by (simp add: mwf_def distinct_map_filter)

lemma gaps_loadCompactionMarkers:
  assumes "mwf (dhCompacted d)" and "base \<in> set (mkeys (dhFiles d))"
  shows "map_of (loadCompactionMarkers d) base = Some (length (segmentFile d base)) \<longleftrightarrow>
         segmentAllowsOffsetGaps d base (length (segmentFile d base))"
  using assms by (auto simp: loadCompactionMarkers_def segmentAllowsOffsetGaps_def map_of_filter_mwf split: option.splits)

lemma sort_bases:
  fixes cur :: u64
  assumes "mwf m" and "set (mkeys m) = set (bs @ [cur])" and "sorted_wrt (<) (bs @ [cur])"
  shows "sort (mkeys m) = bs @ [cur]"
proof (rule sorted_distinct_set_unique)
  show "distinct (sort (mkeys m))" using assms(1) by (simp add: mwf_def mkeys_def)
qed (use assms(2,3) strict_sorted_iff [of "bs @ [cur]"] in auto)

lemma indexPrefix_good: "e \<in> set (indexPrefix good prev index) \<Longrightarrow> good e \<and> e \<in> set index"
  by (induction index arbitrary: prev) (auto split: if_splits)

lemma open_image:
  assumes im: "segment_image d cs cur ns t b"
  shows "\<exists>d2. newDiskHandler False d = Inr d2 \<and> disk_rep d2 cs ns \<and> dhWriteCh d2 = [] \<and>
              dhAbsoluteOffset d2 = word_of_nat b \<and> dhSynced d2 = dhCurrentOffset d2"
proof -
  note im' = im [unfolded segment_image_def]
  have "sorted_wrt (<) (map fst cs)"
    using im' by (auto simp: sorted_wrt_map elim!: sorted_wrt_mono_rel [rotated])
  with im' have srt: "sorted_wrt (<) (map fst cs @ [cur])" by (auto simp: sorted_wrt_append list_all_iff)
  have bases: "sort (mkeys (dhFiles d)) = map fst cs @ [cur]"
    by (rule sort_bases) (use im' srt in auto)
  have sane: "list_all (index_sane ns (framed ns @ t)) (segmentIndex d cur)"
    using im' by (auto simp: list_all_iff index_sane_def)
  have rec: "recoverActiveSegmentMode (segmentFile d cur) (segmentIndex d cur) cur False =
      Inr \<lparr>srFile = framed ns, srValidBytes = length (framed ns), srNextOffset = word_of_nat b\<rparr>"
    using recover_framed [of ns cur b t "segmentIndex d cur" False] im' sane by simp
  define d1 where "d1 = d\<lparr>dhCurrentOffset := length (framed ns), dhAbsoluteOffset := word_of_nat b, dhCurrentSegment := cur,
      dhSegments := map fst cs @ [cur], dhFlushedOffset := word_of_nat b, dhCompacted := loadCompactionMarkers d,
      dhWriteFailure := False, dhWriteCh := [], dhFiles := mput cur (framed ns) (dhFiles d), dhSynced := length (framed ns)\<rparr>"
  define valid where "valid = validIndexPrefix (length (framed ns)) (take (dhIndexSize d div IndexEntrySize) (segmentIndex d cur))"
  have new: "newDiskHandler False d = Inr (openIndexFiles d1)"
    by (simp add: newDiskHandler_def bases rec d1_def)
  have d2: "openIndexFiles d1 = d1\<lparr>dhIndexes := mput cur valid (dhIndexes d1),
      dhIndexBytesWritten := IndexEntrySize * length valid, dhLastIndexPosition := (if valid = [] then 0 else iePosition (last valid))\<rparr>"
    by (simp add: openIndexFiles_def valid_def d1_def Let_def)
  have valid: "genuine ns e \<and> iePosition e < length (framed ns)" if "e \<in> set valid" for e
  proof -
    have "iePosition e < length (framed ns)" "e \<in> set (segmentIndex d cur)"
      using indexPrefix_good that unfolding valid_def validIndexPrefix_def by (blast dest: in_set_takeD)+
    with im' show ?thesis by (auto simp: list_all_iff)
  qed
  have b: "unat (word_of_nat b :: u64) = b" using im' by (simp add: unsigned_of_nat take_bit_nat_eq_self)
  have act: "active_segment (openIndexFiles d1) ns"
    using im' b valid last_in_set [of valid] unfolding d2
    by (auto simp: active_segment_def d1_def list_all_iff word_le_nat_alt intro: less_imp_le)
  have closed: "closed_segment (openIndexFiles d1) (fst s) (snd s)" if s: "s \<in> set cs" for s
  proof -
    have c: "closed_segment d (fst s) (snd s)" "fst s < cur" using im' s by (auto simp: list_all_iff)
    moreover have "fst s \<in> set (mkeys (dhFiles d))" using im' s by auto
    then have "segmentAllowsOffsetGaps (openIndexFiles d1) (fst s) (length (framed (snd s))) \<longleftrightarrow>
               segmentAllowsOffsetGaps d (fst s) (length (framed (snd s)))"
      using gaps_loadCompactionMarkers [of d "fst s"] im' c(1)
      unfolding d2 by (simp add: segmentAllowsOffsetGaps_def d1_def closed_segment_def)
    moreover have "segmentFile (openIndexFiles d1) (fst s) = segmentFile d (fst s)"
      "segmentIndex (openIndexFiles d1) (fst s) = segmentIndex d (fst s)"
      using c(2) unfolding d2 by (auto simp: d1_def)
    ultimately show ?thesis by (simp add: closed_segment_def)
  qed
  have fields: "dhSegments (openIndexFiles d1) = map fst cs @ [cur]" "dhCurrentSegment (openIndexFiles d1) = cur"
    "dhFiles (openIndexFiles d1) = mput cur (framed ns) (dhFiles d)" "dhWriteCh (openIndexFiles d1) = []"
    "dhCompacted (openIndexFiles d1) = loadCompactionMarkers d" "\<not> dhWriteFailure (openIndexFiles d1)"
    "dhFlushedOffset (openIndexFiles d1) = dhAbsoluteOffset (openIndexFiles d1)"
    "dhAbsoluteOffset (openIndexFiles d1) = word_of_nat b" "dhSynced (openIndexFiles d1) = dhCurrentOffset (openIndexFiles d1)"
    by (simp_all only: d2) (simp_all add: d1_def)
  have "mwf (loadCompactionMarkers d)" using im' by (simp add: loadCompactionMarkers_def mwf_filter)
  then have "disk_rep (openIndexFiles d1) cs ns"
    using im' act closed unfolding disk_rep_def fields by (auto simp: list_all_iff fields)
  with new fields show ?thesis by blast
qed

subsection \<open>Crash and restart\<close>

text \<open>
  A crash keeps the first \<open>c\<close> bytes of the active segment and \<open>i\<close> entries of its index, and loses the queue.
  The bytes that crossed \<open>fsync\<close> survive: \<open>dhSynced d \<le> c\<close>.
\<close>

definition crashImage :: "nat \<Rightarrow> nat \<Rightarrow> diskHandler \<Rightarrow> diskHandler" where
  "crashImage c i d =
     d\<lparr>dhFiles := mput (dhCurrentSegment d) (take c (segmentFile d (dhCurrentSegment d))) (dhFiles d),
       dhIndexes := mput (dhCurrentSegment d) (take i (segmentIndex d (dhCurrentSegment d))) (dhIndexes d),
       dhWriteCh := []\<rparr>"

lemma run_prefix:
  assumes "run (ns @ rest) a b"
  shows "run ns a (a + length ns)" and "a \<le> b \<Longrightarrow> a + length ns \<le> b"
proof -
  have l: "length (ns @ rest) = b - a" using assms by (rule run_length)
  have "map off ns = take (length ns) [a..<b]" using assms by (metis append_eq_conv_conj length_map map_append)
  also have "\<dots> = [a..<a + length ns]" using l by (cases ns) (simp_all add: take_upt)
  finally show "run ns a (a + length ns)" .
  show "a \<le> b \<Longrightarrow> a + length ns \<le> b" using l by simp
qed

lemma crash_open:
  assumes rep: "disk_rep d cs ms"
  shows "\<exists>d2 ns rest. newDiskHandler False (crashImage c i d) = Inr d2 \<and> ms = ns @ rest \<and> disk_rep d2 cs ns \<and>
           dhWriteCh d2 = [] \<and> dhAbsoluteOffset d2 = dhCurrentSegment d + word_of_nat (length ns) \<and>
           (\<forall>as. prefix as ms \<longrightarrow> length (framed as) \<le> c \<longrightarrow> prefix as ns)"
proof -
  let ?cur = "dhCurrentSegment d" and ?im = "crashImage c i d"
  have act: "active_segment d ms" using rep by (simp add: disk_rep_def)
  then have w: "list_all writable ms" and r: "run ms (unat ?cur) (unat (dhFlushedOffset d))"
    by (simp_all add: active_segment_def)
  from w obtain ns rest t where cut: "ms = ns @ rest" "take c (framed ms) = framed ns @ t"
    and t: "t = [] \<or> (\<exists>r rest' k. rest = r # rest' \<and> k < length (frame r) \<and> t = take k (frame r))"
    and keep: "\<And>as. prefix as ms \<Longrightarrow> length (framed as) \<le> c \<Longrightarrow> prefix as ns"
    by (rule take_framed [where c = c]) blast
  have t': "t = [] \<or> torn t" using t w cut(1) by (auto simp: torn_def)
  note r' = run_prefix [OF r [unfolded cut(1)]]
  have b: "unat ?cur + length ns \<le> unat (dhFlushedOffset d)" using r'(2) act by (simp add: active_segment_def word_le_nat_alt)
  have entries: "genuine ns e \<or> length (framed ns) \<le> iePosition e \<and> \<not> indexEntryMatchesRecord (framed ns @ t) e"
    if "e \<in> set (segmentIndex d ?cur)" for e
  proof -
    have g: "genuine (ns @ rest) e" using act that cut(1) by (simp add: active_segment_def list_all_iff)
    show ?thesis
    proof (cases "iePosition e < length (framed ns)")
      case True
      with g show ?thesis by (blast intro: genuine_prefix)
    next
      case False
      with g show ?thesis using genuine_past_cut [OF g _ t] w cut(1) by simp
    qed
  qed
  have closed: "closed_segment ?im (fst s) (snd s)" if "s \<in> set cs" for s
  proof -
    from rep that have c: "closed_segment d (fst s) (snd s)" and ne: "fst s < ?cur" by (auto simp: disk_rep_def list_all_iff)
    from c show ?thesis by (rule closed_segment_cong) (use ne in \<open>auto simp: crashImage_def\<close>)
  qed
  have "segment_image ?im cs ?cur ns t (unat ?cur + length ns)"
    using rep closed t' w cut r'(1) b unat_u64_bound [of "dhFlushedOffset d"] entries act
    unfolding segment_image_def disk_rep_def
    by (auto simp: crashImage_def active_segment_def list_all_iff dest: in_set_takeD)
  from open_image [OF this] cut(1) keep show ?thesis by force
qed


lemma mput_mput [simp]: "mput k v (mput k w m) = mput k v m"
  by (simp add: mput_def)

lemma newDiskHandler_cong:
  assumes "dhFiles d' = dhFiles d" and "dhIndexes d' = dhIndexes d" and "dhCompacted d' = dhCompacted d"
    and "dhSegmentSize d' = dhSegmentSize d" and "dhIndexSize d' = dhIndexSize d" and "dhIndexInterval d' = dhIndexInterval d"
  shows "newDiskHandler strict d' = newDiskHandler strict d"
  using assms
  by (cases d; cases d')
     (simp add: newDiskHandler_def segmentFile_def segmentIndex_def openIndexFiles_def loadCompactionMarkers_def Let_def
       cong: sum.case_cong)

text \<open>A write that fails leaves the files of the write that succeeds, cut within the batch.\<close>

lemma writeBatch_fault:
  assumes "writeBatch batch True (Some k) d = (err, df)" and "writeBatch batch True None d = (None, d1)"
    and "batch \<noteq> []" and "\<not> dhWriteFailure d" and "dhSynced d = dhCurrentOffset d"
    and "length (segmentFile d1 (dhCurrentSegment d1)) = dhCurrentOffset d1"
  shows "newDiskHandler strict (crashImage c i df) = newDiskHandler strict (crashImage (min c (dhSynced df + k)) i d1)"
    and "dhCurrentOffset d1 = dhSynced df + length (framed batch)" and "err = Some WriteFailed"
proof -
  obtain frames where fr: "serializeBatch batch = Inr frames"
    using assms(2-4) by (auto simp: writeBatch_def split: sum.splits)
  then have frames: "concat frames = framed batch" using serializeBatch_Inr [of batch frames] by (simp add: framed_def)
  obtain c' where c: "c' \<longleftrightarrow> (dhCurrentOffset d + length (framed batch) > dhSegmentSize d \<or>
      dhIndexBytesWritten d + (length (framed batch) div indexInterval d + 1) * IndexEntrySize > dhIndexSize d)"
    by blast
  define dr where "dr = (if c' then rotateSegment (dOffset (hd batch)) d else d)"
  define de where "de = addIndexEntries (batchIndex (indexInterval dr) (dhCurrentOffset dr) (dhLastIndexPosition dr) (zip batch frames)) dr"
  have df: "df = (appendBytes (take k (framed batch)) de)\<lparr>dhWriteFailure := True\<rparr>" and "err = Some WriteFailed"
    using assms(1,3,4) fr frames c by (auto simp: writeBatch_def Let_def dr_def de_def)
  then show "err = Some WriteFailed" by simp
  have d1: "d1 = (let d = appendBytes (framed batch) de; nf = dOffset (last batch) + 1
      in d\<lparr>dhCurrentOffset := dhCurrentOffset d + length (framed batch),
           dhAbsoluteOffset := (if nf \<le> dhAbsoluteOffset d then dhAbsoluteOffset d else nf), dhFlushedOffset := nf,
           dhSynced := dhCurrentOffset d + length (framed batch)\<rparr>)"
    using assms(2-4) fr frames c by (auto simp: writeBatch_def Let_def dr_def de_def)
  have "dhSynced dr = dhCurrentOffset dr"
    using assms(5) by (auto simp: dr_def rotateSegment_def openIndexFiles_def openSegment_def Let_def)
  then have sync: "dhSynced de = dhCurrentOffset de" by (simp add: de_def addIndexEntries_def)
  then show off: "dhCurrentOffset d1 = dhSynced df + length (framed batch)" by (simp add: d1 df Let_def appendBytes_def)
  have F: "length (segmentFile de (dhCurrentSegment de)) = dhSynced de"
    using assms(6) off by (simp add: d1 df Let_def appendBytes_def)
  then have "take c (segmentFile de (dhCurrentSegment de) @ take k (framed batch)) =
        take (min c (dhSynced de + k)) (segmentFile de (dhCurrentSegment de) @ framed batch)"
    by (cases "c \<le> dhSynced de + k") (auto simp: min_def)
  then show "newDiskHandler strict (crashImage c i df) = newDiskHandler strict (crashImage (min c (dhSynced df + k)) i d1)"
    by (intro newDiskHandler_cong) (simp_all add: crashImage_def d1 df Let_def appendBytes_def)
qed


lemma GetFirstOffset_rep: "disk_rep d cs ms \<Longrightarrow> GetFirstOffset d = hd (map fst cs @ [dhCurrentSegment d])"
  by (cases cs) (simp_all add: GetFirstOffset_def disk_rep_def)

lemma rep_of_run:
  assumes "disk_rep d cs ms"
  shows "dhFlushedOffset d = dhCurrentSegment d + word_of_nat (length ms)"
proof -
  have "run ms (unat (dhCurrentSegment d)) (unat (dhFlushedOffset d))" "dhCurrentSegment d \<le> dhFlushedOffset d"
    using assms by (simp_all add: disk_rep_def active_segment_def)
  from run_length [OF this(1)] this(2) have "unat (dhFlushedOffset d) = unat (dhCurrentSegment d) + length ms"
    by (simp add: word_le_nat_alt)
  then have "(word_of_nat (unat (dhFlushedOffset d)) :: u64) = word_of_nat (unat (dhCurrentSegment d) + length ms)" by simp
  then show ?thesis by simp
qed

text \<open>What a crash leaves of a log whose last \<open>batch\<close> may be torn: the records before it, and a prefix of it.\<close>

lemma crash_keeps:
  assumes rep: "disk_rep d1 cs (ms @ bs)" and c: "length (framed ms) \<le> c" and q: "dhWriteCh d1 = []"
  shows "\<exists>d2 n. newDiskHandler False (crashImage c i d1) = Inr d2 \<and> disk_wf d2 \<and> dhWriteCh d2 = [] \<and> n \<le> length bs \<and>
     disk_log d2 = concat (map snd cs) @ ms @ take n bs \<and> GetFirstOffset d2 = GetFirstOffset d1 \<and>
     dhAbsoluteOffset d2 + word_of_nat (length bs - n) = dhAbsoluteOffset d1 \<and>
     (length (framed (ms @ bs)) \<le> c \<longrightarrow> n = length bs)"
proof -
  obtain d2 ns rest where d2: "newDiskHandler False (crashImage c i d1) = Inr d2" "ms @ bs = ns @ rest" "disk_rep d2 cs ns"
      "dhWriteCh d2 = []" "dhAbsoluteOffset d2 = dhCurrentSegment d1 + word_of_nat (length ns)"
    and keep: "\<And>as. prefix as (ms @ bs) \<Longrightarrow> length (framed as) \<le> c \<Longrightarrow> prefix as ns"
    using crash_open [OF rep, of c i] by blast
  from keep [of ms] c obtain us where us: "ns = ms @ us" by (auto simp: prefix_def)
  with d2(2) have bs: "bs = us @ rest" by simp
  have abs: "dhAbsoluteOffset d1 = dhCurrentSegment d1 + word_of_nat (length (ms @ bs))"
    using rep_of_run [OF rep] empty_queue_flushed [OF rep q] by simp
  have "us = bs" if "length (framed (ms @ bs)) \<le> c"
    using keep [of "ms @ bs"] that us bs by (auto simp: prefix_def)
  moreover have "disk_log d2 = concat (map snd cs) @ ms @ us" using disk_log_rep [OF d2(3)] us by simp
  moreover have "GetFirstOffset d2 = GetFirstOffset d1"
  proof -
    have "dhCurrentSegment d2 = dhCurrentSegment d1"
      using rep_of_run [OF d2(3)] empty_queue_flushed [OF d2(3,4)] d2(5) by simp
    then show ?thesis using GetFirstOffset_rep [OF rep] GetFirstOffset_rep [OF d2(3)] by simp
  qed
  ultimately show ?thesis
    using d2(1,3,4) abs d2(5) us bs
    by (intro exI [of _ d2] exI [of _ "length us"]) (auto simp: disk_wf_def algebra_simps)
qed


lemma writeBatch_end:
  assumes "writeBatch batch True None d = (None, d1)" and "batch \<noteq> []"
  shows "dhAbsoluteOffset d1 = max (dhAbsoluteOffset d) (dOffset (last batch) + 1)" and "dhWriteCh d1 = dhWriteCh d"
    and "dhSynced d1 = dhCurrentOffset d1"
  using assms
  by (auto simp: writeBatch_def Let_def appendBytes_def addIndexEntries_def rotateSegment_def openIndexFiles_def
      openSegment_def max_def split: sum.splits if_splits)

lemma writeBatch_crash:
  assumes rep: "disk_rep d cs ms" and q: "dhWriteCh d = []" and synced: "dhSynced d = dhCurrentOffset d"
    and batch: "batch \<noteq> []" "run batch (unat (dhAbsoluteOffset d)) b" "dOffset (last batch) + 1 \<noteq> 0"
    and fr: "serializeBatch batch = Inr frames"
    and wr: "writeBatch batch True fault d = (err, df)" and c: "dhSynced df \<le> c"
  shows "\<exists>d2 n. newDiskHandler False (crashImage c i df) = Inr d2 \<and> disk_wf d2 \<and> dhWriteCh d2 = [] \<and> n \<le> length batch \<and>
     disk_log d2 = disk_log d @ map stored (take n batch) \<and> GetFirstOffset d2 = GetFirstOffset d \<and>
     dhAbsoluteOffset d2 + word_of_nat (length batch - n) = dOffset (last batch) + 1 \<and> (err = None \<longrightarrow> n = length batch)"
proof -
  have fl: "dhFlushedOffset d = dhAbsoluteOffset d" by (rule empty_queue_flushed [OF rep q])
  have ok: "\<not> dhWriteFailure d" using rep by (simp add: disk_rep_def)
  obtain d1 where d1: "writeBatch batch True None d = (None, d1)"
    using ok fr batch(1) by (auto simp: writeBatch_def Let_def)
  have nf: "unat (dOffset (last batch) + 1) = b" "dhAbsoluteOffset d < dOffset (last batch) + 1"
    using run_last_word [OF batch(2,1,3)] by simp_all
  have end1: "dhAbsoluteOffset d1 = dOffset (last batch) + 1" "dhWriteCh d1 = []" "dhSynced d1 = dhCurrentOffset d1"
    using writeBatch_end [OF d1 batch(1)] nf(2) q by simp_all
  obtain cs' ms' where rep1: "disk_rep (d1\<lparr>dhWriteCh := []\<rparr>) cs' (ms' @ map stored batch)"
    and log: "concat (map snd cs') @ ms' = concat (map snd cs) @ ms" and first: "GetFirstOffset d1 = GetFirstOffset d"
    using writeBatch_parts [OF rep batch(1) _ batch(3) d1, of b "[]"] batch(2) fl nf(1) end1 by auto
  moreover have "d1\<lparr>dhWriteCh := []\<rparr> = d1" using end1(2) by (cases d1) simp
  ultimately have rep1: "disk_rep d1 cs' (ms' @ map stored batch)" by simp
  then have len: "dhCurrentOffset d1 = length (framed (ms' @ map stored batch))"
    "length (segmentFile d1 (dhCurrentSegment d1)) = dhCurrentOffset d1"
    by (simp_all add: disk_rep_def active_segment_def)
  have log0: "disk_log d = concat (map snd cs') @ ms'" using disk_log_rep [OF rep] log by simp
  have "\<exists>c'. newDiskHandler False (crashImage c i df) = newDiskHandler False (crashImage c' i d1) \<and>
            length (framed ms') \<le> c' \<and> (err = None \<longrightarrow> length (framed (ms' @ map stored batch)) \<le> c')"
  proof (cases fault)
    case None
    with wr d1 c len end1(3) show ?thesis by (intro exI [of _ c]) simp
  next
    case (Some k)
    note f = writeBatch_fault [OF wr [unfolded Some] d1 batch(1) ok synced len(2)]
    from f(2,3) len(1) c have "length (framed ms') \<le> min c (dhSynced df + k)" "err \<noteq> None" by simp_all
    with f(1) show ?thesis by blast
  qed
  then obtain c' where c': "newDiskHandler False (crashImage c i df) = newDiskHandler False (crashImage c' i d1)"
    "length (framed ms') \<le> c'" "err = None \<longrightarrow> length (framed (ms' @ map stored batch)) \<le> c'" by blast
  from crash_keeps [OF rep1 c'(2) end1(2), of i] show ?thesis
    using c'(1,3) log0 first end1(1) by (auto simp: take_map)
qed


text \<open>A partition without files starts with the empty log.\<close>

lemma newDiskHandler_fresh:
  assumes "dhFiles d = []" and "dhIndexes d = []" and "dhCompacted d = []" and "newDiskHandler strict d = Inr d2"
  shows "disk_rep d2 [] []" and "dhWriteCh d2 = []" and "dhAbsoluteOffset d2 = 0" and "dhSynced d2 = dhCurrentOffset d2"
proof -
  have d2: "d2 = d\<lparr>dhCurrentOffset := 0, dhAbsoluteOffset := 0, dhCurrentSegment := 0, dhSegments := [0], dhFlushedOffset := 0,
      dhCompacted := [], dhWriteFailure := False, dhWriteCh := [], dhFiles := mput 0 [] [], dhSynced := 0,
      dhIndexes := mput 0 [] [], dhIndexBytesWritten := 0, dhLastIndexPosition := 0\<rparr>"
    using assms by (simp add: newDiskHandler_def mkeys_def loadCompactionMarkers_def openIndexFiles_def)
  show "disk_rep d2 [] []"
    by (simp add: d2 disk_rep_def active_segment_def segmentFile_def segmentIndex_def mput_def mkeys_def mwf_def)
  show "dhWriteCh d2 = []" "dhAbsoluteOffset d2 = 0" "dhSynced d2 = dhCurrentOffset d2" by (simp_all add: d2)
qed


text \<open>C3: A batch whose synchronous append was acknowledged survives a crash and restart whole; a batch whose append
  failed or was rejected survives as a prefix of it, and nothing that was synced before is lost. The crash may
  cut the active segment anywhere after its synced bytes and lose any part of its index.
\<close>

theorem synced_append_survives_crash:
  assumes "disk_wf d" and "dhWriteCh d = []" and "dhSynced d = dhCurrentOffset d"
    and "run batch (unat (dhAbsoluteOffset d)) b" and "batch \<noteq> []" and "dOffset (last batch) + 1 \<noteq> 0"
    and "WriteBatchSync batch fault d = (err, d1)" and "dhSynced d1 \<le> c"
  shows "\<exists>d2 n. newDiskHandler False (crashImage c i d1) = Inr d2 \<and> disk_wf d2 \<and>
     disk_log d2 = disk_log d @ map stored (take n batch) \<and> n \<le> length batch \<and> (err = None \<longrightarrow> n = length batch) \<and>
     GetFirstOffset d2 = GetFirstOffset d"
proof -
  from assms(1) obtain cs ms where rep: "disk_rep d cs ms" by (auto simp: disk_wf_def)
  note wr = assms(7) [unfolded WriteBatchSync_def]
  show ?thesis
  proof (cases "serializeBatch batch")
    case (Inr frames)
    from writeBatch_crash [OF rep assms(2,3,5,4,6) Inr wr assms(8), of i] show ?thesis by blast
  next
    case (Inl e)
    then have d1: "d1 = d" "err \<noteq> None" using wr rep assms(5) by (auto simp: writeBatch_def disk_rep_def)
    have "length (framed ms) \<le> c" using rep assms(3,8) d1 by (simp add: disk_rep_def active_segment_def)
    from crash_keeps [of d cs ms "[]", OF _ this assms(2), of i] rep d1 disk_log_rep [OF rep]
    show ?thesis by (metis append_Nil2 le0 list.map(1) take_Nil take_0)
  qed
qed

text \<open>A handler just opened on an empty directory, and two records for it.\<close>

definition freshHandler :: diskHandler where
  "freshHandler =
     \<lparr>dhSegmentSize = 4096, dhIndexSize = 160, dhIndexInterval = 64, dhCurrentOffset = 0, dhAbsoluteOffset = 0,
      dhCurrentSegment = 0, dhSegments = [0], dhIndexBytesWritten = 0, dhLastIndexPosition = 0, dhFlushedOffset = 0,
      dhCompacted = [], dhWriteFailure = False, dhWriteCh = [], dhFiles = [(0, [])], dhIndexes = [(0, [])], dhSynced = 0\<rparr>"

definition sampleRecord :: "u64 \<Rightarrow> string \<Rightarrow> string \<Rightarrow> diskMessage" where
  "sampleRecord offset key payload =
     zeroDiskMessage\<lparr>dTopic := ''orders'', dOffset := offset, dKey := key, dPayload := payload\<rparr>"

lemma freshHandler_rep: "disk_rep freshHandler [] []"
  by (simp add: freshHandler_def disk_rep_def active_segment_def segmentFile_def segmentIndex_def mkeys_def mwf_def)

theorem synced_append_survives_crash_witness:
  "\<exists>d2 n. newDiskHandler False (crashImage 40 1 (snd (WriteBatchSync [sampleRecord 0 ''a'' ''x'', sampleRecord 1 ''b'' ''y'']
       (Some 50) freshHandler))) = Inr d2 \<and> disk_wf d2 \<and>
     disk_log d2 = map stored (take n [sampleRecord 0 ''a'' ''x'', sampleRecord 1 ''b'' ''y''])"
proof -
  let ?batch = "[sampleRecord 0 ''a'' ''x'', sampleRecord 1 ''b'' ''y'']"
  have "disk_wf freshHandler" using freshHandler_rep by (auto simp: disk_wf_def)
  moreover have "dhWriteCh freshHandler = []" "dhSynced freshHandler = dhCurrentOffset freshHandler"
    "run ?batch (unat (dhAbsoluteOffset freshHandler)) 2" "?batch \<noteq> []" "dOffset (last ?batch) + 1 \<noteq> 0"
    by (simp_all add: freshHandler_def sampleRecord_def upt_rec numeral_2_eq_2)
  moreover have "WriteBatchSync ?batch (Some 50) freshHandler =
      (fst (WriteBatchSync ?batch (Some 50) freshHandler), snd (WriteBatchSync ?batch (Some 50) freshHandler))" by simp
  moreover have "dhSynced (snd (WriteBatchSync ?batch (Some 50) freshHandler)) \<le> 40"
    by (simp add: WriteBatchSync_def writeBatch_def Let_def appendBytes_def addIndexEntries_def rotateSegment_def
        openIndexFiles_def openSegment_def freshHandler_def del: serializeBatch.simps split: sum.splits)
  ultimately have "\<exists>d2 n. newDiskHandler False (crashImage 40 1 (snd (WriteBatchSync ?batch (Some 50) freshHandler))) = Inr d2 \<and>
      disk_wf d2 \<and> disk_log d2 = disk_log freshHandler @ map stored (take n ?batch)"
    using synced_append_survives_crash [of freshHandler ?batch 2 "Some 50" _ _ 40 1] by blast
  then show ?thesis using disk_log_rep [OF freshHandler_rep] by simp
qed

end
