(* ===== verification/Disk_Compaction.thy ===== *)
theory Disk_Compaction
  imports Disk_Recovery
begin

section \<open>Compaction keeps what matters of the log\<close>

text \<open>
  \<open>EnforceCompaction\<close> as an operation on the log: the scan of the closed segments finds their records, the latest
  offsets per key and per producer say which of them go, and the rewritten segments represent the filtered log.
\<close>

subsection \<open>The scan of the closed segments\<close>

definition scanned :: "diskMessage \<Rightarrow> compactionFrame" where
  "scanned m = \<lparr>cfMessage = m, cfRaw = frame m\<rparr>"

lemma scanned_simps [simp]: "cfMessage (scanned m) = m" "cfRaw (scanned m) = frame m"
  by (simp_all add: scanned_def)

lemma cfMessage_scanned [simp]: "cfMessage \<circ> scanned = (\<lambda>m. m)" "cfRaw \<circ> scanned = frame"
  by (simp_all add: comp_def)

lemma scanSegment_closed:
  assumes "closed_segment d base ms"
  shows "scanSegment d base = Inr (map scanned ms)"
  using assms compactionScan_framed [of ms "segmentAllowsOffsetGaps d base (length (framed ms))" None base]
  by (simp add: scanSegment_def scanCompactionSegment_def closed_segment_def scanned_def [abs_def])

lemma scanSegments_closed:
  "list_all (\<lambda>s. closed_segment d (fst s) (snd s)) cs \<Longrightarrow>
   scanSegments d (map fst cs) = Inr (map (\<lambda>s. (fst s, map scanned (snd s))) cs)"
  by (induction cs) (auto dest!: scanSegment_closed)

lemma closedSegments_rep:
  assumes "disk_rep d cs ms"
  shows "sort (filter (\<lambda>segment. segment \<noteq> dhCurrentSegment d) (dhSegments d)) = map fst cs"
proof -
  have "fst s \<noteq> dhCurrentSegment d" if "s \<in> set cs" for s using assms that by (auto simp: disk_rep_def list_all_iff)
  then have "filter (\<lambda>segment. segment \<noteq> dhCurrentSegment d) (map fst cs) = map fst cs" by (auto simp: filter_id_conv)
  moreover have "sorted (map fst cs)"
    using assms by (auto simp: disk_rep_def sorted_map elim!: sorted_wrt_mono_rel [rotated] intro: less_imp_le)
  ultimately show ?thesis using assms by (simp add: disk_rep_def sorted_sort_id)
qed

subsection \<open>The latest offsets\<close>

definition latest_of :: "diskMessage list \<Rightarrow> (string, u64) gomap \<times> (string, u64) gomap" where
  "latest_of ms = fold noteLatest ms ([], [])"

lemma latest_of_snoc [simp]: "latest_of [] = ([], [])" "latest_of (ms @ [m]) = noteLatest m (latest_of ms)"
  by (simp_all add: latest_of_def)

lemma latest_key:
  "m \<in> set ms \<Longrightarrow> isOrdinaryKeyedRecord m \<Longrightarrow>
   \<exists>l\<in>set ms. isOrdinaryKeyedRecord l \<and> dKey l = dKey m \<and> latestOf (fst (latest_of ms)) (dKey m) = dOffset l \<and>
     (sorted_wrt (\<lambda>a b. dOffset a < dOffset b) ms \<longrightarrow> dOffset m \<le> dOffset l)"
proof (induction ms rule: rev_induct)
  case (snoc x ms)
  show ?case
  proof (cases "isOrdinaryKeyedRecord x \<and> dKey x = dKey m")
    case True
    with snoc.prems show ?thesis
      by (intro bexI [of _ x]) (auto simp: noteLatest_def latestOf_def sorted_wrt_append)
  next
    case False
    with snoc obtain l where "l \<in> set ms" "isOrdinaryKeyedRecord l" "dKey l = dKey m"
      "latestOf (fst (latest_of ms)) (dKey m) = dOffset l"
      "sorted_wrt (\<lambda>a b. dOffset a < dOffset b) ms \<longrightarrow> dOffset m \<le> dOffset l" by auto
    with False show ?thesis by (intro bexI [of _ l]) (auto simp: noteLatest_def latestOf_def sorted_wrt_append)
  qed
qed simp

lemma latest_producer:
  "m \<in> set ms \<Longrightarrow> dProducerID m \<noteq> [] \<Longrightarrow>
   \<exists>l\<in>set ms. dProducerID l = dProducerID m \<and> latestOf (snd (latest_of ms)) (dProducerID m) = dOffset l \<and>
     (sorted_wrt (\<lambda>a b. dOffset a < dOffset b) ms \<longrightarrow> dOffset m \<le> dOffset l)"
proof (induction ms rule: rev_induct)
  case (snoc x ms)
  show ?case
  proof (cases "dProducerID x = dProducerID m")
    case True
    with snoc.prems show ?thesis
      by (intro bexI [of _ x]) (auto simp: noteLatest_def latestOf_def sorted_wrt_append)
  next
    case False
    with snoc obtain l where "l \<in> set ms" "dProducerID l = dProducerID m"
      "latestOf (snd (latest_of ms)) (dProducerID m) = dOffset l"
      "sorted_wrt (\<lambda>a b. dOffset a < dOffset b) ms \<longrightarrow> dOffset m \<le> dOffset l" by auto
    with False show ?thesis by (intro bexI [of _ l]) (auto simp: noteLatest_def latestOf_def sorted_wrt_append)
  qed
qed simp

subsection \<open>Rewriting the segments\<close>

definition kept :: "(string, u64) gomap \<times> (string, u64) gomap \<Rightarrow> diskMessage \<Rightarrow> bool" where
  "kept latest m \<longleftrightarrow> \<not> shouldRemoveCompactionRecord m (fst latest) (snd latest)"

lemma removableBytes_0: "removableBytes latest (map scanned ms) = 0 \<longleftrightarrow> filter (kept latest) ms = ms"
  by (auto simp: removableBytes_def kept_def filter_id_conv)

lemma filter_length_eq: "length (filter P xs) = length xs \<longleftrightarrow> filter P xs = xs"
proof
  assume "length (filter P xs) = length xs"
  then have "\<not> (\<exists>x\<in>set xs. \<not> P x)" using length_filter_less [of _ xs P] by fastforce
  then show "filter P xs = xs" by (simp add: filter_id_conv)
qed simp

lemma follows_gaps: "follows gaps prev ms \<Longrightarrow> follows True prev ms"
  by (induction ms arbitrary: prev) (auto split: option.splits)

lemma follows_skip: "follows True prev (m # ms) \<Longrightarrow> follows True prev ms"
  by (cases ms; cases prev) auto

lemma follows_filter:
  assumes "follows gaps prev ms"
  shows "follows True prev (filter P ms)"
  using follows_gaps [OF assms]
proof (induction ms arbitrary: prev)
  case (Cons m ms)
  show ?case
  proof (cases "P m")
    case False
    with Cons.IH [OF follows_skip [OF Cons.prems]] show ?thesis by simp
  qed (use Cons in auto)
qed simp

lemma compacted_segment_closed:
  assumes "closed_segment d base ms" and "segmentFile d' base = framed (filter P ms)"
    and "segmentIndex d' base = batchIndex interval 0 0 (zip (filter P ms) (map frame (filter P ms)))"
    and "segmentAllowsOffsetGaps d' base (length (framed (filter P ms)))"
  shows "closed_segment d' base (filter P ms)"
proof -
  have "genuine (filter P ms) e" if "e \<in> set (segmentIndex d' base)" for e
  proof -
    have "map stored (filter P ms) = filter P ms"
      using assms(1) by (intro map_idI) (auto simp: closed_segment_def list_all_iff writable_def)
    then show ?thesis
      using batchIndex_genuine [of e interval "[]" 0 "filter P ms"] that assms(3) by simp
  qed
  with assms follows_filter [of _ None ms P] show ?thesis
    by (auto simp: closed_segment_def list_all_iff)
qed


lemma compactClosedSegment_scan:
  assumes "closed_segment d base ns"
  shows "compactClosedSegment base latest d =
    (let ns' = filter (kept latest) ns
     in if ns' = ns then Inr d
        else Inr (d\<lparr>dhFiles := mput base (framed ns') (dhFiles d),
                    dhIndexes := mput base (batchIndex (indexInterval d) 0 0 (zip ns' (map frame ns'))) (dhIndexes d),
                    dhCompacted := mput base (length (framed ns')) (dhCompacted d)\<rparr>))"
proof -
  have "filter (\<lambda>f. \<not> shouldRemoveCompactionRecord (cfMessage f) (fst latest) (snd latest)) (map scanned ns) =
      map scanned (filter (kept latest) ns)"
    by (simp add: filter_map comp_def kept_def [abs_def])
  with filter_length_eq [of "kept latest" ns] show ?thesis
    by (simp add: compactClosedSegment_def scanSegment_closed [OF assms] Let_def framed_def)
qed

lemma compactClosedSegment_rep:
  assumes rep: "disk_rep d (as @ (base, ns) # bs) ms"
  shows "\<exists>d'. compactClosedSegment base latest d = Inr d' \<and> disk_rep d' (as @ (base, filter (kept latest) ns) # bs) ms \<and>
     dhCurrentSegment d' = dhCurrentSegment d \<and> dhAbsoluteOffset d' = dhAbsoluteOffset d \<and> dhWriteCh d' = dhWriteCh d"
proof -
  let ?ns = "filter (kept latest) ns"
  have closed: "closed_segment d base ns" using rep by (simp add: disk_rep_def)
  note scan = compactClosedSegment_scan [OF closed, of latest]
  show ?thesis
  proof (cases "?ns = ns")
    case True
    with scan rep show ?thesis by simp
  next
    case False
    define d' where "d' = d\<lparr>dhFiles := mput base (framed ?ns) (dhFiles d),
        dhIndexes := mput base (batchIndex (indexInterval d) 0 0 (zip ?ns (map frame ?ns))) (dhIndexes d),
        dhCompacted := mput base (length (framed ?ns)) (dhCompacted d)\<rparr>"
    have new: "compactClosedSegment base latest d = Inr d'" using False by (simp add: scan d'_def Let_def)
    have fields: "dhSegments d' = dhSegments d" "dhCurrentSegment d' = dhCurrentSegment d" "dhWriteCh d' = dhWriteCh d"
      "dhFlushedOffset d' = dhFlushedOffset d" "dhAbsoluteOffset d' = dhAbsoluteOffset d"
      "dhWriteFailure d' = dhWriteFailure d" "mwf (dhFiles d) \<Longrightarrow> mwf (dhFiles d')"
      "mwf (dhCompacted d) \<Longrightarrow> mwf (dhCompacted d')" "set (mkeys (dhFiles d')) = insert base (set (mkeys (dhFiles d)))"
      by (simp_all add: d'_def)
    have bases: "fst s \<noteq> base" if "s \<in> set (as @ bs)" for s
      using rep that by (auto simp: disk_rep_def sorted_wrt_append)
    have cur: "dhCurrentSegment d \<noteq> base" "base < dhCurrentSegment d" using rep by (auto simp: disk_rep_def)
    have "closed_segment d' base ?ns"
      by (rule compacted_segment_closed [OF closed]) (simp_all add: d'_def segmentAllowsOffsetGaps_def)
    moreover have "closed_segment d' (fst s) (snd s)" if "s \<in> set (as @ bs)" for s
      using rep that bases [OF that]
      by (auto simp: disk_rep_def list_all_iff closed_segment_def d'_def segmentAllowsOffsetGaps_def)
    moreover have "active_segment d' ms"
      using rep cur(1) unfolding disk_rep_def active_segment_def by (simp add: d'_def)
    moreover have "sorted_wrt before (as @ (base, ?ns) # bs)"
      using rep by (auto simp: disk_rep_def sorted_wrt_append list_all_iff)
    moreover have "list_all (\<lambda>m. dOffset m < dhCurrentSegment d) ?ns" using rep by (simp add: disk_rep_def list_all_iff)
    ultimately have "disk_rep d' (as @ (base, ?ns) # bs) ms"
      using rep fields(7,8) unfolding disk_rep_def fields(1-6,9) by (simp add: list_all_iff insert_absorb)
    with new fields show ?thesis by blast
  qed
qed

lemma compactLoop_rep:
  assumes "disk_rep d (as @ cs) ms"
  shows "\<exists>d'. compactLoop latest (map (\<lambda>s. (fst s, map scanned (snd s))) cs) d = (None, d') \<and>
     disk_rep d' (as @ map (\<lambda>s. (fst s, filter (kept latest) (snd s))) cs) ms \<and>
     dhCurrentSegment d' = dhCurrentSegment d \<and> dhAbsoluteOffset d' = dhAbsoluteOffset d \<and> dhWriteCh d' = dhWriteCh d"
  using assms
proof (induction cs arbitrary: as d)
  case (Cons s cs)
  obtain base ns where s: "s = (base, ns)" by (cases s)
  show ?case
  proof (cases "removableBytes latest (map scanned ns) = 0")
    case True
    then have "filter (kept latest) ns = ns" by (simp add: removableBytes_0)
    with Cons.IH [of d "as @ [s]"] Cons.prems True show ?thesis by (simp add: s)
  next
    case False
    obtain d1 where d1: "compactClosedSegment base latest d = Inr d1"
      "disk_rep d1 (as @ (base, filter (kept latest) ns) # cs) ms" "dhCurrentSegment d1 = dhCurrentSegment d"
      "dhAbsoluteOffset d1 = dhAbsoluteOffset d" "dhWriteCh d1 = dhWriteCh d"
      using compactClosedSegment_rep [of d as base ns cs ms latest] Cons.prems by (auto simp: s)
    with Cons.IH [of d1 "as @ [(base, filter (kept latest) ns)]"] False show ?thesis by (simp add: s)
  qed
qed simp


subsection \<open>A whole pass\<close>

lemma EnforceCompaction_rep:
  assumes rep: "disk_rep d cs ms" and pass: "EnforceCompaction allowed dirtyEnough d = (err, d')"
  shows "err = None \<and> (d' = d \<or>
     disk_rep d' (map (\<lambda>s. (fst s, filter (kept (latest_of (concat (map snd cs)))) (snd s))) cs) ms \<and>
     dhCurrentSegment d' = dhCurrentSegment d \<and> dhAbsoluteOffset d' = dhAbsoluteOffset d \<and> dhWriteCh d' = dhWriteCh d)"
proof -
  have "scanSegments d (map fst cs) = Inr (map (\<lambda>s. (fst s, map scanned (snd s))) cs)"
    using rep by (intro scanSegments_closed) (simp add: disk_rep_def list_all_iff)
  moreover have "map cfMessage (concat (map snd (map (\<lambda>s. (fst s, map scanned (snd s))) cs))) = concat (map snd cs)"
    by (simp add: comp_def map_concat)
  moreover obtain d'' where "compactLoop (latest_of (concat (map snd cs))) (map (\<lambda>s. (fst s, map scanned (snd s))) cs) d = (None, d'')"
      "disk_rep d'' (map (\<lambda>s. (fst s, filter (kept (latest_of (concat (map snd cs)))) (snd s))) cs) ms"
      "dhCurrentSegment d'' = dhCurrentSegment d" "dhAbsoluteOffset d'' = dhAbsoluteOffset d" "dhWriteCh d'' = dhWriteCh d"
    using compactLoop_rep [of d "[]" cs ms "latest_of (concat (map snd cs))"] rep by auto
  ultimately show ?thesis
    using pass unfolding EnforceCompaction_def Let_def closedSegments_rep [OF rep] latest_of_def
    by (auto split: if_splits)
qed

lemma latest_kept:
  assumes srt: "sorted_wrt (\<lambda>m n. dOffset m < dOffset n) ms" and m: "m \<in> set ms" and gone: "\<not> kept (latest_of ms) m"
  shows "isOrdinaryKeyedRecord m"
    and "\<exists>l\<in>set ms. kept (latest_of ms) l \<and> isOrdinaryKeyedRecord l \<and> dKey l = dKey m \<and> dOffset m < dOffset l"
    and "dProducerID m \<noteq> [] \<Longrightarrow> \<exists>l\<in>set ms. kept (latest_of ms) l \<and> dProducerID l = dProducerID m \<and> dOffset m < dOffset l"
proof -
  have removed: "isOrdinaryKeyedRecord m" "latestOf (fst (latest_of ms)) (dKey m) \<noteq> dOffset m"
    "dProducerID m \<noteq> [] \<Longrightarrow> latestOf (snd (latest_of ms)) (dProducerID m) \<noteq> dOffset m"
    using gone by (auto simp: kept_def shouldRemoveCompactionRecord_def split: if_splits)
  then show "isOrdinaryKeyedRecord m" by simp
  from latest_key [OF m removed(1)] obtain l where l: "l \<in> set ms" "isOrdinaryKeyedRecord l" "dKey l = dKey m"
    "latestOf (fst (latest_of ms)) (dKey m) = dOffset l" "dOffset m \<le> dOffset l" using srt by blast
  with removed(2) have "kept (latest_of ms) l" "dOffset m < dOffset l"
    by (simp_all add: kept_def shouldRemoveCompactionRecord_def order.not_eq_order_implies_strict)
  with l show "\<exists>l\<in>set ms. kept (latest_of ms) l \<and> isOrdinaryKeyedRecord l \<and> dKey l = dKey m \<and> dOffset m < dOffset l"
    by blast
  show "\<exists>l\<in>set ms. kept (latest_of ms) l \<and> dProducerID l = dProducerID m \<and> dOffset m < dOffset l" if p: "dProducerID m \<noteq> []"
  proof -
    from latest_producer [OF m p] obtain l where l: "l \<in> set ms" "dProducerID l = dProducerID m"
      "latestOf (snd (latest_of ms)) (dProducerID m) = dOffset l" "dOffset m \<le> dOffset l" using srt by blast
    with removed(3) p have "kept (latest_of ms) l" "dOffset m < dOffset l"
      by (simp_all add: kept_def shouldRemoveCompactionRecord_def order.not_eq_order_implies_strict)
    with l show ?thesis by blast
  qed
qed

lemma EnforceCompaction_log:
  assumes rep: "disk_rep d cs ms" and pass: "EnforceCompaction allowed dirtyEnough d = (err, d')"
    and closed: "closed = concat (map snd cs)"
  shows "d' = d \<or> disk_wf d' \<and> disk_log d' = filter (kept (latest_of closed)) closed @ ms \<and>
    GetFirstOffset d' = GetFirstOffset d \<and> dhAbsoluteOffset d' = dhAbsoluteOffset d"
proof -
  let ?cs = "map (\<lambda>s. (fst s, filter (kept (latest_of closed)) (snd s))) cs"
  have "GetFirstOffset d' = GetFirstOffset d \<and> disk_log d' = filter (kept (latest_of closed)) closed @ ms"
    if "disk_rep d' ?cs ms" "dhCurrentSegment d' = dhCurrentSegment d"
    using that disk_log_rep [OF that(1)] GetFirstOffset_rep [OF rep] GetFirstOffset_rep [OF that(1)]
    by (simp add: closed filter_concat comp_def)
  with EnforceCompaction_rep [OF rep pass] show ?thesis unfolding closed disk_wf_def by blast
qed

text \<open>C15: A compaction pass never fails on a sound log, keeps the log sound, its bounds and the order of its records,
  and drops only ordinary keyed records for which a later ordinary record of the same key stays; of every producer
  the latest record stays. Transactional records and control batches are never dropped.
\<close>

theorem compaction_keeps_latest:
  assumes "disk_wf d" and "EnforceCompaction allowed dirtyEnough d = (err, d')"
  shows "err = None \<and> disk_wf d' \<and> subseq (disk_log d') (disk_log d) \<and>
     GetFirstOffset d' = GetFirstOffset d \<and> dhAbsoluteOffset d' = dhAbsoluteOffset d \<and>
     (\<forall>m\<in>set (disk_log d). m \<notin> set (disk_log d') \<longrightarrow>
       isOrdinaryKeyedRecord m \<and>
       (\<exists>l\<in>set (disk_log d'). isOrdinaryKeyedRecord l \<and> dKey l = dKey m \<and> dOffset m < dOffset l) \<and>
       (dProducerID m \<noteq> [] \<longrightarrow> (\<exists>l\<in>set (disk_log d'). dProducerID l = dProducerID m \<and> dOffset m < dOffset l)))"
proof -
  from assms(1) obtain cs ms where rep: "disk_rep d cs ms" by (auto simp: disk_wf_def)
  obtain closed where closed: "closed = concat (map snd cs)" by blast
  have log: "disk_log d = closed @ ms" using disk_log_rep [OF rep] closed by simp
  have srt: "sorted_wrt (\<lambda>m n. dOffset m < dOffset n) closed"
    using disk_log_order(1) [OF assms(1)] by (simp add: log sorted_wrt_append)
  have err: "err = None" using EnforceCompaction_rep [OF rep assms(2)] by blast
  from EnforceCompaction_log [OF rep assms(2) closed] show ?thesis
  proof (elim disjE conjE)
    assume "d' = d"
    with assms(1) err show ?thesis by simp
  next
    assume d': "disk_wf d'" "disk_log d' = filter (kept (latest_of closed)) closed @ ms"
      "GetFirstOffset d' = GetFirstOffset d" "dhAbsoluteOffset d' = dhAbsoluteOffset d"
    have "subseq (disk_log d') (disk_log d)" unfolding log d'(2) by (rule list_emb_append_mono) simp_all
    moreover have "isOrdinaryKeyedRecord m \<and>
       (\<exists>l\<in>set (disk_log d'). isOrdinaryKeyedRecord l \<and> dKey l = dKey m \<and> dOffset m < dOffset l) \<and>
       (dProducerID m \<noteq> [] \<longrightarrow> (\<exists>l\<in>set (disk_log d'). dProducerID l = dProducerID m \<and> dOffset m < dOffset l))"
      if "m \<in> set (disk_log d)" "m \<notin> set (disk_log d')" for m
    proof -
      from that have "m \<in> set closed" "\<not> kept (latest_of closed) m" by (auto simp: log d'(2))
      from latest_kept [OF srt this] show ?thesis unfolding d'(2) by auto
    qed
    ultimately show ?thesis using d' err by blast
  qed
qed


text \<open>A closed segment with two records of the key \<open>a\<close>, of which the pass drops the first.\<close>

definition compactable :: diskHandler where
  "compactable = rotateSegment 2 (snd (WriteBatchSync [sampleRecord 0 ''a'' ''x'', sampleRecord 1 ''a'' ''y''] None freshHandler))"

lemma sampleRecord_acceptable:
  "length key < 100 \<Longrightarrow> length payload < 100 \<Longrightarrow> acceptable (sampleRecord offset key payload)"
  by (simp add: acceptable_def storable_def diskLengthsFit_def length_diskLayout EstimateDiskMessageSize_def
      sampleRecord_def zeroDiskMessage_def SafeIntToUint16_def SafeIntToUint32_def slice_bytes_def MaxMessageSize_def
      MaxFramePayload_def)

lemma compactable_wf: "disk_wf compactable"
proof -
  let ?batch = "[sampleRecord 0 ''a'' ''x'', sampleRecord 1 ''a'' ''y'']"
  have fresh: "disk_wf freshHandler" "dhWriteCh freshHandler = []" "\<not> dhWriteFailure freshHandler"
    using freshHandler_rep by (auto simp: disk_wf_def freshHandler_def)
  have "list_all acceptable ?batch" by (simp add: sampleRecord_acceptable)
  from writeBatch_succeeds [OF fresh(3) this, of True]
  obtain d where d: "WriteBatchSync ?batch None freshHandler = (None, d)" by (auto simp: WriteBatchSync_def)
  have "run ?batch (unat (dhAbsoluteOffset freshHandler)) 2"
    by (simp add: freshHandler_def sampleRecord_def upt_rec numeral_2_eq_2)
  from WriteBatchSync_log [OF fresh(1,2) _ this _ d]
  have wf: "disk_wf d" and fl: "dhFlushedOffset d = 2" by (simp_all add: sampleRecord_def)
  then obtain cs ms where "disk_rep d cs ms" by (auto simp: disk_wf_def)
  from rotate_rep [OF this] show ?thesis by (auto simp: compactable_def d fl disk_wf_def)
qed

theorem compaction_keeps_latest_witness:
  "fst (EnforceCompaction True (\<lambda>removable bytesBefore. True) compactable) = None \<and>
   disk_wf (snd (EnforceCompaction True (\<lambda>removable bytesBefore. True) compactable)) \<and>
   subseq (disk_log (snd (EnforceCompaction True (\<lambda>removable bytesBefore. True) compactable))) (disk_log compactable)"
  using compaction_keeps_latest [OF compactable_wf, of True "\<lambda>removable bytesBefore. True"] by (metis prod.collapse)

end
