(* ===== verification/Disk_Retention.thy ===== *)
theory Disk_Retention
  imports Disk_Compaction
begin

section \<open>Retention, truncation and ranges of a compacted leader\<close>

text \<open>
  The other operations that change existing segments, on the log: retention removes whole closed segments, truncation
  cuts the log at an offset, and a range from a compacted leader extends it with holes.
\<close>

subsection \<open>Retention\<close>

lemma markAsDeleted_rep:
  assumes rep: "disk_rep d (as @ (base, ns) # bs) ms"
  shows "disk_rep (markAsDeleted base d) (as @ bs) ms"
proof -
  let ?d = "markAsDeleted base d"
  have fresh: "fst s \<noteq> base" if "s \<in> set (as @ bs)" for s using rep that by (auto simp: disk_rep_def sorted_wrt_append)
  have cur: "dhCurrentSegment d \<noteq> base" using rep by (auto simp: disk_rep_def)
  have segs: "dhSegments ?d = map fst (as @ bs) @ [dhCurrentSegment d]"
    using rep fresh by (auto simp: disk_rep_def markAsDeleted_def remove1_append)
  have same: "segmentFile ?d b = segmentFile d b" "segmentIndex ?d b = segmentIndex d b"
    "segmentAllowsOffsetGaps ?d b n = segmentAllowsOffsetGaps d b n" if "b \<noteq> base" for b n
    using that by (simp_all add: markAsDeleted_def segmentFile_def segmentIndex_def segmentAllowsOffsetGaps_def)
  have fields: "dhCurrentSegment ?d = dhCurrentSegment d" "dhWriteCh ?d = dhWriteCh d" "dhFlushedOffset ?d = dhFlushedOffset d"
    "dhAbsoluteOffset ?d = dhAbsoluteOffset d" "dhWriteFailure ?d = dhWriteFailure d" "dhCurrentOffset ?d = dhCurrentOffset d"
    "dhIndexBytesWritten ?d = dhIndexBytesWritten d" "dhLastIndexPosition ?d = dhLastIndexPosition d"
    "mwf (dhFiles d) \<Longrightarrow> mwf (dhFiles ?d)" "mwf (dhCompacted d) \<Longrightarrow> mwf (dhCompacted ?d)"
    "set (mkeys (dhFiles ?d)) = set (mkeys (dhFiles d)) - {base}"
    by (auto simp: markAsDeleted_def set_mkeys)
  have "closed_segment ?d (fst s) (snd s)" if "s \<in> set (as @ bs)" for s
    using rep that fresh [OF that] same by (auto simp: disk_rep_def list_all_iff closed_segment_def)
  moreover have "active_segment ?d ms" using rep cur same fields by (simp add: disk_rep_def active_segment_def)
  moreover have "set (mkeys (dhFiles ?d)) = set (dhSegments ?d)"
    using rep fresh cur unfolding fields(11) segs by (auto simp: disk_rep_def)
  moreover have "sorted_wrt before (as @ bs)" using rep by (auto simp: disk_rep_def sorted_wrt_append)
  ultimately show ?thesis
    using rep fields(9,10) unfolding disk_rep_def fields(1-5) segs by (auto simp: list_all_iff)
qed

lemma retentionLoop_rep:
  assumes "disk_rep d (as @ cs) ms"
  shows "\<exists>cs'. disk_rep (retentionLoop expired limit sz (map fst cs @ [dhCurrentSegment d]) d) (as @ cs') ms \<and>
     subseq (concat (map snd cs')) (concat (map snd cs))"
  using assms
proof (induction cs arbitrary: as sz d)
  case (Cons s cs)
  obtain base ns where s: "s = (base, ns)" by (cases s)
  obtain n rest where rest: "map fst cs @ [dhCurrentSegment d] = n # rest" by (cases "map fst cs @ [dhCurrentSegment d]") auto
  show ?case
  proof (cases "expired base \<or> limit > 0 \<and> sz > limit")
    case True
    have "dhCurrentSegment (markAsDeleted base d) = dhCurrentSegment d" by (simp add: markAsDeleted_def)
    with Cons.IH [OF markAsDeleted_rep [of d as base ns cs ms], of "sz - length (segmentFile d base)"] Cons.prems True rest
    show ?thesis by (auto simp: s intro: list_emb_append2)
  next
    case False
    with Cons.IH [of d "as @ [s]" sz] Cons.prems rest
    obtain cs' where "disk_rep (retentionLoop expired limit sz (map fst cs @ [dhCurrentSegment d]) d) (as @ s # cs') ms"
      "subseq (concat (map snd cs')) (concat (map snd cs))" by auto
    with False rest show ?thesis by (intro exI [of _ "s # cs'"]) (auto simp: s intro: list_emb_append_mono)
  qed
qed (auto intro: exI [of _ "[]"])

lemma retentionLoop_same:
  "dhAbsoluteOffset (retentionLoop expired limit sz bases d) = dhAbsoluteOffset d"
  "dhWriteCh (retentionLoop expired limit sz bases d) = dhWriteCh d"
  by (induction expired limit sz bases d rule: retentionLoop.induct) (simp_all add: markAsDeleted_def)

lemma EnforceRetention_log:
  assumes "disk_wf d"
  shows "disk_wf (EnforceRetention allowed expired limit d)"
    and "subseq (disk_log (EnforceRetention allowed expired limit d)) (disk_log d)"
    and "dhAbsoluteOffset (EnforceRetention allowed expired limit d) = dhAbsoluteOffset d"
    and "dhWriteCh (EnforceRetention allowed expired limit d) = dhWriteCh d"
proof -
  from assms obtain cs ms where rep: "disk_rep d cs ms" by (auto simp: disk_wf_def)
  have bases: "sort (mkeys (dhFiles d)) = map fst cs @ [dhCurrentSegment d]"
    by (rule sort_bases) (use rep in \<open>auto simp: disk_rep_def sorted_wrt_append sorted_wrt_map list_all_iff elim!: sorted_wrt_mono_rel [rotated]\<close>)
  obtain cs' where "allowed \<Longrightarrow> disk_rep (EnforceRetention allowed expired limit d) cs' ms"
    "subseq (concat (map snd cs')) (concat (map snd cs))"
    using retentionLoop_rep [of d "[]" cs ms] rep by (fastforce simp: EnforceRetention_def Let_def bases)
  with rep disk_log_rep [OF rep] disk_log_rep
  show "disk_wf (EnforceRetention allowed expired limit d)"
    "subseq (disk_log (EnforceRetention allowed expired limit d)) (disk_log d)"
    by (cases allowed; auto simp: disk_wf_def EnforceRetention_def intro: list_emb_append_mono)+
  show "dhAbsoluteOffset (EnforceRetention allowed expired limit d) = dhAbsoluteOffset d"
    "dhWriteCh (EnforceRetention allowed expired limit d) = dhWriteCh d"
    by (simp_all add: EnforceRetention_def Let_def retentionLoop_same)
qed


subsection \<open>Truncation\<close>

lemma run_split:
  assumes "run (xs @ ys) a b" and "\<And>x. x \<in> set xs \<Longrightarrow> off x < c" and "\<And>y. y \<in> set ys \<Longrightarrow> c \<le> off y" and "a \<le> c" and "c \<le> b"
  shows "run xs a c" and "run ys c b"
proof -
  have "filter (\<lambda>i. i < c) (map off (xs @ ys)) = map off xs"
    using assms(2,3) by (auto simp: filter_id_conv filter_empty_conv not_less)
  moreover have "filter (\<lambda>i. i < c) [a..<b] = [a..<c]"
    using upt_add_eq_append [OF assms(4), of "b - c"] assms(5) by (simp add: filter_id_conv filter_empty_conv)
  ultimately show r: "run xs a c" using assms(1) by metis
  have "map off ys = drop (length xs) [a..<b]" using assms(1) by (metis append_eq_conv_conj length_map map_append)
  then show "run ys c b" using run_length [OF r] assms(4) by simp
qed

lemma open_as_segments:
  assumes rep: "disk_rep d cs ms"
  shows "sorted_wrt before (cs @ [(dhCurrentSegment d, ms)])" and "map fst (cs @ [(dhCurrentSegment d, ms)]) = dhSegments d"
    and "\<And>s. s \<in> set (cs @ [(dhCurrentSegment d, ms)]) \<Longrightarrow> segmentFile d (fst s) = framed (snd s) \<and> list_all writable (snd s) \<and>
      follows True None (snd s) \<and> list_all (\<lambda>m. fst s \<le> dOffset m) (snd s)"
proof -
  show "sorted_wrt before (cs @ [(dhCurrentSegment d, ms)])" "map fst (cs @ [(dhCurrentSegment d, ms)]) = dhSegments d"
    using rep by (auto simp: disk_rep_def sorted_wrt_append list_all_iff)
  have act: "active_segment d ms" using rep by (simp add: disk_rep_def)
  then have r: "run ms (unat (dhCurrentSegment d)) (unat (dhFlushedOffset d))" by (simp add: active_segment_def)
  have "follows True None ms" using run_follows [OF r unat_u64_bound, of None True] by simp
  moreover have "list_all (\<lambda>m. dhCurrentSegment d \<le> dOffset m) ms" using run_bounds [OF r] by (simp add: list_all_iff word_le_nat_alt)
  ultimately show "segmentFile d (fst s) = framed (snd s) \<and> list_all writable (snd s) \<and>
      follows True None (snd s) \<and> list_all (\<lambda>m. fst s \<le> dOffset m) (snd s)" if "s \<in> set (cs @ [(dhCurrentSegment d, ms)])" for s
    using that rep act by (auto simp: disk_rep_def closed_segment_def active_segment_def list_all_iff intro: follows_gaps)
qed

lemma truncated_fields:
  assumes "d' = truncated n base pos d"
  shows "dhSegments d' = filter (\<lambda>b. b \<le> base) (dhSegments d)" and "dhCurrentSegment d' = base" and "dhCurrentOffset d' = pos"
    and "dhAbsoluteOffset d' = n" and "dhFlushedOffset d' = n" and "dhWriteCh d' = dhWriteCh d" and "dhWriteFailure d' = dhWriteFailure d"
    and "dhIndexBytesWritten d' = 0" and "dhLastIndexPosition d' = 0" and "segmentIndex d' base = []"
  using assms
  by (simp_all add: truncated_def openIndexFiles_def openSegment_def Let_def segmentIndex_def validIndexPrefix_def)


lemma mkeys_filter: "set (mkeys (filter (\<lambda>f. P (fst f)) m)) = {k \<in> set (mkeys m). P k}"
  by (auto simp: mkeys_def)

lemma map_of_keep:
  fixes base :: u64
  assumes "b < base"
  shows "map_of (filter (\<lambda>f. \<not> (fst f \<in> S \<and> fst f > base)) m) b = map_of m b"
  using assms by (induction m) auto

lemma truncated_files:
  assumes "d' = truncated n base pos d" and "base \<in> set (dhSegments d)"
  shows "segmentFile d' base = take pos (segmentFile d base)"
    and "b < base \<Longrightarrow> segmentFile d' b = segmentFile d b"
    and "b < base \<Longrightarrow> segmentIndex d' b = segmentIndex d b"
    and "b < base \<Longrightarrow> segmentAllowsOffsetGaps d' b k = segmentAllowsOffsetGaps d b k"
    and "mwf (dhFiles d) \<Longrightarrow> mwf (dhFiles d')" and "mwf (dhCompacted d) \<Longrightarrow> mwf (dhCompacted d')"
    and "set (mkeys (dhFiles d)) = set (dhSegments d) \<Longrightarrow> set (mkeys (dhFiles d')) = set (dhSegments d')"
proof -
  let ?keep = "\<lambda>b. \<not> (b \<in> set (dhSegments d) \<and> b > base)"
  have fi: "dhFiles d' = mput base (take pos (segmentFile d base)) (filter (\<lambda>f. ?keep (fst f)) (dhFiles d))"
    and ix: "dhIndexes d' = mput base [] (mdel base (filter (\<lambda>f. ?keep (fst f)) (dhIndexes d)))"
    and co: "dhCompacted d' = filter (\<lambda>f. ?keep (fst f)) (dhCompacted d)"
    and sg: "dhSegments d' = filter (\<lambda>b. b \<le> base) (dhSegments d)"
    by (simp_all add: assms(1) truncated_def openIndexFiles_def openSegment_def Let_def segmentFile_def segmentIndex_def
        validIndexPrefix_def)
  show "segmentFile d' base = take pos (segmentFile d base)" by (simp add: segmentFile_def [of d'] fi)
  show "segmentFile d' b = segmentFile d b" "segmentIndex d' b = segmentIndex d b"
    "segmentAllowsOffsetGaps d' b k = segmentAllowsOffsetGaps d b k" if "b < base"
    using less_imp_neq [OF that]
    by (simp_all only: segmentFile_def segmentIndex_def segmentAllowsOffsetGaps_def fi ix co map_of_mput map_of_mdel
        map_of_keep [OF that] fun_upd_apply if_False)
  show "mwf (dhFiles d) \<Longrightarrow> mwf (dhFiles d')" "mwf (dhCompacted d) \<Longrightarrow> mwf (dhCompacted d')"
    by (simp_all add: fi co mwf_filter)
  show "set (mkeys (dhFiles d')) = set (dhSegments d')" if "set (mkeys (dhFiles d)) = set (dhSegments d)"
    unfolding fi sg mkeys_mput mkeys_filter [of ?keep] using that assms(2) by (auto simp: not_less)
qed


lemma truncated_rep:
  assumes rep: "disk_rep d cs ms" and q: "dhWriteCh d = []"
    and split: "cs @ [(dhCurrentSegment d, ms)] = as @ (base, xs @ ys) # bs"
    and xs: "run xs (unat base) (unat n)" "base \<le> n" and d': "d' = truncated n base (length (framed xs)) d"
  shows "disk_rep d' as xs"
proof -
  note seg = open_as_segments [OF rep]
  note fields = truncated_fields [OF d']
  have base: "base \<in> set (dhSegments d)" unfolding seg(2) [symmetric] split by simp
  note files = truncated_files [OF d' base]
  have srt: "sorted_wrt before (as @ (base, xs @ ys) # bs)" using seg(1) by (simp only: split)
  then have lo: "fst s < base \<and> list_all (\<lambda>m. dOffset m < base) (snd s)" if "s \<in> set as" for s
    using that by (auto simp: sorted_wrt_append)
  have hi: "base < fst s" if "s \<in> set bs" for s using srt that by (auto simp: sorted_wrt_append)
  have segs: "dhSegments d' = map fst as @ [base]"
    unfolding fields(1) seg(2) [symmetric] split using lo hi by (auto simp: filter_id_conv filter_empty_conv not_le less_imp_le)
  have closed: "closed_segment d' (fst s) (snd s)" if "s \<in> set as" for s
  proof -
    have "s \<in> set (cs @ [(dhCurrentSegment d, ms)])" using that by (simp only: split) simp
    moreover have "s \<noteq> (dhCurrentSegment d, ms)"
      using lo [OF that] base rep by (auto simp: disk_rep_def list_all_iff)
    ultimately have "closed_segment d (fst s) (snd s)" using rep by (auto simp: disk_rep_def list_all_iff)
    with files(2-4) lo [OF that] show ?thesis by (simp add: closed_segment_def)
  qed
  have "(base, xs @ ys) \<in> set (cs @ [(dhCurrentSegment d, ms)])" unfolding split by simp
  from seg(3) [OF this] have "segmentFile d base = framed (xs @ ys)" "list_all writable xs" by simp_all
  then have "active_segment d' xs" using files(1) xs by (simp add: active_segment_def fields IndexEntrySize_def)
  moreover have "sorted_wrt before as" using srt by (simp add: sorted_wrt_append)
  ultimately show ?thesis
    using rep q closed lo files(5-7) segs unfolding disk_rep_def fields(2,4-7) by (simp add: list_all_iff)
qed

lemma truncateTarget_split:
  assumes srt: "sorted_wrt before ss" and first: "ss \<noteq> []" "fst (hd ss) \<le> n"
  obtains as base ns bs where "ss = as @ (base, ns) # bs" "truncateTarget n (map fst ss) = base" "base \<le> n" "\<And>s. s \<in> set bs \<Longrightarrow> n < fst s"
proof -
  let ?low = "takeWhile (\<lambda>s. fst s \<le> n) ss" and ?high = "dropWhile (\<lambda>s. fst s \<le> n) ss"
  have low: "?low \<noteq> []" using first by (cases ss) auto
  obtain as s where as: "?low = as @ [s]" using low by (cases ?low rule: rev_cases) auto
  have "truncateTarget n (map fst ss) = last (map fst ?low)"
    using low by (simp add: truncateTarget_def takeWhile_map comp_def not_less)
  moreover have "n < fst t" if "t \<in> set ?high" for t
  proof (cases ?high)
    case (Cons h rest)
    have "\<not> fst (hd ?high) \<le> n" by (rule hd_dropWhile) (simp only: Cons, simp)
    then have h: "n < fst h" by (simp only: Cons list.sel not_le)
    have "sorted_wrt before (?low @ ?high)" using srt by (simp only: takeWhile_dropWhile_id)
    then have "sorted_wrt before (h # rest)" by (simp only: sorted_wrt_append Cons)
    then have "t = h \<or> fst h < fst t" using that unfolding Cons by auto
    with h show ?thesis by (auto intro: order.strict_trans)
  next
    case Nil
    with that show ?thesis by (simp only: list.set(1) empty_iff)
  qed
  moreover have "s \<in> set ?low" by (simp add: as)
  then have "fst s \<le> n" by (rule set_takeWhileD [THEN conjunct2])
  ultimately show ?thesis
    using that [of as "fst s" "snd s" ?high] as takeWhile_dropWhile_id [of "\<lambda>s. fst s \<le> n" ss] by auto
qed


text \<open>The records of a dense log below an offset, within the segment the offset falls into.\<close>

lemma dense_cut:
  assumes dense: "run (concat (map snd as) @ ns @ concat (map snd bs)) (unat a) (unat b)"
    and srt: "sorted_wrt before (as @ (base, ns) # bs)" and lo: "\<And>s. s \<in> set (as @ (base, ns) # bs) \<Longrightarrow> list_all (\<lambda>m. fst s \<le> dOffset m) (snd s)"
    and base: "a \<le> base" "base \<le> n" "n < b" and hi: "\<And>s. s \<in> set bs \<Longrightarrow> n < fst s"
  defines "xs \<equiv> takeWhile (\<lambda>m. dOffset m < n) ns"
  shows "run xs (unat base) (unat n)"
    and "concat (map snd as) @ xs = filter (\<lambda>m. dOffset m < n) (concat (map snd as) @ ns @ concat (map snd bs))"
proof -
  let ?A = "concat (map snd as)" and ?B = "concat (map snd bs)"
  have A: "dOffset m < base" if "m \<in> set ?A" for m
  proof -
    from that obtain s where s: "s \<in> set as" "m \<in> set (snd s)" by auto
    from srt have "\<forall>s\<in>set as. list_all (\<lambda>m. dOffset m < base) (snd s)" by (simp add: sorted_wrt_append)
    with s show ?thesis by (simp add: list_all_iff)
  qed
  have B: "n < dOffset m" if "m \<in> set ?B" for m
  proof -
    from that obtain s where s: "s \<in> set bs" "m \<in> set (snd s)" by auto
    with lo [of s] have "fst s \<le> dOffset m" by (simp add: list_all_iff)
    with hi [OF s(1)] show ?thesis by (rule order.strict_trans2)
  qed
  have N: "base \<le> dOffset m" if "m \<in> set ns" for m using that lo [of "(base, ns)"] by (simp add: list_all_iff)
  have NB: "base \<le> dOffset m" if "m \<in> set (ns @ ?B)" for m
  proof (cases "m \<in> set ns")
    case False
    with that have "n < dOffset m" using B by (simp only: set_append Un_iff) blast
    with base(2) show ?thesis by (auto intro: order.trans less_imp_le)
  qed (rule N)
  have r: "run (ns @ ?B) (unat base) (unat b)"
    using dense
  proof (rule run_split(2))
    show "unat base \<le> unat b" using base(2,3) by (simp add: word_less_nat_alt word_le_nat_alt)
    show "off x < unat base" if "x \<in> set ?A" for x using A [OF that] by (simp only: word_less_nat_alt)
    show "unat base \<le> off x" if "x \<in> set (ns @ ?B)" for x using NB [OF that] by (simp only: word_le_nat_alt)
    show "unat a \<le> unat base" using base(1) by (simp only: word_le_nat_alt)
  qed
  have asc: "sorted_wrt (\<lambda>x y. dOffset x < dOffset y) (ns @ ?B)"
  proof -
    have "sorted_wrt (<) (map off (ns @ ?B))" unfolding r by simp
    then show ?thesis by (simp only: sorted_wrt_map word_less_nat_alt)
  qed
  have xs: "xs = filter (\<lambda>m. dOffset m < n) ns"
    using asc unfolding xs_def sorted_wrt_append
  proof (induction ns)
    case (Cons m ns)
    have "filter (\<lambda>m. dOffset m < n) ns = []" if "\<not> dOffset m < n"
      using Cons.prems that by (auto simp: filter_empty_conv not_less dest: order.strict_trans1)
    with Cons show ?case by simp
  qed simp
  obtain ys where ys: "ns = xs @ ys" unfolding xs_def by (metis takeWhile_dropWhile_id)
  have "n \<le> dOffset m" if "m \<in> set ys" for m
  proof (rule ccontr)
    assume "\<not> n \<le> dOffset m"
    then have "m \<in> set xs" using that ys by (simp add: xs not_le) (metis Un_iff set_append)
    with that asc ys show False by (auto simp: sorted_wrt_append)
  qed
  note Y = this
  have YB: "n \<le> dOffset m" if "m \<in> set (ys @ ?B)" for m
  proof (cases "m \<in> set ys")
    case False
    with that have "n < dOffset m" using B by (simp only: set_append Un_iff) blast
    then show ?thesis by (rule less_imp_le)
  qed (rule Y)
  have "run (xs @ ys @ ?B) (unat base) (unat b)" using r unfolding ys append_assoc .
  then show "run xs (unat base) (unat n)"
  proof (rule run_split(1))
    show "off x < unat n" if "x \<in> set xs" for x using that by (simp add: xs word_less_nat_alt)
    show "unat n \<le> off x" if "x \<in> set (ys @ ?B)" for x using YB [OF that] by (simp only: word_le_nat_alt)
    show "unat base \<le> unat n" "unat n \<le> unat b" using base(2,3) by (simp_all add: word_less_nat_alt word_le_nat_alt)
  qed
  have "filter (\<lambda>m. dOffset m < n) ?A = ?A" using A base(2) by (auto simp only: filter_id_conv intro: order.strict_trans2)
  moreover have "filter (\<lambda>m. dOffset m < n) ?B = []" using B by (metis (no_types, lifting) filter_False less_asym)
  ultimately show "?A @ xs = filter (\<lambda>m. dOffset m < n) (?A @ ns @ ?B)" by (simp add: xs)
qed

lemma TruncateTo_rep:
  assumes rep: "disk_rep d cs ms" and q: "dhWriteCh d = []"
    and dense: "run (disk_log d) (unat (GetFirstOffset d)) (unat (dhAbsoluteOffset d))"
    and plain: "dhCompacted d = []" and n: "GetFirstOffset d \<le> n" "n < dhAbsoluteOffset d"
  shows "\<exists>d' as xs. TruncateTo n False None d = (None, d') \<and> disk_rep d' as xs \<and> dhWriteCh d' = [] \<and> dhAbsoluteOffset d' = n \<and>
     concat (map snd as) @ xs = filter (\<lambda>m. dOffset m < n) (disk_log d)"
proof -
  let ?ss = "cs @ [(dhCurrentSegment d, ms)]"
  define d0 where "d0 = d\<lparr>dhSynced := dhCurrentOffset d\<rparr>"
  note seg = open_as_segments [OF rep]
  have nofail: "\<not> dhWriteFailure d" using rep by (simp add: disk_rep_def)
  then have flush: "Flush None d = d0"
    using q by (cases d) (simp add: Flush_def flushQueue_def WriteBatch_def writeBatch_def Let_def d0_def)
  have rep0: "disk_rep d0 cs ms"
    using rep by (simp add: disk_rep_def d0_def closed_segment_def active_segment_def segmentAllowsOffsetGaps_def)
  have d0: "dhWriteCh d0 = []" "dhCurrentSegment d0 = dhCurrentSegment d" "dhSegments d0 = dhSegments d"
    "dhAbsoluteOffset d0 = dhAbsoluteOffset d" "dhCompacted d0 = []" "segmentFile d0 = segmentFile d"
    using q plain by (simp_all add: d0_def)
  have first: "fst (hd ?ss) = GetFirstOffset d" using GetFirstOffset_rep [OF rep] by (cases cs) simp_all
  obtain as base ns bs where split: "?ss = as @ (base, ns) # bs" and target: "truncateTarget n (dhSegments d) = base"
    and base: "base \<le> n" and bs: "\<And>s. s \<in> set bs \<Longrightarrow> n < fst s"
    by (rule truncateTarget_split [OF seg(1), of n, unfolded seg(2)]) (use n(1) first in auto)
  have log: "disk_log d = concat (map snd as) @ ns @ concat (map snd bs)"
    using disk_log_rep [OF rep] arg_cong [OF split, of "\<lambda>ss. concat (map snd ss)"] by simp
  have srt: "sorted_wrt before (as @ (base, ns) # bs)" using seg(1) by (simp only: split)
  have ns: "segmentFile d base = framed ns \<and> list_all writable ns \<and> follows True None ns" using seg(3) [of "(base, ns)"] by (simp add: split)
  have le: "GetFirstOffset d \<le> base" using srt first by (cases as) (auto simp: split intro: less_imp_le)
  define xs where "xs = takeWhile (\<lambda>m. dOffset m < n) ns"
  have cut: "run xs (unat base) (unat n)" "concat (map snd as) @ xs = filter (\<lambda>m. dOffset m < n) (disk_log d)"
    using dense_cut [OF dense [unfolded log] srt _ le base n(2) bs] seg(3) unfolding split xs_def log by blast+
  obtain ys where ys: "ns = xs @ ys" unfolding xs_def by (metis takeWhile_dropWhile_id)
  have sorted: "sort (dhSegments d) = dhSegments d" "d0\<lparr>dhSegments := dhSegments d\<rparr> = d0"
    using sorted_before_bases [OF seg(1)] unfolding seg(2) by (simp_all add: sorted_sort_id strict_sorted_imp_sorted d0_def)
  have hd: "dhSegments d \<noteq> []" "hd (dhSegments d) = GetFirstOffset d" using first unfolding seg(2) [symmetric] by (cases cs; simp)+
  have "findTruncatePosition (framed ns) n = Inr (length (framed xs))"
    using truncateScan_framed [of ns None n 0] ns by (simp add: findTruncatePosition_def xs_def)
  then have "TruncateTo n False None d = (None, truncated n base (length (framed xs)) d0)"
    using n ns less_imp_neq [OF n(2)] less_asym [OF n(2)] leD [OF n(1)]
    by (simp add: TruncateTo_def flush Let_def d0 sorted hd target segmentAllowsOffsetGaps_def)
  moreover have "disk_rep (truncated n base (length (framed xs)) d0) as xs"
    by (rule truncated_rep [OF rep0 d0(1) _ cut(1) base refl]) (simp add: d0(2) split ys)
  ultimately show ?thesis using cut(2) truncated_fields(4,6) [OF refl] d0(1) by metis
qed

lemma TruncateTo_log:
  assumes "disk_wf d" and "dhWriteCh d = []" and "run (disk_log d) (unat (GetFirstOffset d)) (unat (dhAbsoluteOffset d))"
    and "dhCompacted d = []" and "GetFirstOffset d \<le> n" and "n \<le> dhAbsoluteOffset d"
  shows "\<exists>d'. TruncateTo n False None d = (None, d') \<and> disk_wf d' \<and> dhWriteCh d' = [] \<and> dhAbsoluteOffset d' = n \<and>
     disk_log d' = filter (\<lambda>m. dOffset m < n) (disk_log d)"
proof (cases "n = dhAbsoluteOffset d")
  case True
  have "filter (\<lambda>m. dOffset m < n) (disk_log d) = disk_log d"
    using disk_log_order [OF assms(1)] True by (auto simp: filter_id_conv dest: order.strict_trans2)
  moreover have "TruncateTo n False None d = (None, Flush None d)"
    using Flush_log [OF assms(1)] True by (simp add: TruncateTo_def Let_def)
  ultimately show ?thesis using Flush_log [OF assms(1)] assms(2) True by simp
next
  case False
  from assms(1) obtain cs ms where "disk_rep d cs ms" by (auto simp: disk_wf_def)
  moreover have "n < dhAbsoluteOffset d" using False assms(6) by simp
  ultimately obtain d' as xs where "TruncateTo n False None d = (None, d')"
    "disk_rep d' as xs" "dhWriteCh d' = []" "dhAbsoluteOffset d' = n" "concat (map snd as) @ xs = filter (\<lambda>m. dOffset m < n) (disk_log d)"
    using TruncateTo_rep [OF _ assms(2-5)] by metis
  with disk_log_rep [of d' as xs] show ?thesis by (auto simp: disk_wf_def)
qed

subsection \<open>Ranges from a compacted leader\<close>

lemma compactedRangeLoop_None:
  assumes "compactedRangeLoop a b prev batch = None"
  shows "follows True prev batch" and "list_all (\<lambda>m. a \<le> dOffset m \<and> dOffset m < b) batch"
  using assms by (induction batch arbitrary: prev) (auto split: if_splits option.splits simp: not_less not_le)

lemma follows_stored: "follows gaps prev (map stored batch) = follows gaps prev batch"
  by (induction batch arbitrary: prev) (simp_all add: stored_def split: option.split)

lemma roll_empty_active:
  assumes rep: "disk_rep d cs ms" and start: "start = dhFlushedOffset d"
  defines "dr \<equiv> (if dhCurrentSegment d \<noteq> start \<or> dhCurrentOffset d \<noteq> 0 then rotateSegment start d else d)"
  obtains cs' where "disk_rep dr cs' []" "concat (map snd cs') = concat (map snd cs) @ ms" "dhCurrentSegment dr = start"
    "same_bounds d dr"
proof -
  obtain cs' ms' where dr: "disk_rep dr cs' ms'" "concat (map snd cs') @ ms' = concat (map snd cs) @ ms" "same_bounds d dr"
    unfolding dr_def by (rule rotate_if_rep [OF rep start])
  have cur: "dhCurrentSegment dr = start \<and> dhCurrentOffset dr = 0"
    using rep start by (auto simp: dr_def rotateSegment_def openIndexFiles_def openSegment_def Let_def disk_rep_def active_segment_def)
  then have "ms' = []" using dr(1) by (auto simp: disk_rep_def active_segment_def)
  with dr cur that show ?thesis by auto
qed

lemma compacted_range_rep:
  assumes rep: "disk_rep d cs []" and cur: "dhCurrentSegment d = start" and q: "dhWriteCh d = []" and lt: "start < stop"
    and acc: "list_all acceptable batch" and follows: "follows True None batch"
    and bounds: "list_all (\<lambda>m. start \<le> dOffset m \<and> dOffset m < stop) batch"
    and files: "segmentFile d' = (segmentFile d)(start := framed batch, stop := [])"
    and index: "segmentIndex d' = (segmentIndex d)(start := batchIndex interval 0 0 (zip batch (map frame batch)), stop := [])"
    and keys: "set (mkeys (dhFiles d')) = insert stop (set (mkeys (dhFiles d)))" "mwf (dhFiles d) \<Longrightarrow> mwf (dhFiles d')"
    and marks: "dhCompacted d' = mput start (length (framed batch)) (dhCompacted d)"
    and fields: "dhSegments d' = dhSegments d @ [stop]" "dhCurrentSegment d' = stop" "dhCurrentOffset d' = 0"
      "dhAbsoluteOffset d' = stop" "dhFlushedOffset d' = stop" "dhIndexBytesWritten d' = 0" "dhLastIndexPosition d' = 0"
      "dhWriteCh d' = []" "dhWriteFailure d' = dhWriteFailure d"
  shows "disk_rep d' (cs @ [(start, map stored batch)]) []"
proof -
  have old: "fst s < start \<and> list_all (\<lambda>m. dOffset m < start) (snd s) \<and> closed_segment d (fst s) (snd s)" if "s \<in> set cs" for s
    using rep that cur by (auto simp: disk_rep_def list_all_iff)
  have closed: "closed_segment d' (fst s) (snd s)" if "s \<in> set cs" for s
    using old [OF that] lt
    by (auto simp: closed_segment_def files index marks segmentAllowsOffsetGaps_def dest: order.strict_trans)
  have "genuine (map stored batch) e" if "e \<in> set (segmentIndex d' start)" for e
    using that less_imp_neq [OF lt] batchIndex_genuine [of e interval "[]" 0 batch] by (simp add: index)
  moreover have "list_all writable (map stored batch)" using acc by (auto simp: list_all_iff acceptable_stored)
  ultimately have "closed_segment d' start (map stored batch)"
    using lt follows bounds
    by (auto simp: closed_segment_def files marks segmentAllowsOffsetGaps_def follows_stored list_all_iff stored_def)
  moreover have "active_segment d' []" by (simp add: active_segment_def fields files index)
  moreover have "sorted_wrt before (cs @ [(start, map stored batch)])"
    using rep old by (auto simp: disk_rep_def sorted_wrt_append)
  moreover have "list_all (\<lambda>m. dOffset m < stop) (map stored batch)" using bounds by (simp add: list_all_iff stored_def)
  moreover have "fst s < stop \<and> list_all (\<lambda>m. dOffset m < stop) (snd s)" if "s \<in> set cs" for s
    using old [OF that] lt by (auto simp: list_all_iff dest: order.strict_trans)
  ultimately show ?thesis
    using rep q closed lt keys cur unfolding disk_rep_def fields
    by (simp add: list_all_iff marks insert_commute)
qed

theorem WriteCompactedReplicaRange_log:
  assumes wf: "disk_wf d" "dhWriteCh d = []"
    and app: "WriteCompactedReplicaRange busy start stop batch d = (None, d')"
  shows "disk_wf d' \<and> dhWriteCh d' = [] \<and> disk_log d' = disk_log d @ map stored batch \<and>
    dhAbsoluteOffset d' = stop \<and> dhAbsoluteOffset d = start \<and> start < stop"
proof -
  obtain cs ms where rep: "disk_rep d cs ms" using wf(1) unfolding disk_wf_def by blast
  define dr where "dr = (if dhCurrentSegment d \<noteq> start \<or> dhCurrentOffset d \<noteq> 0 then rotateSegment start d else d)"
  have valid: "validateCompactedReplicaRange start stop batch = None" and abs: "dhAbsoluteOffset d = start"
    using app by (auto simp: WriteCompactedReplicaRange_def split: option.splits if_splits)
  from valid have lt: "start < stop" and loop: "compactedRangeLoop start stop None batch = None"
    by (auto simp: validateCompactedReplicaRange_def split: if_splits)
  obtain frames where frames: "serializeBatch batch = Inr frames"
    using app by (auto simp: WriteCompactedReplicaRange_def Let_def split: option.splits if_splits sum.splits)
  have acc: "list_all acceptable batch" and fr: "frames = map frame batch" using serializeBatch_Inr [OF frames] by auto
  have fl: "start = dhFlushedOffset d" using empty_queue_flushed [OF rep wf(2)] abs by simp
  obtain cs' where rep': "disk_rep dr cs' []" and log: "concat (map snd cs') = concat (map snd cs) @ ms"
    and cur: "dhCurrentSegment dr = start" and same: "same_bounds d dr"
    unfolding dr_def by (rule roll_empty_active [OF rep fl])
  have segs: "dhSegments dr = map fst cs' @ [start]" "list_all (\<lambda>s. fst s < start) cs'"
    "set (mkeys (dhFiles dr)) = set (dhSegments dr)"
    using rep' cur by (auto simp: disk_rep_def list_all_iff)
  then have new: "stop \<notin> set (dhSegments dr)" using lt by (auto simp: list_all_iff)
  then have stop: "segmentFile dr stop = []" using segs(3) by (intro segmentFile_missing) simp
  have sorted: "sorted (dhSegments dr @ [stop])"
    using rep' segs(1,2) lt
    by (auto simp: disk_rep_def sorted_append list_all_iff sorted_wrt_map sorted_map elim!: sorted_wrt_mono_rel [rotated])
  then have more: "appendSegmentIfMissing (dhSegments dr) stop = dhSegments dr @ [stop]"
    using new by (simp add: appendSegmentIfMissing_def sort_key_id_if_sorted)
  define dn where "dn = dr\<lparr>dhFiles := mput start (framed batch) (dhFiles dr),
    dhIndexes := mput start (batchIndex (indexInterval dr) 0 0 (zip batch frames)) (dhIndexes dr),
    dhCurrentSegment := stop, dhCurrentOffset := 0, dhLastIndexPosition := 0,
    dhIndexBytesWritten := 0, dhSegments := dhSegments dr @ [stop]\<rparr>"
  have d': "d' = (openIndexFiles (openSegment dn))\<lparr>dhCompacted := mput start (length (framed batch)) (dhCompacted dr),
    dhAbsoluteOffset := stop, dhFlushedOffset := stop, dhSynced := 0\<rparr>"
    using app
    unfolding WriteCompactedReplicaRange_def Let_def valid option.case dr_def [symmetric] frames sum.case more dn_def
    by (simp add: fr framed_def split: if_splits) (simp add: openIndexFiles_def openSegment_def Let_def)
  have "disk_rep d' (cs' @ [(start, map stored batch)]) []"
  proof (rule compacted_range_rep [OF rep' cur _ lt acc compactedRangeLoop_None [OF loop], of d' "indexInterval dr"])
    show "segmentFile d' = (segmentFile dr)(start := framed batch, stop := [])"
      using lt stop by (auto simp: d' dn_def openIndexFiles_def openSegment_def Let_def segmentFile_def fun_eq_iff)
    show "segmentIndex d' = (segmentIndex dr)(start := batchIndex (indexInterval dr) 0 0 (zip batch (map frame batch)), stop := [])"
      using lt by (auto simp: d' dn_def openIndexFiles_def openSegment_def Let_def segmentIndex_def fun_eq_iff fr)
  qed (use segs cur same wf(2) in \<open>auto simp: d' dn_def openIndexFiles_def openSegment_def Let_def same_bounds_def\<close>)
  moreover have "disk_log d = concat (map snd cs) @ ms" "disk_log d' = concat (map snd cs') @ map stored batch"
    using disk_log_rep [OF rep] disk_log_rep [OF calculation] by simp_all
  moreover have "dhWriteCh d' = [] \<and> dhAbsoluteOffset d' = stop"
    using same wf(2) by (simp add: d' dn_def openIndexFiles_def openSegment_def Let_def same_bounds_def)
  ultimately show ?thesis using log abs lt unfolding disk_wf_def by auto
qed

end
