(* ===== verification/Partition_Log.thy ===== *)
theory Partition_Log
  imports Disk_Retention Txn_Manager
begin

section \<open>Partitions\<close>

text \<open>
  \<open>Partition\<close> of \<open>pkg/topic/partition.go\<close>: producer sequencing, appends on a standalone broker, on a leader and on
  a replica, the committed watermark, the transaction marker index, committed reads, and recovery.

  The storage of a partition is the disk handler (\<open>pDh\<close>). The channels that wake the checkpoint loops are the flags
  \<open>pHwmDirty\<close> and \<open>pProducerDirty\<close>; the checkpoint files are \<open>pHwmFile\<close> and \<open>pProducerFile\<close>, by the values their
  text stands for. \<open>pMessageGeneration\<close> counts the notifications of waiting readers. The resolver of transaction
  decisions is an argument \<open>resolver\<close>: \<open>None\<close> for nil, and otherwise a function that gives the state of a
  transaction when it is known. The mutex of the partition makes each operation atomic. A message list that an
  operation fills in with offsets is returned.

  Arguments say what the storage does: \<open>fault\<close> as in the disk handler, \<open>accepted\<close> whether the queue takes the
  message before its timeout, \<open>busy\<close> whether readers are active.
\<close>

subsection \<open>State\<close>

record producerEntry =
  peEpoch :: i64
  peSeq :: u64
  peSeen :: instant

record transactionMarkerInfo =
  tmMarker :: string
  tmOffset :: u64

type_synonym transactionMarkerKey = "string \<times> i64"
type_synonym decisionResolver = "(string \<Rightarrow> i64 \<Rightarrow> string option) option"

record part_state =
  pId :: int
  pTopic :: string
  pMessageGeneration :: u64
  pLEO :: u64
  pHWM :: u64
  pSnapshotRecovery :: bool
  pRecoveryCheckpointHWM :: u64
  pRecoverySnapshotHWM :: u64
  pDh :: diskHandler
  pClosed :: bool
  pHwmFile :: "u64 option"
  pHwmDirty :: bool
  pProducerFile :: "(string, i64 \<times> u64) gomap option"
  pProducerDirty :: bool
  pProducerState :: "(string, producerEntry) gomap"
  pIsIdempotent :: bool
  pProducerStateTTL :: int
  pTxnMarkers :: "(transactionMarkerKey, transactionMarkerInfo) gomap"
  pTxnOpenOffsets :: "(transactionMarkerKey, u64) gomap"
  pTxnRetentionFloor :: u64

datatype part_error =
    PartitionClosed
  | MissingSequence              \<comment> \<open>an idempotent producer must set seqNum > 0\<close>
  | FirstSequence                \<comment> \<open>first message of a producer or of a new epoch must have seqNum 1\<close>
  | StaleProducerEpoch
  | SequenceGap
  | StorageError disk_error
  | PartitionIDRange
  | ReplicaConflict u64
  | ReplicaGap u64 u64
  | CompactedRange
  | WatermarkAhead
  | SnapshotPending
  | SnapshotBoundary
  | ReplicaBehind
  | OffsetOverflow

definition TransactionStateOpen :: string where "TransactionStateOpen = ''open''"
definition TransactionStateCommitted :: string where "TransactionStateCommitted = ''committed''"
definition TransactionStateAborted :: string where "TransactionStateAborted = ''aborted''"
definition TransactionMarkerNone :: string where "TransactionMarkerNone = ''''"
definition TransactionMarkerCommit :: string where "TransactionMarkerCommit = ''commit''"
definition TransactionMarkerAbort :: string where "TransactionMarkerAbort = ''abort''"

definition NotifyNewMessage :: "part_state \<Rightarrow> part_state" where
  "NotifyNewMessage p = p\<lparr>pMessageGeneration := pMessageGeneration p + 1\<rparr>"

subsection \<open>Producer sequences\<close>

text \<open>The results of validation: \<open>Inr True\<close> for a duplicate, \<open>Inr False\<close> for a message to append.\<close>

definition validateAgainstProducerState :: "message \<Rightarrow> i64 \<Rightarrow> u64 \<Rightarrow> bool \<Rightarrow> part_error + bool" where
  "validateAgainstProducerState msg lastEpoch lastSeq allowDuplicate =
     (if sint (mEpoch msg) < sint lastEpoch then Inl StaleProducerEpoch
      else if mEpoch msg = lastEpoch then
        (if allowDuplicate \<and> mSeqNum msg \<le> lastSeq then Inr True
         else if mSeqNum msg \<noteq> lastSeq + 1 then Inl SequenceGap
         else Inr False)
      else if mSeqNum msg \<noteq> 1 then Inl FirstSequence
      else Inr False)"

definition validateProducerMessageWithStage ::
  "message \<Rightarrow> (string, i64 \<times> u64) gomap option \<Rightarrow> bool \<Rightarrow> part_state \<Rightarrow> part_error + bool" where
  "validateProducerMessageWithStage msg staged force p =
     (if \<not> pIsIdempotent p \<and> \<not> force then Inr False
      else if mProducerID msg = [] then Inr False
      else if mSeqNum msg = 0 then (if force then Inl MissingSequence else Inr False)
      else case (case staged of None \<Rightarrow> None | Some s \<Rightarrow> map_of s (mProducerID msg)) of
        Some (lastEpoch, lastSeq) \<Rightarrow> validateAgainstProducerState msg lastEpoch lastSeq True
      | None \<Rightarrow>
          (case map_of (pProducerState p) (mProducerID msg) of
             Some entry \<Rightarrow> validateAgainstProducerState msg (peEpoch entry) (peSeq entry) True
           | None \<Rightarrow> if mSeqNum msg \<noteq> 1 then Inl FirstSequence else Inr False))"

definition validateProducerMessage :: "message \<Rightarrow> part_state \<Rightarrow> part_error + bool" where
  "validateProducerMessage msg = validateProducerMessageWithStage msg None False"

definition updateProducerStateWithMode :: "instant \<Rightarrow> message \<Rightarrow> bool \<Rightarrow> part_state \<Rightarrow> part_state" where
  "updateProducerStateWithMode now msg force p =
     (if \<not> pIsIdempotent p \<and> \<not> force \<or> mProducerID msg = [] then p
      else p\<lparr>pProducerState := mput (mProducerID msg)
               \<lparr>peEpoch = mEpoch msg, peSeq = mSeqNum msg, peSeen = now\<rparr> (pProducerState p),
             pProducerDirty := True\<rparr>)"

definition cleanStaleProducers :: "instant \<Rightarrow> part_state \<Rightarrow> part_state" where
  "cleanStaleProducers now p =
     (let ttl = (if pProducerStateTTL p \<le> 0 then 1800000000000 else pProducerStateTTL p)
      in p\<lparr>pProducerState := filter (\<lambda>e. \<not> peSeen (snd e) < now - ttl) (pProducerState p)\<rparr>)"

subsection \<open>Transaction markers\<close>

definition messageTransactionMarkerKey :: "message \<Rightarrow> transactionMarkerKey" where
  "messageTransactionMarkerKey msg = (mTransactionalID msg, mEpoch msg)"

definition noteMarker ::
  "message \<Rightarrow> (transactionMarkerKey, transactionMarkerInfo) gomap \<Rightarrow> (transactionMarkerKey, transactionMarkerInfo) gomap" where
  "noteMarker msg markers =
     (let key = messageTransactionMarkerKey msg in
      if (case map_of markers key of None \<Rightarrow> True | Some existing \<Rightarrow> mOffset msg \<ge> tmOffset existing)
      then mput key \<lparr>tmMarker = mTransactionMarker msg, tmOffset = mOffset msg\<rparr> markers else markers)"

definition noteOpen :: "message \<Rightarrow> (transactionMarkerKey, u64) gomap \<Rightarrow> (transactionMarkerKey, u64) gomap" where
  "noteOpen msg opens =
     (let key = messageTransactionMarkerKey msg in
      if (case map_of opens key of None \<Rightarrow> True | Some existing \<Rightarrow> mOffset msg < existing)
      then mput key (mOffset msg) opens else opens)"

definition indexTransactionMessage :: "message \<Rightarrow> part_state \<Rightarrow> part_state" where
  "indexTransactionMessage msg p =
     (if mTransactionalID msg = [] then p
      else if mTransactionMarker msg \<noteq> TransactionMarkerNone then p\<lparr>pTxnMarkers := noteMarker msg (pTxnMarkers p)\<rparr>
      else if mTransactionState msg = TransactionStateOpen then p\<lparr>pTxnOpenOffsets := noteOpen msg (pTxnOpenOffsets p)\<rparr>
      else p)"

definition pruneTransactionIndex :: "u64 \<Rightarrow> part_state \<Rightarrow> part_state" where
  "pruneTransactionIndex retentionFloor p =
     (if retentionFloor \<le> pTxnRetentionFloor p then p
      else let stale = map fst (filter (\<lambda>e. \<not> tmOffset (snd e) \<ge> retentionFloor) (pTxnMarkers p))
        in p\<lparr>pTxnMarkers := filter (\<lambda>e. fst e \<notin> set stale) (pTxnMarkers p),
             pTxnOpenOffsets := filter (\<lambda>e. fst e \<notin> set stale) (pTxnOpenOffsets p),
             pTxnRetentionFloor := retentionFloor\<rparr>)"

definition transactionDecisionMatchesMarker ::
  "transactionMarkerKey \<Rightarrow> transactionMarkerInfo \<Rightarrow> decisionResolver \<Rightarrow> bool" where
  "transactionDecisionMatchesMarker key marker resolver =
     (case resolver of
        None \<Rightarrow> True
      | Some decide \<Rightarrow>
          (case decide (fst key) (snd key) of
             None \<Rightarrow> True
           | Some state \<Rightarrow> tmMarker marker = TransactionMarkerCommit \<and> state = TransactionStateCommitted \<or>
                           tmMarker marker = TransactionMarkerAbort \<and> state = TransactionStateAborted))"

fun firstUnresolved ::
  "u64 \<Rightarrow> u64 \<Rightarrow> (transactionMarkerKey, transactionMarkerInfo) gomap \<Rightarrow> decisionResolver \<Rightarrow> u64 \<Rightarrow>
   (transactionMarkerKey \<times> u64) list \<Rightarrow> u64" where
  "firstUnresolved hwm retentionFloor markers resolver first [] = first"
| "firstUnresolved hwm retentionFloor markers resolver first ((key, offset) # rest) =
     (if offset \<ge> hwm then firstUnresolved hwm retentionFloor markers resolver first rest
      else if (case map_of markers key of
                 None \<Rightarrow> False
               | Some marker \<Rightarrow> tmOffset marker < hwm \<and> tmOffset marker > offset \<and>
                                transactionDecisionMatchesMarker key marker resolver)
      then firstUnresolved hwm retentionFloor markers resolver first rest
      else let offset = (if offset < retentionFloor then retentionFloor else offset)
        in firstUnresolved hwm retentionFloor markers resolver (if offset < first then offset else first) rest)"

definition firstUnresolvedOpenOffset ::
  "u64 \<Rightarrow> u64 \<Rightarrow> (transactionMarkerKey, u64) gomap \<Rightarrow> (transactionMarkerKey, transactionMarkerInfo) gomap \<Rightarrow>
   decisionResolver \<Rightarrow> u64" where
  "firstUnresolvedOpenOffset hwm retentionFloor openOffsets markers resolver =
     firstUnresolved hwm retentionFloor markers resolver hwm openOffsets"

definition isReadCommittedVisible ::
  "message \<Rightarrow> u64 \<Rightarrow> (transactionMarkerKey, transactionMarkerInfo) gomap \<Rightarrow> decisionResolver \<Rightarrow> bool" where
  "isReadCommittedVisible msg hwm markers resolver =
     (if mTransactionMarker msg \<noteq> TransactionMarkerNone then False
      else if mTransactionalID msg = [] then True
      else if mTransactionState msg = TransactionStateAborted then False
      else let key = messageTransactionMarkerKey msg in
        case map_of markers key of
          None \<Rightarrow> False
        | Some marker \<Rightarrow> tmOffset marker < hwm \<and> tmOffset marker > mOffset msg \<and>
                         tmMarker marker = TransactionMarkerCommit \<and>
                         transactionDecisionMatchesMarker key marker resolver)"

subsection \<open>Watermarks\<close>

definition setHWMLocked :: "u64 \<Rightarrow> part_state \<Rightarrow> bool \<times> part_state" where
  "setHWMLocked hwm p =
     (if hwm \<le> pHWM p then (False, p)
      else (True, p\<lparr>pHWM := hwm, pHwmDirty := pHwmDirty p \<or> \<not> pSnapshotRecovery p\<rparr>))"

definition SetHWM :: "u64 \<Rightarrow> part_state \<Rightarrow> part_state" where
  "SetHWM hwm p = (case setHWMLocked hwm p of (True, p) \<Rightarrow> NotifyNewMessage p | (False, p) \<Rightarrow> p)"

definition AdvanceHWM :: "part_state \<Rightarrow> part_state" where
  "AdvanceHWM p = snd (setHWMLocked (pLEO p) p)"

definition ApplyReplicaHWM :: "u64 \<Rightarrow> part_state \<Rightarrow> part_error option \<times> part_state" where
  "ApplyReplicaHWM hwm p = (if hwm > pLEO p then (Some WatermarkAhead, p) else (None, SetHWM hwm p))"

definition persistHWMCheckpoint :: "part_state \<Rightarrow> part_state" where
  "persistHWMCheckpoint p = p\<lparr>pHwmFile := Some (pHWM p)\<rparr>"

definition persistProducerStateCheckpoint :: "part_state \<Rightarrow> part_state" where
  "persistProducerStateCheckpoint p =
     p\<lparr>pProducerFile := Some (map (\<lambda>e. (fst e, peEpoch (snd e), peSeq (snd e)))
         (filter (\<lambda>e. fst e \<noteq> [] \<and> peSeq (snd e) \<noteq> 0) (pProducerState p)))\<rparr>"

text \<open>A tick of the two checkpoint loops.\<close>

definition hwmCheckpointTick :: "part_state \<Rightarrow> part_state" where
  "hwmCheckpointTick p = (if pHwmDirty p then (persistHWMCheckpoint p)\<lparr>pHwmDirty := False\<rparr> else p)"

definition producerCheckpointTick :: "part_state \<Rightarrow> part_state" where
  "producerCheckpointTick p =
     (if pProducerDirty p then (persistProducerStateCheckpoint p)\<lparr>pProducerDirty := False\<rparr> else p)"

definition loadProducerStateCheckpoint :: "instant \<Rightarrow> part_state \<Rightarrow> part_state" where
  "loadProducerStateCheckpoint now p =
     (case pProducerFile p of
        None \<Rightarrow> p
      | Some producers \<Rightarrow>
          p\<lparr>pProducerState := fold (\<lambda>(producerID, epoch, seq) st.
              if producerID = [] \<or> seq = 0 then st
              else mput producerID \<lparr>peEpoch = epoch, peSeq = seq, peSeen = now\<rparr> st) producers (pProducerState p)\<rparr>)"

text \<open>The gate that the partition hands to its disk handler; \<open>gate\<close> is the one of the cluster, \<open>None\<close> for nil.\<close>

definition distributedCompactionGate :: "(string \<Rightarrow> int \<Rightarrow> bool \<times> string) option \<Rightarrow> part_state \<Rightarrow> bool \<times> string" where
  "distributedCompactionGate gate p =
     (if pClosed p then (False, ''partition_closed'')
      else if pLEO p \<noteq> pHWM p then (False, ''local_uncommitted_tail'')
      else case gate of None \<Rightarrow> (False, ''cluster_gate_unavailable'') | Some g \<Rightarrow> g (pTopic p) (pId p))"

definition ReserveOffsets :: "int \<Rightarrow> part_state \<Rightarrow> (part_error + u64) \<times> part_state" where
  "ReserveOffsets count p =
     (if count \<le> 0 then (Inr (pLEO p), p)
      else if count > int (unat (- 1 - pLEO p)) then (Inl OffsetOverflow, p)
      else (Inr (pLEO p), p\<lparr>pLEO := pLEO p + word_of_int count\<rparr>))"

subsection \<open>Appending on a standalone broker\<close>

definition recordAppended :: "instant \<Rightarrow> bool \<Rightarrow> message \<Rightarrow> u64 \<Rightarrow> part_state \<Rightarrow> part_state" where
  "recordAppended now force msg offset p =
     (let p = updateProducerStateWithMode now msg force p;
          p = indexTransactionMessage (msg\<lparr>mOffset := offset\<rparr>) p;
          p = p\<lparr>pLEO := offset + 1\<rparr>
      in snd (setHWMLocked (offset + 1) p))"

definition Enqueue :: "instant \<Rightarrow> message \<Rightarrow> bool \<Rightarrow> part_state \<Rightarrow> part_error option \<times> part_state" where
  "Enqueue now msg accepted p =
     (if pClosed p then (Some PartitionClosed, p)
      else case validateProducerMessage msg p of
        Inl e \<Rightarrow> (Some e, p)
      | Inr True \<Rightarrow> (None, p)
      | Inr False \<Rightarrow>
          (case AppendMessage (pTopic p) (pId p) msg accepted (pDh p) of
             (Inl e, dh) \<Rightarrow> (Some (StorageError e), p\<lparr>pDh := dh\<rparr>)
           | (Inr offset, dh) \<Rightarrow> (None, NotifyNewMessage (recordAppended now False msg offset (p\<lparr>pDh := dh\<rparr>)))))"

definition enqueueSync :: "instant \<Rightarrow> message \<Rightarrow> bool \<Rightarrow> nat option \<Rightarrow> part_state \<Rightarrow> part_error option \<times> part_state" where
  "enqueueSync now msg forceIdempotent fault p =
     (if pClosed p then (Some PartitionClosed, p)
      else case validateProducerMessageWithStage msg None forceIdempotent p of
        Inl e \<Rightarrow> (Some e, p)
      | Inr True \<Rightarrow> (None, p)
      | Inr False \<Rightarrow>
          (case AppendMessageSync (pTopic p) (pId p) msg fault (pDh p) of
             (Inl e, dh) \<Rightarrow> (Some (StorageError e), p\<lparr>pDh := dh\<rparr>)
           | (Inr offset, dh) \<Rightarrow>
               (None, NotifyNewMessage (recordAppended now forceIdempotent msg offset (p\<lparr>pDh := dh\<rparr>)))))"

fun batchSyncLoop ::
  "instant \<Rightarrow> bool \<Rightarrow> nat option list \<Rightarrow> message list \<Rightarrow> part_state \<Rightarrow> part_error option \<times> message list \<times> part_state" where
  "batchSyncLoop now forceIdempotent faults [] p = (None, [], NotifyNewMessage p)"
| "batchSyncLoop now forceIdempotent faults (msg # msgs) p =
     (case validateProducerMessageWithStage msg None forceIdempotent p of
        Inl e \<Rightarrow> (Some e, msg # msgs, p)
      | Inr True \<Rightarrow>
          (case batchSyncLoop now forceIdempotent (tl faults) msgs p of (err, rest, p) \<Rightarrow> (err, msg # rest, p))
      | Inr False \<Rightarrow>
          (case AppendMessageSync (pTopic p) (pId p) msg (if faults = [] then None else hd faults) (pDh p) of
             (Inl e, dh) \<Rightarrow> (Some (StorageError e), msg # msgs, NotifyNewMessage (p\<lparr>pDh := dh\<rparr>))
           | (Inr offset, dh) \<Rightarrow>
               (case batchSyncLoop now forceIdempotent (tl faults) msgs
                       (recordAppended now forceIdempotent msg offset (p\<lparr>pDh := dh\<rparr>)) of
                  (err, rest, p) \<Rightarrow> (err, msg\<lparr>mOffset := offset\<rparr> # rest, p))))"

definition EnqueueBatchSyncWithMode ::
  "instant \<Rightarrow> message list \<Rightarrow> bool \<Rightarrow> nat option list \<Rightarrow> part_state \<Rightarrow> part_error option \<times> message list \<times> part_state" where
  "EnqueueBatchSyncWithMode now msgs forceIdempotent faults p =
     (if pClosed p then (Some PartitionClosed, msgs, p) else batchSyncLoop now forceIdempotent faults msgs p)"

fun batchLoop ::
  "instant \<Rightarrow> bool list \<Rightarrow> message list \<Rightarrow> part_state \<Rightarrow> part_error option \<times> message list \<times> part_state" where
  "batchLoop now accepted [] p = (None, [], NotifyNewMessage p)"
| "batchLoop now accepted (msg # msgs) p =
     (case validateProducerMessage msg p of
        Inl e \<Rightarrow> (Some e, msg # msgs, p)
      | Inr True \<Rightarrow> (case batchLoop now (tl accepted) msgs p of (err, rest, p) \<Rightarrow> (err, msg # rest, p))
      | Inr False \<Rightarrow>
          (case AppendMessage (pTopic p) (pId p) msg (accepted = [] \<or> hd accepted) (pDh p) of
             (Inl e, dh) \<Rightarrow> (Some (StorageError e), msg # msgs, NotifyNewMessage (p\<lparr>pDh := dh\<rparr>))
           | (Inr offset, dh) \<Rightarrow>
               (case batchLoop now (tl accepted) msgs (recordAppended now False msg offset (p\<lparr>pDh := dh\<rparr>)) of
                  (err, rest, p) \<Rightarrow> (err, msg\<lparr>mOffset := offset\<rparr> # rest, p))))"

definition EnqueueBatch ::
  "instant \<Rightarrow> message list \<Rightarrow> bool list \<Rightarrow> part_state \<Rightarrow> part_error option \<times> message list \<times> part_state" where
  "EnqueueBatch now msgs accepted p =
     (if pClosed p then (Some PartitionClosed, msgs, p) else batchLoop now accepted msgs p)"

subsection \<open>Appending on a leader\<close>

definition batchHasTransactionalMessages :: "message list \<Rightarrow> bool" where
  "batchHasTransactionalMessages msgs = list_ex (\<lambda>msg. mTransactionalID msg \<noteq> []) msgs"

text \<open>
  \<open>stageLeader\<close> validates the messages one after the other against the partition and the earlier messages of the
  batch, and gives those to append with their offsets. A duplicate keeps the offset it came with; the flag of each
  result says whether the message is pending.
\<close>

fun stageLeader ::
  "bool \<Rightarrow> u64 \<Rightarrow> (string, i64 \<times> u64) gomap \<Rightarrow> message list \<Rightarrow> part_state \<Rightarrow>
   part_error option \<times> (bool \<times> message) list" where
  "stageLeader force nextOffset staged [] p = (None, [])"
| "stageLeader force nextOffset staged (msg # msgs) p =
     (case validateProducerMessageWithStage msg (Some staged) force p of
        Inl e \<Rightarrow> (Some e, map (Pair False) (msg # msgs))
      | Inr True \<Rightarrow> map_prod id ((#) (False, msg)) (stageLeader force nextOffset staged msgs p)
      | Inr False \<Rightarrow>
          (let staged = (if (pIsIdempotent p \<or> force) \<and> mProducerID msg \<noteq> [] \<and> mSeqNum msg > 0
                         then mput (mProducerID msg) (mEpoch msg, mSeqNum msg) staged else staged)
           in map_prod id ((#) (True, msg\<lparr>mOffset := nextOffset\<rparr>))
                (stageLeader force (nextOffset + 1) staged msgs p)))"

definition writeBatchDurably :: "diskMessage list \<Rightarrow> nat option \<Rightarrow> diskHandler \<Rightarrow> disk_error option \<times> diskHandler" where
  "writeBatchDurably batch fault dh = (if batch = [] then (None, dh) else WriteBatchSync batch fault dh)"

definition noteAppended :: "instant \<Rightarrow> (message \<Rightarrow> bool) \<Rightarrow> message list \<Rightarrow> part_state \<Rightarrow> part_state" where
  "noteAppended now force msgs p =
     fold (\<lambda>msg p. indexTransactionMessage msg (updateProducerStateWithMode now msg (force msg) p)) msgs p"

definition EnqueueBatchLeaderWithMode ::
  "instant \<Rightarrow> message list \<Rightarrow> bool \<Rightarrow> nat option \<Rightarrow> part_state \<Rightarrow> part_error option \<times> message list \<times> part_state" where
  "EnqueueBatchLeaderWithMode now msgs forceIdempotent fault p =
     (if pClosed p then (Some PartitionClosed, msgs, p)
      else if pId p > 2147483647 then (Some PartitionIDRange, msgs, p)
      else let force = (forceIdempotent \<or> batchHasTransactionalMessages msgs) in
        case stageLeader force (pLEO p) [] msgs p of
          (Some e, stagedMsgs) \<Rightarrow> (Some e, map snd stagedMsgs, p)
        | (None, stagedMsgs) \<Rightarrow>
            (let pending = map snd (filter fst stagedMsgs);
                 diskBatch = map (diskMessageFromMessage (pTopic p) (word_of_int (pId p))) pending
             in if diskBatch = [] then (None, map snd stagedMsgs, NotifyNewMessage p)
                else case writeBatchDurably diskBatch fault (pDh p) of
                  (Some e, dh) \<Rightarrow>
                    (Some (StorageError e), map (\<lambda>(isPending, m). if isPending then m\<lparr>mOffset := 0\<rparr> else m) stagedMsgs,
                     NotifyNewMessage (p\<lparr>pDh := dh\<rparr>))
                | (None, dh) \<Rightarrow>
                    (None, map snd stagedMsgs,
                     NotifyNewMessage ((noteAppended now (\<lambda>_. force) pending (p\<lparr>pDh := dh\<rparr>))
                       \<lparr>pLEO := pLEO p + word_of_nat (length pending)\<rparr>))))"

subsection \<open>Appending on a replica\<close>

definition sameReplicatedMessage :: "message \<Rightarrow> message \<Rightarrow> bool" where
  "sameReplicatedMessage a b \<longleftrightarrow>
     mOffset a = mOffset b \<and> mProducerID a = mProducerID b \<and> mSeqNum a = mSeqNum b \<and> mPayload a = mPayload b \<and>
     mKey a = mKey b \<and> mEpoch a = mEpoch b \<and> mEventType a = mEventType b \<and> mSchemaVersion a = mSchemaVersion b \<and>
     mAggregateVersion a = mAggregateVersion b \<and> mMetadata a = mMetadata b \<and>
     mTransactionalID a = mTransactionalID b \<and> mTransactionState a = mTransactionState b \<and>
     mTransactionMarker a = mTransactionMarker b \<and> mControlBatchType a = mControlBatchType b \<and>
     mControlBatchVersion a = mControlBatchVersion b \<and>
     mControlBatchCoordinatorEpoch a = mControlBatchCoordinatorEpoch b \<and>
     slice_bytes (mControlBatchKey a) = slice_bytes (mControlBatchKey b) \<and>
     slice_bytes (mControlBatchValue a) = slice_bytes (mControlBatchValue b)"

fun stageReplica :: "diskHandler \<Rightarrow> u64 \<Rightarrow> u64 \<Rightarrow> (u64, message) gomap \<Rightarrow> message list \<Rightarrow> part_error + message list" where
  "stageReplica dh initialLEO nextOffset stagedByOffset [] = Inr []"
| "stageReplica dh initialLEO nextOffset stagedByOffset (msg # msgs) =
     (if mOffset msg < initialLEO then
        (case ReadMessages (mOffset msg) 1 dh of
           Inr [existing] \<Rightarrow>
             if \<not> sameReplicatedMessage existing msg then Inl (ReplicaConflict (mOffset msg))
             else stageReplica dh initialLEO nextOffset stagedByOffset msgs
         | _ \<Rightarrow> Inl (ReplicaConflict (mOffset msg)))
      else if mOffset msg < nextOffset then
        (case map_of stagedByOffset (mOffset msg) of
           None \<Rightarrow> Inl (ReplicaConflict (mOffset msg))
         | Some existing \<Rightarrow>
             if \<not> sameReplicatedMessage existing msg then Inl (ReplicaConflict (mOffset msg))
             else stageReplica dh initialLEO nextOffset stagedByOffset msgs)
      else if mOffset msg > nextOffset then Inl (ReplicaGap nextOffset (mOffset msg))
      else map_sum id ((#) msg)
             (stageReplica dh initialLEO (nextOffset + 1) (mput (mOffset msg) msg stagedByOffset) msgs))"

definition ReplicaAppendWithMode ::
  "instant \<Rightarrow> message list \<Rightarrow> bool \<Rightarrow> nat option \<Rightarrow> part_state \<Rightarrow> part_error option \<times> part_state" where
  "ReplicaAppendWithMode now msgs forceIdempotent fault p =
     (if pClosed p then (Some PartitionClosed, p)
      else if pId p > 2147483647 then (Some PartitionIDRange, p)
      else case stageReplica (pDh p) (pLEO p) (pLEO p) [] msgs of
        Inl e \<Rightarrow> (Some e, p)
      | Inr pending \<Rightarrow>
          (case writeBatchDurably (map (diskMessageFromMessage (pTopic p) (word_of_int (pId p))) pending) fault (pDh p) of
             (Some e, dh) \<Rightarrow> (Some (StorageError e), p\<lparr>pDh := dh\<rparr>)
           | (None, dh) \<Rightarrow>
               (let p' = noteAppended now (\<lambda>msg. forceIdempotent \<or> mTransactionalID msg \<noteq> []) pending (p\<lparr>pDh := dh\<rparr>)
                in (None, if pending = [] then p'
                          else NotifyNewMessage (p'\<lparr>pLEO := pLEO p + word_of_nat (length pending)\<rparr>)))))"

fun compactedOffsets :: "u64 \<Rightarrow> u64 \<Rightarrow> u64 option \<Rightarrow> message list \<Rightarrow> bool" where
  "compactedOffsets startOffset endOffset previous [] = True"
| "compactedOffsets startOffset endOffset previous (msg # msgs) =
     (if mOffset msg < startOffset \<or> mOffset msg \<ge> endOffset \<or>
         (case previous of None \<Rightarrow> False | Some p \<Rightarrow> mOffset msg \<le> p) then False
      else compactedOffsets startOffset endOffset (Some (mOffset msg)) msgs)"

definition ReplicaAppendCompactedRange ::
  "instant \<Rightarrow> message list \<Rightarrow> u64 \<Rightarrow> bool \<Rightarrow> part_state \<Rightarrow> part_error option \<times> part_state" where
  "ReplicaAppendCompactedRange now msgs endOffset busy p =
     (if pClosed p then (Some PartitionClosed, p)
      else if endOffset \<le> pLEO p then (Some CompactedRange, p)
      else if pId p > 2147483647 then (Some PartitionIDRange, p)
      else if \<not> compactedOffsets (pLEO p) endOffset None msgs then (Some CompactedRange, p)
      else case WriteCompactedReplicaRange busy (pLEO p) endOffset
                  (map (diskMessageFromMessage (pTopic p) (word_of_int (pId p))) msgs) (pDh p) of
        (Some e, dh) \<Rightarrow> (Some (StorageError e), p\<lparr>pDh := dh\<rparr>)
      | (None, dh) \<Rightarrow>
          (None, NotifyNewMessage ((noteAppended now (\<lambda>_. True) msgs (p\<lparr>pDh := dh\<rparr>))\<lparr>pLEO := endOffset\<rparr>)))"

subsection \<open>Scanning the log\<close>

text \<open>
  The loops that read the log in batches of 1024 messages, from an offset to the tail. They give \<open>None\<close> when they
  do not end.
\<close>

definition advance :: "message \<Rightarrow> u64 \<Rightarrow> u64" where
  "advance msg offset = (let nxt = mOffset msg + 1 in if nxt \<le> offset then offset + 1 else nxt)"

partial_function (option) scanLog :: "(message \<Rightarrow> 's \<Rightarrow> 's) \<Rightarrow> diskHandler \<Rightarrow> u64 \<Rightarrow> u64 \<Rightarrow> 's \<Rightarrow> 's option" where
  "scanLog visit dh tail offset st =
     (if \<not> offset < tail then Some st
      else case ReadMessages offset 1024 dh of
        Inl e \<Rightarrow> Some st
      | Inr msgs \<Rightarrow>
          if msgs = [] then Some st
          else if length msgs < 1024 then Some (fold visit msgs st)
          else scanLog visit dh tail (fold advance msgs offset) (fold visit msgs st))"

definition visitMarker ::
  "message \<Rightarrow> (transactionMarkerKey, transactionMarkerInfo) gomap \<times> (transactionMarkerKey, u64) gomap \<Rightarrow>
   (transactionMarkerKey, transactionMarkerInfo) gomap \<times> (transactionMarkerKey, u64) gomap" where
  "visitMarker msg st =
     ((if mTransactionalID msg \<noteq> [] \<and> mTransactionMarker msg \<noteq> TransactionMarkerNone then noteMarker msg (fst st) else fst st),
      (if mTransactionalID msg \<noteq> [] \<and> mTransactionMarker msg = TransactionMarkerNone \<and>
          mTransactionState msg = TransactionStateOpen then noteOpen msg (snd st) else snd st))"

definition rebuildTransactionMarkerIndex :: "part_state \<Rightarrow> part_state option" where
  "rebuildTransactionMarkerIndex p =
     (let first = GetFirstOffset (pDh p); durableTail = dhAbsoluteOffset (pDh p) in
      if durableTail \<le> first then Some p
      else case scanLog visitMarker (pDh p) durableTail first ([], []) of
        None \<Rightarrow> None
      | Some (markers, opens) \<Rightarrow>
          Some (p\<lparr>pTxnMarkers := markers, pTxnOpenOffsets := opens, pTxnRetentionFloor := first\<rparr>))"

definition visitProducer :: "instant \<Rightarrow> message \<Rightarrow> (string, producerEntry) gomap \<Rightarrow> (string, producerEntry) gomap" where
  "visitProducer now msg st =
     (if mProducerID msg \<noteq> [] \<and> mSeqNum msg > 0
      then mput (mProducerID msg) \<lparr>peEpoch = mEpoch msg, peSeq = mSeqNum msg, peSeen = now\<rparr> st else st)"

definition RecoverProducerStateFromLog :: "instant \<Rightarrow> part_state \<Rightarrow> part_state option" where
  "RecoverProducerStateFromLog now p =
     (let first = GetFirstOffset (pDh p); durableTail = dhAbsoluteOffset (pDh p) in
      if durableTail \<le> first then Some p
      else map_option (\<lambda>st. p\<lparr>pProducerState := st, pProducerDirty := True\<rparr>)
             (scanLog (visitProducer now) (pDh p) durableTail first (pProducerState p)))"

definition findSequence :: "string \<Rightarrow> i64 \<Rightarrow> u64 \<Rightarrow> u64 \<Rightarrow> message list \<Rightarrow> message option" where
  "findSequence producerID epoch seqNum limit msgs =
     find (\<lambda>m. mOffset m \<ge> limit \<or> mProducerID m = producerID \<and> mEpoch m = epoch \<and> mSeqNum m = seqNum) msgs"

partial_function (option) sequenceLoop ::
  "string \<Rightarrow> i64 \<Rightarrow> u64 \<Rightarrow> diskHandler \<Rightarrow> u64 \<Rightarrow> u64 \<Rightarrow> (disk_error + u64 option) option" where
  "sequenceLoop producerID epoch seqNum dh limit offset =
     (if \<not> offset < limit then Some (Inr None)
      else case ReadMessages offset 1024 dh of
        Inl e \<Rightarrow> Some (Inl e)
      | Inr msgs \<Rightarrow>
          if msgs = [] then Some (Inr None)
          else case findSequence producerID epoch seqNum limit msgs of
            Some m \<Rightarrow> Some (Inr (if mOffset m \<ge> limit then None else Some (mOffset m)))
          | None \<Rightarrow>
              if length msgs < 1024 then Some (Inr None)
              else sequenceLoop producerID epoch seqNum dh limit (fold advance msgs offset))"

definition ProducerSequenceOffset :: "string \<Rightarrow> i64 \<Rightarrow> u64 \<Rightarrow> part_state \<Rightarrow> (disk_error + u64 option) option" where
  "ProducerSequenceOffset producerID epoch seqNum p =
     (if producerID = [] \<or> seqNum = 0 then Some (Inr None)
      else sequenceLoop producerID epoch seqNum (pDh p) (pLEO p) (GetFirstOffset (pDh p)))"

subsection \<open>Committed reads\<close>

text \<open>The committed tail that readers see: the watermark, but not past what has been written to disk.\<close>

definition committedTail :: "part_state \<Rightarrow> u64" where
  "committedTail p = (if dhFlushedOffset (pDh p) < pHWM p then dhFlushedOffset (pDh p) else pHWM p)"

definition LastStableOffset :: "decisionResolver \<Rightarrow> part_state \<Rightarrow> u64 \<times> part_state" where
  "LastStableOffset resolver p =
     (let hwm = committedTail p; p = pruneTransactionIndex (GetFirstOffset (pDh p)) p
      in (firstUnresolvedOpenOffset hwm (pTxnRetentionFloor p) (pTxnOpenOffsets p) (pTxnMarkers p) resolver, p))"

fun visibleBatch ::
  "(message \<Rightarrow> bool) \<Rightarrow> u64 \<Rightarrow> nat \<Rightarrow> message list \<Rightarrow> u64 \<Rightarrow> message list \<Rightarrow> u64 \<times> message list" where
  "visibleBatch isVisible scanLimit maxVisible [] current visible = (current, visible)"
| "visibleBatch isVisible scanLimit maxVisible (msg # msgs) current visible =
     (if mOffset msg \<ge> scanLimit then (current, visible)
      else let current = advance msg current in
        if isVisible msg
        then let visible = visible @ [msg]
             in if length visible = maxVisible then (current, visible)
                else visibleBatch isVisible scanLimit maxVisible msgs current visible
        else visibleBatch isVisible scanLimit maxVisible msgs current visible)"

definition readBatchSize :: "u64 \<Rightarrow> u64 \<Rightarrow> nat" where
  "readBatchSize scanLimit current =
     (let remaining = unat (scanLimit - current)
      in if remaining < 2 ^ 63 \<and> 1024 > remaining then remaining else 1024)"

partial_function (option) committedLoop ::
  "(message \<Rightarrow> bool) \<Rightarrow> diskHandler \<Rightarrow> u64 \<Rightarrow> nat \<Rightarrow> u64 \<Rightarrow> message list \<Rightarrow> (disk_error + message list) option" where
  "committedLoop isVisible dh scanLimit maxVisible current visible =
     (if \<not> (current < scanLimit \<and> length visible < maxVisible) then Some (Inr visible)
      else let readMax = readBatchSize scanLimit current in
        case ReadMessages current (int readMax) dh of
          Inl e \<Rightarrow> Some (Inl e)
        | Inr batch \<Rightarrow>
            if batch = [] then Some (Inr visible)
            else let (current', visible') = visibleBatch isVisible scanLimit maxVisible batch current visible
              in if length batch < readMax then Some (Inr visible')
                 else committedLoop isVisible dh scanLimit maxVisible current' visible')"

definition readCommittedScanRange ::
  "u64 \<Rightarrow> u64 \<Rightarrow> u64 \<Rightarrow> nat \<Rightarrow> (transactionMarkerKey, transactionMarkerInfo) gomap \<Rightarrow> decisionResolver \<Rightarrow> diskHandler \<Rightarrow>
   (disk_error + message list) option" where
  "readCommittedScanRange offset scanLimit committedHWM maxVisible markers resolver dh =
     (if offset \<ge> scanLimit then Some (Inr [])
      else committedLoop (\<lambda>msg. isReadCommittedVisible msg committedHWM markers resolver) dh scanLimit maxVisible offset [])"

definition readVisibleCommitted ::
  "u64 \<Rightarrow> int \<Rightarrow> u64 \<Rightarrow> decisionResolver \<Rightarrow> part_state \<Rightarrow> (disk_error + message list) option" where
  "readVisibleCommitted offset limit hwm resolver p =
     (if limit \<le> 0 then Some (Inr [])
      else let lso = firstUnresolvedOpenOffset hwm (pTxnRetentionFloor p) (pTxnOpenOffsets p) (pTxnMarkers p) resolver;
               scanLimit = (if lso < hwm then lso else hwm)
        in readCommittedScanRange offset scanLimit hwm (nat limit) (pTxnMarkers p) resolver (pDh p))"

definition ReadCommitted ::
  "u64 \<Rightarrow> int \<Rightarrow> decisionResolver \<Rightarrow> part_state \<Rightarrow> (disk_error + message list) option \<times> part_state" where
  "ReadCommitted offset limit resolver p =
     (let hwm = committedTail p; earliest = GetFirstOffset (pDh p) in
      if offset < earliest then (Some (Inl (OffsetOutOfRange offset earliest hwm)), p)
      else if offset \<ge> hwm then (Some (Inr []), p)
      else let p = pruneTransactionIndex earliest p;
               canRead = unat (hwm - offset);
               limit = (if canRead < 2 ^ 63 \<and> limit > int canRead then int canRead else limit)
        in (readVisibleCommitted offset limit hwm resolver p, p))"

record partitionOffsetRange =
  prEarliest :: u64
  prLatest :: u64
  prLEO :: u64
  prHWM :: u64

definition OffsetRange :: "part_state \<Rightarrow> partitionOffsetRange" where
  "OffsetRange p = \<lparr>prEarliest = GetFirstOffset (pDh p), prLatest = committedTail p, prLEO = pLEO p, prHWM = pHWM p\<rparr>"

subsection \<open>Opening, promotion and recovery\<close>

text \<open>\<open>saved\<close> carries the checkpoint files that \<open>NewPartition\<close> finds, and the settings of the topic.\<close>

definition NewPartition :: "instant \<Rightarrow> int \<Rightarrow> string \<Rightarrow> diskHandler \<Rightarrow> part_state \<Rightarrow> part_state option" where
  "NewPartition now partitionID topic dh saved =
     (let durableTail = dhAbsoluteOffset dh;
          hwm = (case pHwmFile saved of
                   Some persistedHWM \<Rightarrow> if persistedHWM > durableTail then durableTail else persistedHWM
                 | None \<Rightarrow> durableTail);
          p = saved\<lparr>pId := partitionID, pTopic := topic, pMessageGeneration := 0, pLEO := durableTail, pHWM := hwm,
                    pSnapshotRecovery := False, pRecoveryCheckpointHWM := 0, pRecoverySnapshotHWM := 0, pDh := dh,
                    pClosed := False, pHwmDirty := False, pProducerDirty := False, pProducerState := [],
                    pTxnMarkers := [], pTxnOpenOffsets := [], pTxnRetentionFloor := 0\<rparr>
      in rebuildTransactionMarkerIndex (loadProducerStateCheckpoint now p))"

text \<open>Opening a partition of a topic (\<open>newTopicWithDefinition\<close> of \<open>pkg/topic/topic.go\<close>).\<close>

definition openPartition :: "instant \<Rightarrow> int \<Rightarrow> string \<Rightarrow> bool \<Rightarrow> diskHandler \<Rightarrow> part_state \<Rightarrow> part_state option" where
  "openPartition now partitionID topic idempotent dh saved =
     (case NewPartition now partitionID topic dh saved of
        None \<Rightarrow> None
      | Some p \<Rightarrow> RecoverProducerStateFromLog now (p\<lparr>pIsIdempotent := idempotent\<rparr>))"

definition FlushDisk :: "nat option \<Rightarrow> part_state \<Rightarrow> part_state" where
  "FlushDisk fault p = persistProducerStateCheckpoint (persistHWMCheckpoint (p\<lparr>pDh := Flush fault (pDh p)\<rparr>))"

definition reconcileCommittedHWMLocked ::
  "instant \<Rightarrow> u64 \<Rightarrow> bool \<Rightarrow> nat option \<Rightarrow> part_state \<Rightarrow> (part_error option \<times> part_state) option" where
  "reconcileCommittedHWMLocked now hwm busy fault p =
     (let leo = pLEO p in
      if leo < hwm then Some (Some ReplicaBehind, p)
      else if leo = hwm \<and> pHWM p = hwm then Some (None, p)
      else case (if leo > hwm then TruncateTo hwm busy fault (pDh p) else (None, pDh p)) of
        (Some e, dh) \<Rightarrow> Some (Some (StorageError e), p\<lparr>pDh := dh\<rparr>)
      | (None, dh) \<Rightarrow>
          (let p = p\<lparr>pDh := dh, pLEO := hwm, pHwmDirty := pHwmDirty p \<or> pHWM p \<noteq> hwm, pHWM := hwm\<rparr>
           in if \<not> leo > hwm then Some (None, p)
              else case rebuildTransactionMarkerIndex
                          (p\<lparr>pTxnMarkers := [], pTxnOpenOffsets := [], pTxnRetentionFloor := 0\<rparr>) of
                None \<Rightarrow> None
              | Some p \<Rightarrow> map_option (Pair None) (RecoverProducerStateFromLog now (p\<lparr>pProducerState := []\<rparr>))))"

definition ReconcileCommittedHWM ::
  "instant \<Rightarrow> u64 \<Rightarrow> bool \<Rightarrow> nat option \<Rightarrow> part_state \<Rightarrow> (part_error option \<times> part_state) option" where
  "ReconcileCommittedHWM now hwm busy fault p =
     (if pSnapshotRecovery p then Some (Some SnapshotPending, p) else reconcileCommittedHWMLocked now hwm busy fault p)"

definition ReconcileSnapshotHWM :: "u64 \<Rightarrow> part_state \<Rightarrow> part_error option \<times> part_state" where
  "ReconcileSnapshotHWM snapshotHWM p =
     (if pSnapshotRecovery p
      then (if pRecoverySnapshotHWM p \<noteq> snapshotHWM then (Some SnapshotBoundary, p) else (None, p))
      else (None, p\<lparr>pRecoveryCheckpointHWM := pHWM p, pRecoverySnapshotHWM := snapshotHWM,
                    pHWM := min snapshotHWM (pLEO p), pSnapshotRecovery := True\<rparr>))"

definition FinalizeSnapshotRecovery ::
  "instant \<Rightarrow> u64 \<Rightarrow> bool \<Rightarrow> nat option \<Rightarrow> part_state \<Rightarrow> (part_error option \<times> part_state) option" where
  "FinalizeSnapshotRecovery now hwm busy fault p =
     (if \<not> pSnapshotRecovery p then reconcileCommittedHWMLocked now hwm busy fault p
      else let checkpointHWM = pRecoveryCheckpointHWM p;
               snapshotHWM = pRecoverySnapshotHWM p;
               p = p\<lparr>pSnapshotRecovery := False, pRecoveryCheckpointHWM := 0, pRecoverySnapshotHWM := 0\<rparr>
        in if pLEO p < hwm then
             (let p = (if pHWM p > pLEO p then p\<lparr>pHWM := pLEO p\<rparr> else p)
              in Some (None, p\<lparr>pHwmDirty := pHwmDirty p \<or> checkpointHWM \<noteq> pHWM p\<rparr>))
           else case reconcileCommittedHWMLocked now hwm busy fault p of
             None \<Rightarrow> None
           | Some (Some e, p) \<Rightarrow>
               Some (Some e, p\<lparr>pSnapshotRecovery := True, pRecoveryCheckpointHWM := checkpointHWM,
                              pRecoverySnapshotHWM := snapshotHWM\<rparr>)
           | Some (None, p) \<Rightarrow> Some (None, p\<lparr>pHwmDirty := pHwmDirty p \<or> checkpointHWM \<noteq> hwm\<rparr>))"

definition UpdateLEO :: "u64 \<Rightarrow> part_state \<Rightarrow> part_state" where
  "UpdateLEO leo p = p\<lparr>pLEO := leo\<rparr>"

definition ClosePartition :: "part_state \<Rightarrow> part_state" where
  "ClosePartition p =
     (if pClosed p then p
      else persistProducerStateCheckpoint (persistHWMCheckpoint (p\<lparr>pClosed := True\<rparr>)))"

end
