(* ===== verification/Partition_Reads.thy ===== *)
theory Partition_Reads
  imports Partition_Log
begin

section \<open>Scans and committed reads\<close>

text \<open>
  What the batched loops of \<open>pkg/topic/partition.go\<close> compute on a sound log: the recovery scans fold over every
  record, and a committed read returns the visible messages below the last stable offset. The last part shows the
  one situation in which the loop of \<open>readCommittedScanRange\<close> does not end.
\<close>

subsection \<open>The messages of a log\<close>

definition log_messages :: "diskHandler \<Rightarrow> message list" where
  "log_messages dh = map messageFromDisk (disk_log dh)"

abbreviation ascending_messages :: "message list \<Rightarrow> bool" where
  "ascending_messages \<equiv> sorted_wrt (\<lambda>a b. mOffset a < mOffset b)"

lemma log_messages_order:
  assumes "disk_wf dh"
  shows "ascending_messages (log_messages dh)"
    and "\<And>m. m \<in> set (log_messages dh) \<Longrightarrow> GetFirstOffset dh \<le> mOffset m \<and> mOffset m < dhFlushedOffset dh"
  using disk_log_order [OF assms] by (auto simp: log_messages_def sorted_wrt_map)

lemma read_messages:
  assumes "disk_wf dh" and "GetFirstOffset dh \<le> offset" and "offset \<le> dhAbsoluteOffset dh"
  shows "ReadMessages offset (int n) dh = Inr (take n (filter (\<lambda>m. offset \<le> mOffset m) (log_messages dh)))"
  using ReadMessages_log [OF assms, of "int n"] by (simp add: log_messages_def filter_map comp_def take_map)

lemma u64_succ:
  fixes x y :: u64
  assumes "x < y"
  shows "x < x + 1" and "x + 1 \<le> y" and "x + 1 \<le> z \<longleftrightarrow> x < z"
proof -
  have n: "unat (x + 1) = Suc (unat x)"
    using assms unat_u64_bound [of y] by (simp add: unat_word_ariths word_less_nat_alt)
  show "x < x + 1" "x + 1 \<le> y" "x + 1 \<le> z \<longleftrightarrow> x < z"
    using assms by (simp_all add: word_less_nat_alt word_le_nat_alt n Suc_le_eq)
qed

lemma fold_advance:
  assumes "ascending_messages ms" and "ms \<noteq> []" and "\<And>m. m \<in> set ms \<Longrightarrow> offset \<le> mOffset m \<and> mOffset m < tail"
  shows "fold advance ms offset = mOffset (last ms) + 1"
  using assms
proof (induction ms arbitrary: offset)
  case (Cons m ms)
  have m: "offset \<le> mOffset m" "mOffset m < tail" using Cons.prems(3) by simp_all
  then have "advance m offset = mOffset m + 1"
    using u64_succ(3) [OF m(2)] leD [OF m(1)] by (simp add: advance_def Let_def)
  moreover have "fold advance ms (mOffset m + 1) = mOffset (last ms) + 1" if "ms \<noteq> []"
    using Cons.IH [of "mOffset m + 1"] Cons.prems that u64_succ [OF m(2)] by auto
  ultimately show ?case by simp
qed simp

lemma filter_above_last:
  assumes "ascending_messages (as @ bs)" and "as \<noteq> []"
  shows "filter (\<lambda>m. mOffset (last as) < mOffset m) (as @ bs) = bs"
proof -
  obtain cs where cs: "as = cs @ [last as]" using assms(2) append_butlast_last_id by metis
  have "filter (\<lambda>m. mOffset (last as) < mOffset m) as = []"
    using assms(1) by (subst cs) (subst (asm) cs, auto simp: sorted_wrt_append filter_empty_conv)
  moreover have "filter (\<lambda>m. mOffset (last as) < mOffset m) bs = bs"
    using assms last_in_set [OF assms(2)] by (simp add: sorted_wrt_append filter_id_conv)
  ultimately show ?thesis by simp
qed

lemma filter_from_last:
  assumes "ascending_messages ms" and "as \<noteq> []" and "filter (\<lambda>m. offset \<le> mOffset m) ms = as @ bs"
    and "\<And>m. m \<in> set ms \<Longrightarrow> mOffset m < tail"
  shows "filter (\<lambda>m. mOffset (last as) + 1 \<le> mOffset m) ms = bs"
proof -
  have "last as \<in> set (filter (\<lambda>m. offset \<le> mOffset m) ms)" using assms(2) by (simp add: assms(3))
  then have l: "last as \<in> set ms" "offset \<le> mOffset (last as)" by auto
  then have "filter (\<lambda>m. mOffset (last as) + 1 \<le> mOffset m) ms = filter (\<lambda>m. mOffset (last as) < mOffset m) ms"
    using u64_succ(3) [OF assms(4)] by simp
  also have "\<dots> = filter (\<lambda>m. mOffset (last as) < mOffset m) (filter (\<lambda>m. offset \<le> mOffset m) ms)"
    using l(2) by (auto intro!: filter_cong)
  also have "\<dots> = bs"
    unfolding assms(3) by (rule filter_above_last [OF _ assms(2)]) (metis assms(1,3) sorted_wrt_filter)
  finally show ?thesis .
qed

subsection \<open>Scans see the whole log\<close>

lemma scanLog_log:
  assumes wf: "disk_wf dh" and "GetFirstOffset dh \<le> offset" and "offset \<le> dhAbsoluteOffset dh"
  shows "scanLog visit dh (dhAbsoluteOffset dh) offset st =
         Some (fold visit (filter (\<lambda>m. offset \<le> mOffset m) (log_messages dh)) st)"
  using assms(2,3)
proof (induction "length (filter (\<lambda>m. offset \<le> mOffset m) (log_messages dh))" arbitrary: offset st rule: less_induct)
  case less
  let ?ms = "filter (\<lambda>m. offset \<le> mOffset m) (log_messages dh)"
  note order = log_messages_order [OF wf]
  have tail: "m \<in> set (log_messages dh) \<Longrightarrow> mOffset m < dhAbsoluteOffset dh" for m
    using order(2) disk_log_order(3) [OF wf] by fastforce
  note read = read_messages [OF wf less.prems, of 1024]
  show ?case
  proof (cases "offset < dhAbsoluteOffset dh \<and> 1024 \<le> length ?ms")
    case False
    have "?ms = []" if "\<not> offset < dhAbsoluteOffset dh" using tail that by (force simp: filter_empty_conv)
    with False read show ?thesis by (auto simp: scanLog.simps [of visit dh _ offset])
  next
    case True
    let ?as = "take 1024 ?ms"
    have as: "?as \<noteq> []" using True by auto
    have nxt: "fold advance ?as offset = mOffset (last ?as) + 1"
      using order tail as by (intro fold_advance [where tail = "dhAbsoluteOffset dh"]) (auto dest: in_set_takeD intro: sorted_wrt_take sorted_wrt_filter)
    have rest: "filter (\<lambda>m. mOffset (last ?as) + 1 \<le> mOffset m) (log_messages dh) = drop 1024 ?ms"
      using order(1) as tail by (intro filter_from_last [where offset = offset]) auto
    have l: "last ?as \<in> set (log_messages dh)" using last_in_set [OF as] by (auto dest: in_set_takeD)
    have "scanLog visit dh (dhAbsoluteOffset dh) offset st = scanLog visit dh (dhAbsoluteOffset dh) (mOffset (last ?as) + 1) (fold visit ?as st)"
      using True read as by (simp add: scanLog.simps [of visit dh _ offset] nxt)
    also have "\<dots> = Some (fold visit (drop 1024 ?ms) (fold visit ?as st))"
      unfolding rest [symmetric]
    proof (rule less.hyps)
      show "length (filter (\<lambda>m. mOffset (last ?as) + 1 \<le> mOffset m) (log_messages dh)) < length ?ms"
        unfolding rest length_drop using True by linarith
      show "GetFirstOffset dh \<le> mOffset (last ?as) + 1" "mOffset (last ?as) + 1 \<le> dhAbsoluteOffset dh"
        using order(2) [OF l] u64_succ [OF tail [OF l]] by (auto intro: order.trans)
    qed
    also have "\<dots> = Some (fold visit ?ms st)" by (metis append_take_drop_id comp_apply fold_append)
    finally show ?thesis .
  qed
qed

subsection \<open>Committed reads\<close>

lemma visibleBatch_below:
  assumes "ascending_messages ms" and "length visible < n"
    and "\<And>m. m \<in> set ms \<Longrightarrow> current \<le> mOffset m \<and> mOffset m < tail"
    and "below = takeWhile (\<lambda>m. mOffset m < limit) ms" and "visibleBatch vis limit n ms current visible = (current', visible')"
  shows "visible' = visible @ take (n - length visible) (filter vis below)"
    and "length visible' < n \<Longrightarrow> current' = (if below = [] then current else mOffset (last below) + 1)"
proof -
  have "visible' = visible @ take (n - length visible) (filter vis below) \<and>
     (length visible' < n \<longrightarrow> current' = (if below = [] then current else mOffset (last below) + 1))"
    using assms
  proof (induction ms arbitrary: current visible below)
    case (Cons m ms)
    show ?case
    proof (cases "mOffset m < limit")
      case False
      with Cons.prems show ?thesis by (simp add: not_less)
    next
      case True
      define rest where "rest = takeWhile (\<lambda>m. mOffset m < limit) ms"
      have below: "below = m # rest" using Cons.prems(4) True by (simp add: rest_def)
      have m: "current \<le> mOffset m" "mOffset m < tail" using Cons.prems(3) by simp_all
      then have adv: "advance m current = mOffset m + 1"
        using u64_succ(3) [OF m(2)] leD [OF m(1)] by (simp add: advance_def Let_def)
      have later: "mOffset m + 1 \<le> mOffset k \<and> mOffset k < tail" if "k \<in> set ms" for k
        using Cons.prems(1,3) that u64_succ(3) [OF m(2)] by simp
      let ?v = "if vis m then visible @ [m] else visible"
      show ?thesis
      proof (cases "length ?v < n")
        case False
        with Cons.prems(2,5) True have "vis m" "n - length visible = 1" "visible' = visible @ [m]"
          by (auto simp: adv Let_def split: if_splits)
        then show ?thesis using False by (simp add: below)
      next
        case lt: True
        from Cons.prems(5) True lt have rec: "visibleBatch vis limit n ms (mOffset m + 1) ?v = (current', visible')"
          by (auto simp: adv Let_def split: if_splits)
        have "ascending_messages ms" using Cons.prems(1) by simp
        from Cons.IH [OF this lt later rest_def rec] show ?thesis
          using lt by (auto simp: below take_Cons' split: if_splits)
      qed
    qed
  qed simp
  then show "visible' = visible @ take (n - length visible) (filter vis below)"
    "length visible' < n \<Longrightarrow> current' = (if below = [] then current else mOffset (last below) + 1)" by auto
qed

text \<open>
  The messages from \<open>current\<close> on below \<open>limit\<close>; and when a scan up to \<open>limit\<close> makes progress: there is no record at
  or above \<open>limit\<close>, or the offset just below it still has a record.
\<close>

definition between :: "u64 \<Rightarrow> u64 \<Rightarrow> diskHandler \<Rightarrow> message list" where
  "between current limit dh = filter (\<lambda>m. current \<le> mOffset m \<and> mOffset m < limit) (log_messages dh)"

definition reaches :: "u64 \<Rightarrow> diskHandler \<Rightarrow> bool" where
  "reaches limit dh \<longleftrightarrow>
     list_all (\<lambda>m. mOffset m < limit) (log_messages dh) \<or> list_ex (\<lambda>m. mOffset m + 1 = limit) (log_messages dh)"

lemma takeWhile_ascending:
  assumes "ascending_messages ms"
  shows "takeWhile (\<lambda>m. mOffset m < limit) ms = filter (\<lambda>m. mOffset m < limit) ms"
  using assms
proof (induction ms)
  case (Cons m ms)
  have "filter (\<lambda>m. mOffset m < limit) ms = []" if "\<not> mOffset m < limit"
    using Cons.prems that by (auto simp: filter_empty_conv not_less dest: order.strict_trans1)
  with Cons show ?case by simp
qed simp

lemma readBatchSize_pos: "current < limit \<Longrightarrow> 0 < readBatchSize limit current"
  by (simp add: readBatchSize_def Let_def unat_sub word_less_nat_alt word_le_nat_alt)

lemma takeWhile_take_prefix: "\<exists>rest. takeWhile P xs = takeWhile P (take k xs) @ rest"
proof (induction xs arbitrary: k)
  case (Cons x xs)
  then show ?case by (cases k) auto
qed simp

lemma hd_below:
  assumes "reaches limit dh" and "current < limit" and "ascending_messages (log_messages dh)"
    and "take k (filter (\<lambda>m. current \<le> mOffset m) (log_messages dh)) \<noteq> []"
    and "limit \<le> tail" and "\<And>m. m \<in> set (log_messages dh) \<Longrightarrow> mOffset m < tail"
  shows "mOffset (hd (take k (filter (\<lambda>m. current \<le> mOffset m) (log_messages dh)))) < limit"
proof -
  let ?ms = "filter (\<lambda>m. current \<le> mOffset m) (log_messages dh)"
  obtain h t where ms: "?ms = h # t" and k: "k \<noteq> 0" using assms(4) by (cases ?ms) auto
  have h: "h \<in> set (log_messages dh)" using ms by (metis filter_is_subset list.set_intros(1) subsetD)
  have "mOffset h < limit"
  proof (cases "list_all (\<lambda>m. mOffset m < limit) (log_messages dh)")
    case True
    with h show ?thesis by (simp add: list_all_iff)
  next
    case False
    then obtain r where r: "r \<in> set (log_messages dh)" "mOffset r + 1 = limit"
      using assms(1) by (auto simp: reaches_def list_ex_iff)
    have "current \<le> mOffset r" "mOffset r < limit"
      using u64_succ [OF assms(6) [OF r(1)]] r(2) assms(2) by (auto simp: not_less [symmetric])
    then have "r \<in> set (h # t)" using r(1) unfolding ms [symmetric] by simp
    moreover have "ascending_messages (h # t)" using assms(3) ms by (metis sorted_wrt_filter)
    ultimately show ?thesis using \<open>mOffset r < limit\<close> by (auto dest: order.strict_trans)
  qed
  with ms k show ?thesis by (cases k) simp_all
qed

lemma between_after:
  assumes "disk_wf dh" and "between current limit dh = below @ rest" and "below \<noteq> []"
  shows "between (mOffset (last below) + 1) limit dh = rest"
proof -
  have srt: "ascending_messages (filter (\<lambda>m. mOffset m < limit) (log_messages dh))"
    using log_messages_order(1) [OF assms(1)] by (rule sorted_wrt_filter)
  have eq: "between c limit dh = filter (\<lambda>m. c \<le> mOffset m) (filter (\<lambda>m. mOffset m < limit) (log_messages dh))" for c
    by (simp add: between_def conj_commute)
  show ?thesis
    unfolding eq by (rule filter_from_last [OF srt assms(3) assms(2) [unfolded eq], of limit]) simp
qed

text \<open>One round of the loop: it ends with the messages below the limit, or goes on after the last one it saw.\<close>

lemma committedLoop_round:
  assumes wf: "disk_wf dh" and reach: "reaches limit dh" and lim: "limit \<le> dhAbsoluteOffset dh"
    and first: "GetFirstOffset dh \<le> current" and go: "current < limit" "length visible < n"
  shows "committedLoop vis dh limit n current visible =
           Some (Inr (visible @ take (n - length visible) (filter vis (between current limit dh)))) \<or>
         (\<exists>below rest current'. below \<noteq> [] \<and> between current limit dh = below @ rest \<and>
            committedLoop vis dh limit n current visible =
              committedLoop vis dh limit n current' (visible @ take (n - length visible) (filter vis below)) \<and>
            (length (visible @ take (n - length visible) (filter vis below)) < n \<longrightarrow> current' = mOffset (last below) + 1))"
proof -
  note order = log_messages_order [OF wf]
  have tail: "m \<in> set (log_messages dh) \<Longrightarrow> mOffset m < dhAbsoluteOffset dh" for m
    using order(2) disk_log_order(3) [OF wf] by fastforce
  let ?ms = "filter (\<lambda>m. current \<le> mOffset m) (log_messages dh)"
  define k where "k = readBatchSize limit current"
  define batch where "batch = take k ?ms"
  define below where "below = takeWhile (\<lambda>m. mOffset m < limit) batch"
  obtain current' visible' where vb: "visibleBatch vis limit n batch current visible = (current', visible')" by fastforce
  have srt: "ascending_messages ?ms" "ascending_messages batch"
    using order(1) by (auto simp: batch_def intro: sorted_wrt_filter sorted_wrt_take)
  have read: "ReadMessages current (int k) dh = Inr batch"
    unfolding batch_def by (rule read_messages [OF wf first]) (use go(1) lim in \<open>auto intro: order.trans\<close>)
  have btw: "between current limit dh = takeWhile (\<lambda>m. mOffset m < limit) ?ms"
    unfolding takeWhile_ascending [OF srt(1)] by (simp add: between_def conj_commute)
  have bounds: "current \<le> mOffset m \<and> mOffset m < dhAbsoluteOffset dh" if "m \<in> set batch" for m
    using that tail by (auto simp: batch_def dest: in_set_takeD)
  note vis = visibleBatch_below [OF srt(2) go(2) bounds below_def vb]
  have step: "committedLoop vis dh limit n current visible =
      (if batch = [] then Some (Inr visible) else if length batch < k then Some (Inr visible')
       else committedLoop vis dh limit n current' visible')"
    using go by (simp add: committedLoop.simps [of vis dh limit n current] k_def [symmetric] read vb)
  consider (none) "batch = []" | (short) "batch \<noteq> []" "length batch < k" | (full) "batch \<noteq> []" "\<not> length batch < k" by blast
  then show ?thesis
  proof cases
    case none
    then have "between current limit dh = []" using readBatchSize_pos [OF go(1)] by (simp add: btw batch_def k_def)
    with none step show ?thesis by simp
  next
    case short
    then have "batch = ?ms" by (simp add: batch_def)
    then have "between current limit dh = below" by (simp add: btw below_def)
    with short step vis(1) show ?thesis by simp
  next
    case full
    have "mOffset (hd batch) < limit"
      unfolding batch_def by (rule hd_below [OF reach go(1) order(1) _ lim tail]) (use full in \<open>simp_all add: batch_def\<close>)
    with full have "below \<noteq> []" by (cases batch) (simp_all add: below_def)
    moreover obtain rest where "between current limit dh = below @ rest"
      using takeWhile_take_prefix [of "\<lambda>m. mOffset m < limit" ?ms k] unfolding btw below_def batch_def by blast
    ultimately show ?thesis using full step vis by auto
  qed
qed

lemma committedLoop_log:
  assumes wf: "disk_wf dh" and reach: "reaches limit dh" and lim: "limit \<le> dhAbsoluteOffset dh"
    and "GetFirstOffset dh \<le> current" and "length visible \<le> n"
  shows "committedLoop vis dh limit n current visible =
         Some (Inr (visible @ take (n - length visible) (filter vis (between current limit dh))))"
  using assms(4,5)
proof (induction "length (between current limit dh)" arbitrary: current visible rule: less_induct)
  case less
  show ?case
  proof (cases "current < limit \<and> length visible < n")
    case False
    have "between current limit dh = []" if "\<not> current < limit" using that by (auto simp: between_def filter_empty_conv)
    with False less.prems show ?thesis by (auto simp: committedLoop.simps [of vis dh limit n current visible])
  next
    case True
    from committedLoop_round [OF wf reach lim less.prems(1) conjunct1 [OF True] conjunct2 [OF True], of vis] show ?thesis
    proof (elim disjE exE conjE)
      fix below rest current'
      let ?v = "visible @ take (n - length visible) (filter vis below)"
      assume below: "below \<noteq> []" and rest: "between current limit dh = below @ rest"
        and rec: "committedLoop vis dh limit n current visible = committedLoop vis dh limit n current' ?v"
        and c': "length ?v < n \<longrightarrow> current' = mOffset (last below) + 1"
      show ?thesis
      proof (cases "length ?v < n")
        case False
        then have "\<not> (current' < limit \<and> length ?v < n)" by blast
        then have "committedLoop vis dh limit n current' ?v = Some (Inr ?v)"
          by (subst committedLoop.simps) (simp only: not_False_eq_True if_True)
        with False show ?thesis by (simp add: rec rest)
      next
        case lt: True
        have after: "between current' limit dh = rest" using between_after [OF wf rest below] c' lt by simp
        have "last below \<in> set (between current limit dh)" using last_in_set [OF below] by (simp add: rest)
        then have l: "last below \<in> set (log_messages dh)" "mOffset (last below) < limit" by (simp_all add: between_def)
        have "GetFirstOffset dh \<le> current'"
          using c' lt log_messages_order(2) [OF wf l(1)] u64_succ(1) [OF l(2)] by (auto intro: order.trans)
        from less.hyps [OF _ this, of ?v] below lt show ?thesis by (simp add: rec after rest)
      qed
    qed auto
  qed
qed


subsection \<open>A committed read that never returns\<close>

text \<open>
  When every offset from \<open>current\<close> up to the limit is a hole left by compaction and there are enough records above
  the limit to fill the batch, a round of the loop sees only records above the limit, keeps \<open>current\<close>, and starts
  again.
\<close>

definition stuck_at :: "u64 \<Rightarrow> u64 \<Rightarrow> diskHandler \<Rightarrow> bool" where
  "stuck_at current limit dh \<longleftrightarrow>
     current < limit \<and> between current limit dh = [] \<and>
     readBatchSize limit current \<le> length (filter (\<lambda>m. current \<le> mOffset m) (log_messages dh))"

lemma stuck_round:
  assumes "disk_wf dh" and "GetFirstOffset dh \<le> current" and "limit \<le> dhAbsoluteOffset dh" and stuck: "stuck_at current limit dh"
  obtains m ms where "ReadMessages current (int (readBatchSize limit current)) dh = Inr (m # ms)"
    "length (m # ms) = readBatchSize limit current" "limit \<le> mOffset m"
proof -
  let ?k = "readBatchSize limit current"
  let ?fs = "filter (\<lambda>m. current \<le> mOffset m) (log_messages dh)"
  have lt: "current < limit" using stuck by (simp add: stuck_at_def)
  have len: "length (take ?k ?fs) = ?k" using stuck by (simp add: stuck_at_def)
  then obtain m ms where batch: "take ?k ?fs = m # ms" using readBatchSize_pos [OF lt] by (cases "take ?k ?fs") auto
  have "m \<in> set (take ?k ?fs)" by (simp add: batch)
  then have "m \<in> set (log_messages dh)" "current \<le> mOffset m" by (auto dest: in_set_takeD)
  then have "limit \<le> mOffset m" using stuck by (auto simp: stuck_at_def between_def filter_empty_conv not_less)
  moreover have "ReadMessages current (int ?k) dh = Inr (m # ms)"
    using read_messages [OF assms(1,2), of ?k] lt assms(3) batch by auto
  ultimately show ?thesis using that len batch by metis
qed

lemma committedLoop_stuck:
  assumes "disk_wf dh" and "GetFirstOffset dh \<le> current" and "limit \<le> dhAbsoluteOffset dh"
    and "stuck_at current limit dh" and "length visible < n"
  shows "committedLoop vis dh limit n current visible = None"
proof -
  have "\<not> (disk_wf dh \<and> GetFirstOffset dh \<le> current \<and> limit \<le> dhAbsoluteOffset dh \<and> stuck_at current limit dh \<and> length visible < n)"
    if "committedLoop vis dh limit n current visible = Some r" for r
  proof (rule committedLoop.raw_induct [where P = "\<lambda>vis dh limit n current visible r. \<not> (disk_wf dh \<and>
      GetFirstOffset dh \<le> current \<and> limit \<le> dhAbsoluteOffset dh \<and> stuck_at current limit dh \<and> length visible < n)",
      OF _ that])
    fix loop vis and dh :: diskHandler and limit n current visible r
    assume ih: "\<And>vis dh limit n current visible r. loop vis dh limit n current visible = Some r \<Longrightarrow>
        \<not> (disk_wf dh \<and> GetFirstOffset dh \<le> current \<and> limit \<le> dhAbsoluteOffset dh \<and> stuck_at current limit dh \<and> length visible < n)"
      and step: "(if \<not> (current < limit \<and> length visible < n) then Some (Inr visible)
         else let readMax = readBatchSize limit current in
           case ReadMessages current (int readMax) dh of Inl e \<Rightarrow> Some (Inl e)
           | Inr batch \<Rightarrow> if batch = [] then Some (Inr visible)
               else let (current', visible') = visibleBatch vis limit n batch current visible
                 in if length batch < readMax then Some (Inr visible') else loop vis dh limit n current' visible') = Some r"
    show "\<not> (disk_wf dh \<and> GetFirstOffset dh \<le> current \<and> limit \<le> dhAbsoluteOffset dh \<and> stuck_at current limit dh \<and> length visible < n)"
    proof
      assume as: "disk_wf dh \<and> GetFirstOffset dh \<le> current \<and> limit \<le> dhAbsoluteOffset dh \<and> stuck_at current limit dh \<and> length visible < n"
      then obtain m ms where "ReadMessages current (int (readBatchSize limit current)) dh = Inr (m # ms)"
        "length (m # ms) = readBatchSize limit current" "limit \<le> mOffset m" using stuck_round by blast
      with step as have "loop vis dh limit n current visible = Some r" by (simp add: stuck_at_def)
      from ih [OF this] as show False by blast
    qed
  qed
  with assms show ?thesis by (cases "committedLoop vis dh limit n current visible") blast+
qed


subsection \<open>What a committed read returns\<close>

lemma firstUnresolved_le: "firstUnresolved hwm floor markers resolver first opens \<le> first"
proof (induction opens arbitrary: first)
  case (Cons x opens)
  have "firstUnresolved hwm floor markers resolver (if y < first then y else first) opens \<le> first" for y
    using Cons.IH [of y] Cons.IH [of first] by (auto intro: order.trans [OF _ less_imp_le])
  then show ?case by (cases x) (simp add: Let_def Cons.IH)
qed simp

lemma ascending_length:
  assumes "ascending_messages ms" and "\<And>m. m \<in> set ms \<Longrightarrow> a \<le> mOffset m \<and> mOffset m < b"
  shows "length ms \<le> unat b - unat a"
proof -
  have "distinct (map (\<lambda>m. unat (mOffset m)) ms)"
    using assms(1) by (induction ms) (fastforce simp: word_less_nat_alt)+
  then have "length ms = card (set (map (\<lambda>m. unat (mOffset m)) ms))" by (metis distinct_card length_map)
  also have "\<dots> \<le> card {unat a..<unat b}"
    using assms(2) by (intro card_mono) (auto simp: word_le_nat_alt word_less_nat_alt)
  finally show ?thesis by simp
qed

lemma committedTail_le: "disk_wf (pDh p) \<Longrightarrow> committedTail p \<le> dhAbsoluteOffset (pDh p)"
  using disk_log_order(3) [of "pDh p"] by (auto simp: committedTail_def)

lemma pDh_pruneTransactionIndex [simp]: "pDh (pruneTransactionIndex floor p) = pDh p"
  by (simp add: pruneTransactionIndex_def Let_def)

lemma committedTail_prune [simp]: "committedTail (pruneTransactionIndex floor p) = committedTail p"
  by (simp add: pruneTransactionIndex_def Let_def committedTail_def)

lemma ReadCommitted_scan:
  assumes "disk_wf (pDh p)" and "GetFirstOffset (pDh p) \<le> offset" and "offset < lso"
    and "LastStableOffset resolver p = (lso, p')"
  shows "\<exists>n. fst (ReadCommitted offset limit resolver p) =
       (if limit \<le> 0 then Some (Inr [])
        else committedLoop (\<lambda>m. isReadCommittedVisible m (committedTail p) (pTxnMarkers p') resolver) (pDh p) lso n offset []) \<and>
     n \<le> nat limit \<and> (n < nat limit \<longrightarrow> unat lso - unat offset \<le> n) \<and> (0 < limit \<longrightarrow> 0 < n)"
proof -
  have p': "p' = pruneTransactionIndex (GetFirstOffset (pDh p)) p"
    and lso: "lso = firstUnresolvedOpenOffset (committedTail p) (pTxnRetentionFloor p') (pTxnOpenOffsets p') (pTxnMarkers p') resolver"
    using assms(4) by (auto simp: LastStableOffset_def Let_def)
  have le: "lso \<le> committedTail p" unfolding lso firstUnresolvedOpenOffset_def by (rule firstUnresolved_le)
  then have lt: "offset < committedTail p" using assms(3) by (rule order.strict_trans2 [rotated])
  define canRead where "canRead = unat (committedTail p - offset)"
  define n where "n = nat (if canRead < 2 ^ 63 \<and> limit > int canRead then int canRead else limit)"
  have can: "canRead = unat (committedTail p) - unat offset"
    using lt by (simp add: canRead_def unat_sub less_imp_le)
  have room: "unat lso - unat offset \<le> canRead" "0 < canRead"
    using le lt by (simp_all add: can word_le_nat_alt word_less_nat_alt)
  have "fst (ReadCommitted offset limit resolver p) =
      readVisibleCommitted offset (if canRead < 2 ^ 63 \<and> limit > int canRead then int canRead else limit) (committedTail p) resolver p'"
    using leD [OF assms(2)] lt [unfolded not_le [symmetric]] unfolding ReadCommitted_def Let_def p' canRead_def
    by (simp only: if_False fst_conv)
  also have "\<dots> = (if limit \<le> 0 then Some (Inr [])
      else committedLoop (\<lambda>m. isReadCommittedVisible m (committedTail p) (pTxnMarkers p') resolver) (pDh p) lso n offset [])"
    using assms(3) le room(2)
    by (auto simp: readVisibleCommitted_def readCommittedScanRange_def Let_def n_def p' not_le
        simp flip: lso [unfolded p'])
  finally show ?thesis using room by (intro exI [of _ n]) (auto simp: n_def)
qed

lemma ReadCommitted_log:
  assumes "disk_wf (pDh p)" and "GetFirstOffset (pDh p) \<le> offset"
    and "LastStableOffset resolver p = (lso, p')" and "reaches lso (pDh p)"
  shows "fst (ReadCommitted offset limit resolver p) =
    Some (Inr (take (nat limit) (filter (\<lambda>m. isReadCommittedVisible m (committedTail p) (pTxnMarkers p') resolver)
                                   (between offset lso (pDh p)))))"
proof -
  let ?vis = "\<lambda>m. isReadCommittedVisible m (committedTail p) (pTxnMarkers p') resolver"
  let ?fs = "filter ?vis (between offset lso (pDh p))"
  have p': "p' = pruneTransactionIndex (GetFirstOffset (pDh p)) p"
    and lso: "lso = firstUnresolvedOpenOffset (committedTail p) (pTxnRetentionFloor p') (pTxnOpenOffsets p') (pTxnMarkers p') resolver"
    using assms(3) by (auto simp: LastStableOffset_def Let_def)
  have le: "lso \<le> committedTail p" unfolding lso firstUnresolvedOpenOffset_def by (rule firstUnresolved_le)
  show ?thesis
  proof (cases "offset < lso")
    case False
    then have "between offset lso (pDh p) = []" by (auto simp: between_def filter_empty_conv)
    moreover have "fst (ReadCommitted offset limit resolver p) = Some (Inr [])"
      using False assms(2)
      by (auto simp: ReadCommitted_def readVisibleCommitted_def readCommittedScanRange_def Let_def not_less
          simp flip: lso [unfolded p'])
    ultimately show ?thesis by simp
  next
    case True
    obtain n where n: "fst (ReadCommitted offset limit resolver p) =
        (if limit \<le> 0 then Some (Inr []) else committedLoop ?vis (pDh p) lso n offset [])"
      "n \<le> nat limit" "n < nat limit \<longrightarrow> unat lso - unat offset \<le> n"
      using ReadCommitted_scan [OF assms(1,2) True assms(3), of limit] by blast
    have "ascending_messages (between offset lso (pDh p))"
      unfolding between_def using log_messages_order(1) [OF assms(1)] by (rule sorted_wrt_filter)
    then have "length (between offset lso (pDh p)) \<le> unat lso - unat offset"
      by (rule ascending_length) (auto simp: between_def)
    then have "length ?fs \<le> n \<or> n = nat limit" using n(2,3) length_filter_le [of ?vis "between offset lso (pDh p)"] by linarith
    then have "take n ?fs = take (nat limit) ?fs" using n(2) by auto
    with n(1) committedLoop_log [OF assms(1,4) _ assms(2), of "[]" n ?vis] le committedTail_le [OF assms(1)]
    show ?thesis by (auto dest: order.trans)
  qed
qed


text \<open>C40: When compaction has removed every record from the requested offset up to the last stable offset, and the
  records above it fill a read, a committed read never returns. (It holds the lock of the marker index meanwhile,
  so appends of transactional records stop as well.)
\<close>

theorem committed_read_livelock:
  assumes "disk_wf (pDh p)" and "GetFirstOffset (pDh p) \<le> offset" and "0 < limit"
    and "LastStableOffset resolver p = (lso, p')" and "stuck_at offset lso (pDh p)"
  shows "fst (ReadCommitted offset limit resolver p) = None"
proof -
  let ?vis = "\<lambda>m. isReadCommittedVisible m (committedTail p) (pTxnMarkers p') resolver"
  have lt: "offset < lso" using assms(5) by (simp add: stuck_at_def)
  have "lso \<le> committedTail p"
    using assms(4) by (auto simp: LastStableOffset_def Let_def firstUnresolvedOpenOffset_def intro: firstUnresolved_le)
  then have le: "lso \<le> dhAbsoluteOffset (pDh p)" using committedTail_le [OF assms(1)] by (rule order.trans)
  obtain n where "fst (ReadCommitted offset limit resolver p) = committedLoop ?vis (pDh p) lso n offset []" "0 < n"
    using ReadCommitted_scan [OF assms(1,2) lt assms(4), of limit] assms(3) by auto
  with committedLoop_stuck [OF assms(1,2) le assms(5), of "[]" n ?vis] show ?thesis by simp
qed

text \<open>
  A closed segment whose offset 0 was compacted away (superseded by offset 2), with a transactional record at
  offset 1.
\<close>

definition openRecord :: diskMessage where
  "openRecord = (sampleRecord 1 ''b'' ''t'')\<lparr>dTransactionalID := ''tx'', dTransactionState := TransactionStateOpen\<rparr>"

definition holeyHandler :: diskHandler where
  "holeyHandler = freshHandler\<lparr>dhSegments := [0, 3], dhCurrentSegment := 3, dhAbsoluteOffset := 3, dhFlushedOffset := 3,
     dhCompacted := [(0, length (framed [openRecord, sampleRecord 2 ''a'' ''y'']))],
     dhFiles := [(0, framed [openRecord, sampleRecord 2 ''a'' ''y'']), (3, [])], dhIndexes := []\<rparr>"

definition holeyPartition :: "(transactionMarkerKey, u64) gomap \<Rightarrow> part_state" where
  "holeyPartition opens =
     \<lparr>pId = 0, pTopic = ''orders'', pMessageGeneration = 0, pLEO = 3, pHWM = 3, pSnapshotRecovery = False,
      pRecoveryCheckpointHWM = 0, pRecoverySnapshotHWM = 0, pDh = holeyHandler, pClosed = False, pHwmFile = None,
      pHwmDirty = False, pProducerFile = None, pProducerDirty = False, pProducerState = [], pIsIdempotent = False,
      pProducerStateTTL = 0, pTxnMarkers = [], pTxnOpenOffsets = opens, pTxnRetentionFloor = 0\<rparr>"

lemma writable_sample: "writable openRecord" "writable (sampleRecord 2 ''a'' ''y'')"
  by (simp_all add: writable_def stored_def storable_def diskLengthsFit_def length_diskLayout EstimateDiskMessageSize_def
      openRecord_def sampleRecord_def zeroDiskMessage_def SafeIntToUint16_def SafeIntToUint32_def slice_bytes_def
      MaxMessageSize_def MaxFramePayload_def TransactionStateOpen_def)

lemma holeyHandler_rep: "disk_rep holeyHandler [(0, [openRecord, sampleRecord 2 ''a'' ''y''])] []"
  using writable_sample
  by (simp add: disk_rep_def closed_segment_def active_segment_def segmentAllowsOffsetGaps_def mkeys_def mwf_def
      segmentFile_def segmentIndex_def holeyHandler_def freshHandler_def)
     (auto simp: openRecord_def sampleRecord_def zeroDiskMessage_def)

lemma holeyHandler_log: "disk_wf holeyHandler" "GetFirstOffset holeyHandler = 0"
  "log_messages holeyHandler = [messageFromDisk openRecord, messageFromDisk (sampleRecord 2 ''a'' ''y'')]"
  using holeyHandler_rep disk_log_rep [OF holeyHandler_rep]
  by (auto simp: disk_wf_def log_messages_def holeyHandler_def GetFirstOffset_def)

lemma holeyHandler_tail: "dhFlushedOffset holeyHandler = 3"
  by (simp add: holeyHandler_def)

lemma sample_offsets: "dOffset openRecord = 1" "dOffset (sampleRecord n k v) = n"
  by (simp_all add: openRecord_def sampleRecord_def zeroDiskMessage_def)


theorem committed_read_livelock_witness:
  "fst (ReadCommitted 0 10 None (holeyPartition [((''tx'', 0), 1)])) = None"
proof -
  let ?p = "holeyPartition [((''tx'', 0), 1)]"
  have dh: "pDh ?p = holeyHandler" by (simp add: holeyPartition_def)
  have three: "\<not> (3 :: u64) \<le> 1" by (simp add: word_le_nat_alt)
  have "disk_wf (pDh ?p)" "GetFirstOffset (pDh ?p) \<le> 0" "LastStableOffset None ?p = (1, ?p)" "stuck_at 0 1 (pDh ?p)"
    by (simp_all add: dh holeyHandler_log stuck_at_def between_def readBatchSize_def sample_offsets)
       (simp add: holeyPartition_def LastStableOffset_def pruneTransactionIndex_def committedTail_def
         firstUnresolvedOpenOffset_def holeyHandler_log holeyHandler_tail three)
  then show ?thesis using committed_read_livelock [of ?p 0 10 None 1 ?p] by simp
qed

end
