(* ===== verification/Partition_Producers.thy ===== *)
theory Partition_Producers
  imports Partition_Reads
begin

section \<open>Idempotent producers\<close>

text \<open>
  The sequence numbers of producers on an idempotent partition. The log of a partition is what its disk handler has
  written followed by the queued messages. The invariant says that the records of a producer stand in the log in the
  order of their epochs and sequence numbers, and that the producer state is at or past each of them.
\<close>

subsection \<open>Sequences in a log\<close>

definition part_log :: "part_state \<Rightarrow> diskMessage list" where
  "part_log p = disk_log (pDh p) @ map stored (dhWriteCh (pDh p))"

definition sequenced :: "diskMessage \<Rightarrow> bool" where
  "sequenced m \<longleftrightarrow> dProducerID m \<noteq> [] \<and> dSeqNum m \<noteq> 0"

definition seq_less :: "i64 \<times> u64 \<Rightarrow> i64 \<times> u64 \<Rightarrow> bool" where
  "seq_less a b \<longleftrightarrow> sint (fst a) < sint (fst b) \<or> fst a = fst b \<and> snd a < snd b"

abbreviation seq_le :: "i64 \<times> u64 \<Rightarrow> i64 \<times> u64 \<Rightarrow> bool" where
  "seq_le a b \<equiv> a = b \<or> seq_less a b"

abbreviation seq_of :: "diskMessage \<Rightarrow> i64 \<times> u64" where
  "seq_of m \<equiv> (dEpoch m, dSeqNum m)"

definition in_sequence :: "diskMessage \<Rightarrow> diskMessage \<Rightarrow> bool" where
  "in_sequence a b \<longleftrightarrow> (sequenced a \<longrightarrow> sequenced b \<longrightarrow> dProducerID a = dProducerID b \<longrightarrow> seq_less (seq_of a) (seq_of b))"

definition tracked :: "(string \<Rightarrow> (i64 \<times> u64) option) \<Rightarrow> diskMessage list \<Rightarrow> bool" where
  "tracked view log \<longleftrightarrow>
     (\<forall>m\<in>set log. sequenced m \<longrightarrow> (\<exists>e. view (dProducerID m) = Some e \<and> seq_le (seq_of m) e))"

definition sound_log :: "(string \<Rightarrow> (i64 \<times> u64) option) \<Rightarrow> diskMessage list \<Rightarrow> bool" where
  "sound_log view log \<longleftrightarrow> sorted_wrt in_sequence log \<and> tracked view log"

definition newer :: "(i64 \<times> u64) option \<Rightarrow> i64 \<times> u64 \<Rightarrow> bool" where
  "newer latest s \<longleftrightarrow> (case latest of None \<Rightarrow> True | Some e \<Rightarrow> seq_less e s)"

lemma seq_less_trans: "seq_less a b \<Longrightarrow> seq_less b c \<Longrightarrow> seq_less a c"
  by (auto simp: seq_less_def)

lemma seq_less_irrefl [simp]: "\<not> seq_less a a"
  by (simp add: seq_less_def)

lemma sound_log_Nil [simp]: "sound_log view []"
  by (simp add: sound_log_def tracked_def)

lemma subseq_elem: "subseq xs ys \<Longrightarrow> x \<in> set xs \<Longrightarrow> x \<in> set ys"
  by (erule list_emb_set) auto

lemma sorted_wrt_subseq: "subseq xs ys \<Longrightarrow> sorted_wrt P ys \<Longrightarrow> sorted_wrt P xs"
  by (induction rule: list_emb.induct) (auto dest: subseq_elem)

lemma sound_log_subseq: "sound_log view log \<Longrightarrow> subseq log' log \<Longrightarrow> sound_log view log'"
  unfolding sound_log_def tracked_def using sorted_wrt_subseq [of log' log] subseq_elem [of log' log] by blast

lemma sound_log_append:
  assumes "sound_log view log" and "sequenced m \<Longrightarrow> newer (view (dProducerID m)) (seq_of m)"
    and "\<And>pid. view' pid = (if sequenced m \<and> pid = dProducerID m then Some (seq_of m) else view pid)"
  shows "sound_log view' (log @ [m])"
proof -
  have less: "seq_less (seq_of a) (seq_of m)" if a: "a \<in> set log" "sequenced a" "sequenced m" "dProducerID a = dProducerID m" for a
  proof -
    obtain e where "view (dProducerID m) = Some e" "seq_le (seq_of a) e"
      using assms(1) a unfolding sound_log_def tracked_def by metis
    with assms(2) [OF a(3)] show ?thesis by (auto simp: newer_def intro: seq_less_trans)
  qed
  have "sorted_wrt in_sequence (log @ [m])"
    using assms(1) less by (auto simp: sound_log_def sorted_wrt_append in_sequence_def)
  moreover have "\<exists>e. view' (dProducerID a) = Some e \<and> seq_le (seq_of a) e" if a: "a \<in> set log" "sequenced a" for a
  proof (cases "sequenced m \<and> dProducerID a = dProducerID m")
    case True
    with less a show ?thesis by (auto simp: assms(3))
  next
    case False
    with assms(1) a show ?thesis by (auto simp: assms(3) sound_log_def tracked_def)
  qed
  ultimately show ?thesis by (auto simp: sound_log_def tracked_def assms(3))
qed

subsection \<open>The state of the producers\<close>

definition producer_view :: "(string, producerEntry) gomap \<Rightarrow> string \<Rightarrow> (i64 \<times> u64) option" where
  "producer_view st pid = map_option (\<lambda>e. (peEpoch e, peSeq e)) (map_of st pid)"

definition staged_view :: "(string, i64 \<times> u64) gomap \<Rightarrow> part_state \<Rightarrow> string \<Rightarrow> (i64 \<times> u64) option" where
  "staged_view staged p pid =
     (case map_of staged pid of Some e \<Rightarrow> Some e | None \<Rightarrow> producer_view (pProducerState p) pid)"

lemma producer_view_mput:
  "producer_view (mput k e st) pid = (if pid = k then Some (peEpoch e, peSeq e) else producer_view st pid)"
  by (simp add: producer_view_def)

lemma staged_view_Nil: "staged_view [] p = producer_view (pProducerState p)"
  by (auto simp: staged_view_def fun_eq_iff)

lemma staged_view_mput: "staged_view (mput k e staged) p pid = (if pid = k then Some e else staged_view staged p pid)"
  by (simp add: staged_view_def)

lemma sint_less: "\<not> sint b < sint a \<Longrightarrow> b \<noteq> a \<Longrightarrow> sint a < sint b" for a b :: i64
  by (metis linorder_neqE signed_word_eqI)

lemma validated_is_newer:
  assumes "validateProducerMessageWithStage msg (Some staged) force p = Inr False" and "pIsIdempotent p"
    and "mProducerID msg \<noteq> []" and "mSeqNum msg \<noteq> 0"
  shows "newer (staged_view staged p (mProducerID msg)) (mEpoch msg, mSeqNum msg)"
  using assms
  by (auto simp: newer_def validateProducerMessageWithStage_def validateAgainstProducerState_def staged_view_def producer_view_def
      seq_less_def not_le intro: sint_less split: option.splits if_splits)

lemma unstaged: "validateProducerMessageWithStage msg None force p = validateProducerMessageWithStage msg (Some []) force p"
  by (simp add: validateProducerMessageWithStage_def)


subsection \<open>The invariant and single appends\<close>

definition producer_inv :: "part_state \<Rightarrow> bool" where
  "producer_inv p \<longleftrightarrow> pIsIdempotent p \<and> disk_wf (pDh p) \<and> pLEO p = dhAbsoluteOffset (pDh p) \<and> pHWM p \<le> pLEO p \<and>
     sound_log (producer_view (pProducerState p)) (part_log p)"

text \<open>A message that names its producer carries a sequence number.\<close>

definition numbered :: "message \<Rightarrow> bool" where
  "numbered msg \<longleftrightarrow> (mProducerID msg \<noteq> [] \<longrightarrow> mSeqNum msg \<noteq> 0)"

abbreviation as_record :: "part_state \<Rightarrow> message \<Rightarrow> diskMessage" where
  "as_record p msg \<equiv> stored (diskMessageFromMessage (pTopic p) (word_of_int (pId p)) msg)"

lemma record_fields [simp]:
  "dProducerID (diskMessageFromMessage topic part msg) = mProducerID msg"
  "dEpoch (diskMessageFromMessage topic part msg) = mEpoch msg"
  "dSeqNum (diskMessageFromMessage topic part msg) = mSeqNum msg"
  by (simp_all add: diskMessageFromMessage_def)

lemma sequenced_record [simp]:
  "sequenced (stored m) = sequenced m"
  "sequenced (diskMessageFromMessage topic part msg) \<longleftrightarrow> mProducerID msg \<noteq> [] \<and> mSeqNum msg \<noteq> 0"
  by (simp_all add: sequenced_def)

lemma producer_update_fields [simp]:
  "pIsIdempotent (updateProducerStateWithMode now msg force p) = pIsIdempotent p"
  "pDh (updateProducerStateWithMode now msg force p) = pDh p"
  "pLEO (updateProducerStateWithMode now msg force p) = pLEO p"
  "pHWM (updateProducerStateWithMode now msg force p) = pHWM p"
  "pIsIdempotent (indexTransactionMessage msg p) = pIsIdempotent p"
  "pDh (indexTransactionMessage msg p) = pDh p" "pLEO (indexTransactionMessage msg p) = pLEO p"
  "pHWM (indexTransactionMessage msg p) = pHWM p" "pProducerState (indexTransactionMessage msg p) = pProducerState p"
  by (simp_all add: updateProducerStateWithMode_def indexTransactionMessage_def)

lemma updated_view:
  "pIsIdempotent p \<Longrightarrow> numbered msg \<Longrightarrow>
   producer_view (pProducerState (updateProducerStateWithMode now msg force p)) pid =
   (if (mProducerID msg \<noteq> [] \<and> mSeqNum msg \<noteq> 0) \<and> pid = mProducerID msg then Some (mEpoch msg, mSeqNum msg)
    else producer_view (pProducerState p) pid)"
  by (auto simp: updateProducerStateWithMode_def numbered_def producer_view_mput)

lemma producer_inv_cong:
  assumes "producer_inv p" and "pIsIdempotent p' = pIsIdempotent p" and "pDh p' = pDh p" and "pLEO p' = pLEO p"
    and "pHWM p' \<le> pLEO p" and "pProducerState p' = pProducerState p"
  shows "producer_inv p'"
  using assms by (simp add: producer_inv_def part_log_def)

lemma setHWMLocked_inv:
  assumes "producer_inv p" and "hwm \<le> pLEO p"
  shows "producer_inv (snd (setHWMLocked hwm p))"
  using assms by (auto simp: setHWMLocked_def intro: producer_inv_cong)

lemma NotifyNewMessage_inv [simp]: "producer_inv (NotifyNewMessage p) = producer_inv p"
  by (simp add: producer_inv_def NotifyNewMessage_def part_log_def)

lemma recordAppended_inv:
  assumes inv: "producer_inv p" and "numbered msg" and valid: "validateProducerMessageWithStage msg (Some []) force p = Inr False"
    and dh: "disk_wf dh" "dhAbsoluteOffset dh = offset + 1" "offset + 1 \<noteq> 0" "offset = pLEO p"
    and log: "part_log (p\<lparr>pDh := dh\<rparr>) = part_log p @ [as_record p (msg\<lparr>mOffset := offset\<rparr>)]"
  shows "producer_inv (recordAppended now force msg offset (p\<lparr>pDh := dh\<rparr>))"
proof -
  let ?p = "indexTransactionMessage (msg\<lparr>mOffset := offset\<rparr>) (updateProducerStateWithMode now msg force (p\<lparr>pDh := dh\<rparr>))"
  let ?q = "?p\<lparr>pLEO := offset + 1\<rparr>"
  have idem: "pIsIdempotent p" using inv by (simp add: producer_inv_def)
  have "sound_log (producer_view (pProducerState ?p)) (part_log p @ [as_record p (msg\<lparr>mOffset := offset\<rparr>)])"
  proof (rule sound_log_append)
    show "sound_log (producer_view (pProducerState p)) (part_log p)" using inv by (simp add: producer_inv_def)
  qed (use validated_is_newer [OF valid idem] updated_view [of "p\<lparr>pDh := dh\<rparr>" msg now force] idem assms(2) in
      \<open>auto simp: staged_view_Nil\<close>)
  moreover have "part_log ?q = part_log (p\<lparr>pDh := dh\<rparr>)" by (simp add: part_log_def)
  moreover have "pHWM p \<le> offset + 1" using inv word_succ_le [OF dh(3)] dh(4) by (auto simp: producer_inv_def)
  ultimately have "producer_inv ?q" using idem dh log by (simp add: producer_inv_def)
  then show ?thesis unfolding recordAppended_def Let_def by (rule setHWMLocked_inv) simp
qed


abbreviation room :: "part_state \<Rightarrow> nat \<Rightarrow> bool" where
  "room p n \<equiv> unat (dhAbsoluteOffset (pDh p)) + n < 2 ^ 64"

lemma room_succ: "unat (x :: u64) + 1 < 2 ^ 64 \<Longrightarrow> x + 1 \<noteq> 0 \<and> unat (x + 1) = unat x + 1"
  by (auto simp: unat_eq_0 [symmetric] unat_word_ariths)

lemma AppendMessage_error: "AppendMessage topic part msg accepted d = (Inl e, d') \<Longrightarrow> d' = d"
  by (auto simp: AppendMessage_def Let_def split: if_splits option.splits)

lemma queued_append_inv:
  assumes "producer_inv p" and "numbered msg" and "validateProducerMessageWithStage msg (Some []) False p = Inr False" and "room p 1"
    and "AppendMessage (pTopic p) (pId p) msg accepted (pDh p) = (Inr offset, dh)"
  shows "producer_inv (recordAppended now False msg offset (p\<lparr>pDh := dh\<rparr>)) \<and>
    unat (dhAbsoluteOffset dh) = unat (dhAbsoluteOffset (pDh p)) + 1"
proof -
  have wf: "disk_wf (pDh p)" using assms(1) by (simp add: producer_inv_def)
  note succ = room_succ [OF assms(4)]
  have app: "offset = dhAbsoluteOffset (pDh p)" "disk_wf dh" "disk_log dh = disk_log (pDh p)" "dhAbsoluteOffset dh = offset + 1"
    "dhWriteCh dh = dhWriteCh (pDh p) @ [diskMessageFromMessage (pTopic p) (word_of_int (pId p)) (msg\<lparr>mOffset := offset\<rparr>)]"
    using AppendMessage_log [OF wf conjunct1 [OF succ] assms(5)] by simp_all
  have "producer_inv (recordAppended now False msg offset (p\<lparr>pDh := dh\<rparr>))"
    using assms(1-3) app succ
    by (intro recordAppended_inv) (auto simp: producer_inv_def part_log_def)
  then show ?thesis using app succ by simp
qed

lemma synced_append_inv:
  assumes "producer_inv p" and "numbered msg" and "validateProducerMessageWithStage msg (Some []) force p = Inr False" and "room p 1"
    and "dhWriteCh (pDh p) = []" and "AppendMessageSync (pTopic p) (pId p) msg None (pDh p) = (Inr offset, dh)"
  shows "producer_inv (recordAppended now force msg offset (p\<lparr>pDh := dh\<rparr>)) \<and> dhWriteCh dh = [] \<and>
    unat (dhAbsoluteOffset dh) = unat (dhAbsoluteOffset (pDh p)) + 1"
proof -
  have wf: "disk_wf (pDh p)" using assms(1) by (simp add: producer_inv_def)
  note succ = room_succ [OF assms(4)]
  have app: "offset = dhAbsoluteOffset (pDh p)" "disk_wf dh" "dhWriteCh dh = []" "dhAbsoluteOffset dh = offset + 1"
    "disk_log dh = disk_log (pDh p) @ [as_record p (msg\<lparr>mOffset := offset\<rparr>)]"
    using AppendMessageSync_log [OF wf assms(5) conjunct1 [OF succ] assms(6)] by simp_all
  have "producer_inv (recordAppended now force msg offset (p\<lparr>pDh := dh\<rparr>))"
    using assms(1-3,5) app succ
    by (intro recordAppended_inv) (auto simp: producer_inv_def part_log_def)
  then show ?thesis using app succ by simp
qed

lemma Enqueue_inv:
  assumes "producer_inv p" and "numbered msg" and "room p 1" and "Enqueue now msg accepted p = (err, p')"
  shows "producer_inv p'"
  using assms queued_append_inv [OF assms(1,2) _ assms(3)]
  by (auto simp: Enqueue_def validateProducerMessage_def unstaged dest: AppendMessage_error
      split: if_splits sum.splits bool.splits prod.splits)

lemma enqueueSync_inv:
  assumes "producer_inv p" and "numbered msg" and "room p 1" and "dhWriteCh (pDh p) = []"
    and "enqueueSync now msg force None p = (err, p')"
  shows "producer_inv p'"
  using assms synced_append_inv [OF assms(1,2) _ assms(3,4)]
  by (auto simp: enqueueSync_def unstaged dest: AppendMessageSync_error split: if_splits sum.splits bool.splits prod.splits)

lemma recorded_fields [simp]:
  "pDh (recordAppended now force msg offset p) = pDh p" "pClosed (recordAppended now force msg offset p) = pClosed p"
  by (simp_all add: recordAppended_def setHWMLocked_def Let_def indexTransactionMessage_def updateProducerStateWithMode_def)

lemma batchLoop_inv:
  assumes "producer_inv p" and "list_all numbered msgs" and "room p (length msgs)"
    and "batchLoop now accepted msgs p = (err, out, p')"
  shows "producer_inv p'"
  using assms
proof (induction msgs arbitrary: accepted p out)
  case (Cons msg msgs)
  note step = queued_append_inv [of p msg "accepted = [] \<or> hd accepted" _ _ now]
  have room: "room p 1" using Cons.prems(3) by simp
  show ?case
    using Cons.prems Cons.IH [of p "tl accepted"] step [OF Cons.prems(1) _ _ room] Cons.IH [of _ "tl accepted"]
    by (auto simp: validateProducerMessage_def unstaged dest: AppendMessage_error
        split: sum.splits bool.splits prod.splits)
qed auto

lemma batchSyncLoop_inv:
  assumes "producer_inv p" and "list_all numbered msgs" and "room p (length msgs)" and "dhWriteCh (pDh p) = []"
    and "batchSyncLoop now force [] msgs p = (err, out, p')"
  shows "producer_inv p'"
  using assms
proof (induction msgs arbitrary: p out)
  case (Cons msg msgs)
  have room: "room p 1" using Cons.prems(3) by simp
  show ?case
    using Cons.prems Cons.IH [of p] synced_append_inv [OF Cons.prems(1) _ _ room, of msg force _ _ now] Cons.IH
    by (auto simp: unstaged dest: AppendMessageSync_error split: sum.splits bool.splits prod.splits)
qed auto

subsection \<open>Appends of a leader\<close>

lemma noteAppended_fields [simp]:
  "pIsIdempotent (noteAppended now force msgs p) = pIsIdempotent p" "pDh (noteAppended now force msgs p) = pDh p"
  "pLEO (noteAppended now force msgs p) = pLEO p" "pHWM (noteAppended now force msgs p) = pHWM p"
  by (induction msgs arbitrary: p) (simp_all add: noteAppended_def)

lemma noteAppended_Cons:
  "noteAppended now force (msg # msgs) p =
   noteAppended now force msgs (indexTransactionMessage msg (updateProducerStateWithMode now msg (force msg) p))"
  by (simp add: noteAppended_def)

lemma map_prod_second: "map_prod id f x = (a, b) \<longleftrightarrow> (\<exists>r. x = (a, r) \<and> b = f r)"
  by (cases x) auto

lemma stageLeader_cases:
  assumes "stageLeader force nextOffset staged (msg # msgs) p = (None, out)"
  obtains rest where "validateProducerMessageWithStage msg (Some staged) force p = Inr True"
      "stageLeader force nextOffset staged msgs p = (None, rest)" "out = (False, msg) # rest"
    | rest where "validateProducerMessageWithStage msg (Some staged) force p = Inr False"
      "stageLeader force (nextOffset + 1) (if (pIsIdempotent p \<or> force) \<and> mProducerID msg \<noteq> [] \<and> mSeqNum msg > 0
          then mput (mProducerID msg) (mEpoch msg, mSeqNum msg) staged else staged) msgs p = (None, rest)"
      "out = (True, msg\<lparr>mOffset := nextOffset\<rparr>) # rest"
  using assms by (auto simp: Let_def map_prod_second split: sum.splits bool.splits)

lemma stageLeader_sound:
  assumes "stageLeader force nextOffset staged msgs p = (None, out)" and "pIsIdempotent p" and "list_all numbered msgs"
    and "sound_log (staged_view staged p) log" and "pIsIdempotent q" and "producer_view (pProducerState q) = staged_view staged p"
  shows "sound_log (producer_view (pProducerState (noteAppended now f (map snd (filter fst out)) q)))
     (log @ map (as_record r) (map snd (filter fst out)))"
  using assms
proof (induction msgs arbitrary: nextOffset staged log q out)
  case (Cons msg msgs)
  let ?valid = "validateProducerMessageWithStage msg (Some staged) force p"
  let ?msg = "msg\<lparr>mOffset := nextOffset\<rparr>"
  let ?staged = "if (pIsIdempotent p \<or> force) \<and> mProducerID msg \<noteq> [] \<and> mSeqNum msg > 0 then mput (mProducerID msg) (mEpoch msg, mSeqNum msg) staged else staged"
  have "numbered ?msg = numbered msg" by (simp add: numbered_def)
  then have num: "numbered msg" "numbered ?msg" "list_all numbered msgs" using Cons.prems(3) by simp_all
  from Cons.prems(1) show ?case
  proof (cases rule: stageLeader_cases)
    case 1
    with Cons.IH [OF 1(2) Cons.prems(2) num(3) Cons.prems(4-6)] show ?thesis by simp
  next
    case 2
    let ?q = "indexTransactionMessage ?msg (updateProducerStateWithMode now ?msg (f ?msg) q)"
    have view: "producer_view (pProducerState ?q) = staged_view ?staged p"
      using updated_view [OF Cons.prems(5) num(2)] by (auto simp: fun_eq_iff Cons.prems(2,6) staged_view_mput word_gt_0)
    have "sound_log (staged_view ?staged p) (log @ [as_record r ?msg])"
      using validated_is_newer [OF 2(1) Cons.prems(2)]
      by (intro sound_log_append [OF Cons.prems(4)]) (auto simp: staged_view_mput word_gt_0 Cons.prems(2))
    from Cons.IH [OF 2(2) Cons.prems(2) num(3) this _ view] Cons.prems(5) 2(3) show ?thesis
      by (simp add: noteAppended_Cons)
  qed
qed (simp add: noteAppended_def)

lemma stageLeader_offsets:
  assumes "stageLeader force nextOffset staged msgs p = (None, out)" and "unat nextOffset + length msgs < 2 ^ 64"
  shows "map (unat \<circ> mOffset) (map snd (filter fst out)) = [unat nextOffset..<unat nextOffset + length (filter fst out)] \<and>
    length (filter fst out) \<le> length msgs"
  using assms
proof (induction msgs arbitrary: nextOffset staged out)
  case (Cons msg msgs)
  have succ: "unat (nextOffset + 1) = Suc (unat nextOffset)" using Cons.prems(2) by (simp add: unat_word_ariths)
  from Cons.prems(1) show ?case
  proof (cases rule: stageLeader_cases)
    case (1 rest)
    with Cons.IH [OF 1(2)] Cons.prems(2) show ?thesis by simp
  next
    case (2 rest)
    with Cons.IH [OF 2(2)] Cons.prems(2) show ?thesis by (simp add: succ upt_conv_Cons del: upt_Suc)
  qed
qed auto


lemma batch_run:
  assumes offs: "map (unat \<circ> mOffset) pending = [unat x..<unat x + length pending]" and "pending \<noteq> []"
    and "unat (x :: u64) + length pending < 2 ^ 64" and batch: "batch = map (diskMessageFromMessage topic part) pending"
  shows "run batch (unat x) (unat x + length pending)" and "dOffset (last batch) + 1 = x + word_of_nat (length pending)"
    and "dOffset (last batch) + 1 \<noteq> 0" and "x \<le> dOffset (last batch) + 1"
proof -
  show run: "run batch (unat x) (unat x + length pending)"
    using offs by (simp add: batch diskMessageFromMessage_def comp_def)
  have "Suc (unat (dOffset (last batch))) = unat x + length pending"
    using run_last [OF run] assms(2) by (simp add: batch)
  then show "dOffset (last batch) + 1 = x + word_of_nat (length pending)" "dOffset (last batch) + 1 \<noteq> 0"
    "x \<le> dOffset (last batch) + 1"
    using assms(3) by (auto simp: word_unat_eq_iff word_le_nat_alt unat_word_ariths unsigned_of_nat take_bit_nat_eq_self)
qed

lemma EnqueueBatchLeader_inv:
  assumes inv: "producer_inv p" and "list_all numbered msgs" and "room p (length msgs)" and q: "dhWriteCh (pDh p) = []"
    and batch: "EnqueueBatchLeaderWithMode now msgs forceIdempotent None p = (err, out, p')"
  shows "producer_inv p'"
proof -
  let ?force = "forceIdempotent \<or> batchHasTransactionalMessages msgs"
  have p: "pIsIdempotent p" "disk_wf (pDh p)" "pLEO p = dhAbsoluteOffset (pDh p)" "pHWM p \<le> pLEO p"
    "sound_log (staged_view [] p) (disk_log (pDh p))"
    using inv q by (auto simp: producer_inv_def staged_view_Nil part_log_def)
  obtain serr staged where st: "stageLeader ?force (pLEO p) [] msgs p = (serr, staged)" by (cases "stageLeader ?force (pLEO p) [] msgs p")
  define pending where "pending = map snd (filter fst staged)"
  let ?batch = "map (diskMessageFromMessage (pTopic p) (word_of_int (pId p))) pending"
  show ?thesis
  proof (cases "pClosed p \<or> pId p > 2147483647 \<or> serr \<noteq> None \<or> pending = []")
    case True
    then show ?thesis
      using batch inv st by (auto simp: EnqueueBatchLeaderWithMode_def pending_def [symmetric] Let_def split: if_splits option.splits)
  next
    case False
    then have st': "stageLeader ?force (pLEO p) [] msgs p = (None, staged)" using st by simp
    have offs: "map (unat \<circ> mOffset) pending = [unat (pLEO p)..<unat (pLEO p) + length pending]" "length pending \<le> length msgs"
      using stageLeader_offsets [OF st'] assms(3) p(3) by (simp_all add: pending_def)
    have "pending \<noteq> []" "unat (pLEO p) + length pending < 2 ^ 64" using False offs(2) assms(3) p(3) by auto
    note run = batch_run [OF offs(1) this refl, of "pTopic p" "word_of_int (pId p)", unfolded p(3)]
    obtain werr dh where wr: "WriteBatchSync ?batch None (pDh p) = (werr, dh)" by (cases "WriteBatchSync ?batch None (pDh p)")
    let ?p = "noteAppended now (\<lambda>_. ?force) pending (p\<lparr>pDh := dh\<rparr>)"
    have p': "p' = NotifyNewMessage (if werr = None then ?p\<lparr>pLEO := pLEO p + word_of_nat (length pending)\<rparr> else p\<lparr>pDh := dh\<rparr>)"
      using batch False wr
      unfolding EnqueueBatchLeaderWithMode_def Let_def st' prod.case option.case pending_def [symmetric] writeBatchDurably_def
      by (auto split: option.splits)
    show ?thesis
    proof (cases werr)
      case (Some e)
      then have "dh = pDh p" using wr disk_storage.append_refused by blast
      then show ?thesis using inv Some by (simp add: p')
    next
      case None
      have w: "disk_wf dh" "dhWriteCh dh = []" "disk_log dh = disk_log (pDh p) @ map (as_record p) pending"
        "dhAbsoluteOffset dh = dOffset (last ?batch) + 1"
        using WriteBatchSync_log [OF p(2) q _ run(1,3), of dh] wr None False by (simp_all add: comp_def)
      have "sound_log (producer_view (pProducerState ?p)) (disk_log dh)"
        unfolding w(3) pending_def using p(1) assms(2)
        by (intro stageLeader_sound [OF st' p(1) _ p(5)]) (simp_all add: staged_view_Nil)
      then have "producer_inv (?p\<lparr>pLEO := pLEO p + word_of_nat (length pending)\<rparr>)"
        using p(1,3,4) w run(2,4) by (auto simp: producer_inv_def part_log_def)
      then show ?thesis using None by (simp add: p')
    qed
  qed
qed


subsection \<open>Maintenance\<close>

lemma flush_inv:
  assumes "producer_inv p"
  shows "producer_inv (p\<lparr>pDh := flushQueue n None (pDh p)\<rparr>)" and "producer_inv (FlushDisk None p)"
proof -
  have wf: "disk_wf (pDh p)" using assms by (simp add: producer_inv_def)
  show "producer_inv (p\<lparr>pDh := flushQueue n None (pDh p)\<rparr>)"
    using assms flushQueue_log [OF wf, of n] by (auto simp: producer_inv_def part_log_def simp flip: map_append)
  show "producer_inv (FlushDisk None p)"
    using assms Flush_log [OF wf]
    by (auto simp: FlushDisk_def persistHWMCheckpoint_def persistProducerStateCheckpoint_def producer_inv_def part_log_def)
qed

lemma shrunk_inv:
  assumes "producer_inv p" and "disk_wf dh" and "dhAbsoluteOffset dh = dhAbsoluteOffset (pDh p)"
    and "dhWriteCh dh = dhWriteCh (pDh p)" and "subseq (disk_log dh) (disk_log (pDh p))"
  shows "producer_inv (p\<lparr>pDh := dh\<rparr>)"
proof -
  have "subseq (part_log (p\<lparr>pDh := dh\<rparr>)) (part_log p)"
    unfolding part_log_def using assms(4,5) by (simp add: list_emb_append_mono)
  with assms show ?thesis by (auto simp: producer_inv_def intro: sound_log_subseq)
qed

lemma compaction_inv:
  assumes "producer_inv p" and "EnforceCompaction allowed dirtyEnough (pDh p) = (err, dh)"
  shows "producer_inv (p\<lparr>pDh := dh\<rparr>)"
proof -
  from assms(1) obtain cs ms where rep: "disk_rep (pDh p) cs ms" by (auto simp: producer_inv_def disk_wf_def)
  from EnforceCompaction_rep [OF rep assms(2)] consider "dh = pDh p"
    | "disk_rep dh (map (\<lambda>s. (fst s, filter (kept (latest_of (concat (map snd cs)))) (snd s))) cs) ms"
      "dhAbsoluteOffset dh = dhAbsoluteOffset (pDh p)" "dhWriteCh dh = dhWriteCh (pDh p)" by blast
  then show ?thesis
  proof cases
    case 2
    have "disk_log dh = filter (kept (latest_of (concat (map snd cs)))) (concat (map snd cs)) @ ms"
      using disk_log_rep [OF 2(1)] by (simp add: filter_concat comp_def)
    then have "subseq (disk_log dh) (disk_log (pDh p))"
      unfolding disk_log_rep [OF rep] by (simp add: list_emb_append_mono)
    with 2 assms(1) show ?thesis by (intro shrunk_inv) (auto simp: disk_wf_def)
  qed (use assms(1) in simp)
qed

lemma retention_inv:
  assumes "producer_inv p"
  shows "producer_inv (p\<lparr>pDh := EnforceRetention allowed expired limit (pDh p)\<rparr>)"
  using assms EnforceRetention_log [of "pDh p" allowed expired limit]
  by (intro shrunk_inv) (auto simp: producer_inv_def)

subsection \<open>Recovery\<close>

lemma recovered_view:
  assumes "sorted_wrt in_sequence log"
  shows "sound_log (producer_view (fold (visitProducer now) (map messageFromDisk log) st)) log"
proof -
  have "tracked (producer_view (fold (visitProducer now) (map messageFromDisk log) st)) log"
    using assms
  proof (induction log rule: rev_induct)
    case (snoc m log)
    have seq: "seq_less (seq_of a) (seq_of m)" if "a \<in> set log" "sequenced a" "sequenced m" "dProducerID a = dProducerID m" for a
      using snoc.prems that by (auto simp: sorted_wrt_append in_sequence_def)
    have m: "mProducerID (messageFromDisk m) = dProducerID m" "mSeqNum (messageFromDisk m) = dSeqNum m"
      "mEpoch (messageFromDisk m) = dEpoch m" by (simp_all add: messageFromDisk_def)
    have "tracked (producer_view (fold (visitProducer now) (map messageFromDisk log) st)) log"
      using snoc by (simp add: sorted_wrt_append)
    then show ?case
      using seq by (auto simp: tracked_def visitProducer_def [of now "messageFromDisk m"] m producer_view_mput sequenced_def word_gt_0)
  qed (simp add: tracked_def)
  with assms show ?thesis by (simp add: sound_log_def)
qed


lemma empty_range:
  assumes "disk_wf dh" and "dhAbsoluteOffset dh \<le> GetFirstOffset dh"
  shows "disk_log dh = []"
proof (rule ccontr)
  assume "disk_log dh \<noteq> []"
  from disk_log_order [OF assms(1)] last_in_set [OF this] have "GetFirstOffset dh < dhAbsoluteOffset dh" by fastforce
  with assms(2) show False by simp
qed

lemma scan_all:
  assumes "disk_wf dh"
  shows "scanLog visit dh (dhAbsoluteOffset dh) (GetFirstOffset dh) st = Some (fold visit (log_messages dh) st)"
proof -
  have "filter (\<lambda>m. GetFirstOffset dh \<le> mOffset m) (log_messages dh) = log_messages dh"
    using log_messages_order(2) [OF assms] by (simp add: filter_id_conv)
  moreover have "GetFirstOffset dh \<le> dhAbsoluteOffset dh" using disk_log_order [OF assms] by (meson order.trans)
  ultimately show ?thesis using scanLog_log [OF assms, of "GetFirstOffset dh"] by simp
qed

lemma RecoverProducerStateFromLog_view:
  assumes "disk_wf (pDh p)" and "sorted_wrt in_sequence (disk_log (pDh p))"
  shows "\<exists>st dirty. RecoverProducerStateFromLog now p = Some (p\<lparr>pProducerState := st, pProducerDirty := dirty\<rparr>) \<and>
    sound_log (producer_view st) (disk_log (pDh p))"
proof (cases "dhAbsoluteOffset (pDh p) \<le> GetFirstOffset (pDh p)")
  case True
  with empty_range [OF assms(1)] show ?thesis
    by (intro exI [of _ "pProducerState p"] exI [of _ "pProducerDirty p"]) (simp add: RecoverProducerStateFromLog_def)
next
  case False
  with recovered_view [OF assms(2), of now "pProducerState p"] show ?thesis
    by (intro exI [of _ "fold (visitProducer now) (log_messages (pDh p)) (pProducerState p)"] exI [of _ True])
       (simp add: RecoverProducerStateFromLog_def Let_def scan_all [OF assms(1)] log_messages_def)
qed

lemma rebuild_fields:
  assumes "disk_wf (pDh p)"
  shows "\<exists>ms os fl. rebuildTransactionMarkerIndex p = Some (p\<lparr>pTxnMarkers := ms, pTxnOpenOffsets := os, pTxnRetentionFloor := fl\<rparr>)"
proof (cases "dhAbsoluteOffset (pDh p) \<le> GetFirstOffset (pDh p)")
  case True
  then show ?thesis
    by (intro exI [of _ "pTxnMarkers p"] exI [of _ "pTxnOpenOffsets p"] exI [of _ "pTxnRetentionFloor p"])
       (simp add: rebuildTransactionMarkerIndex_def)
next
  case False
  obtain ms os where "fold visitMarker (log_messages (pDh p)) ([], []) = (ms, os)"
    by (cases "fold visitMarker (log_messages (pDh p)) ([], [])")
  with False show ?thesis
    by (intro exI [of _ ms] exI [of _ os] exI [of _ "GetFirstOffset (pDh p)"])
       (simp add: rebuildTransactionMarkerIndex_def Let_def scan_all [OF assms])
qed


lemma openPartition_inv:
  assumes "disk_wf dh" and "dhWriteCh dh = []" and "sorted_wrt in_sequence (disk_log dh)"
  shows "\<exists>p. openPartition now partitionID topic True dh saved = Some p \<and> producer_inv p \<and> pDh p = dh"
proof -
  define hwm where "hwm = (case pHwmFile saved of Some persistedHWM \<Rightarrow>
      if persistedHWM > dhAbsoluteOffset dh then dhAbsoluteOffset dh else persistedHWM | None \<Rightarrow> dhAbsoluteOffset dh)"
  define p where "p = loadProducerStateCheckpoint now
    (saved\<lparr>pId := partitionID, pTopic := topic, pMessageGeneration := 0, pLEO := dhAbsoluteOffset dh, pHWM := hwm,
           pSnapshotRecovery := False, pRecoveryCheckpointHWM := 0, pRecoverySnapshotHWM := 0, pDh := dh,
           pClosed := False, pHwmDirty := False, pProducerDirty := False, pProducerState := [],
           pTxnMarkers := [], pTxnOpenOffsets := [], pTxnRetentionFloor := 0\<rparr>)"
  have p: "pDh p = dh" "pLEO p = dhAbsoluteOffset dh" "pHWM p = hwm"
    by (simp_all add: p_def loadProducerStateCheckpoint_def split: option.splits)
  have le: "hwm \<le> dhAbsoluteOffset dh" by (auto simp: hwm_def split: option.splits)
  obtain q where q: "NewPartition now partitionID topic dh saved = Some q" "pDh q = dh" "pLEO q = dhAbsoluteOffset dh" "pHWM q = hwm"
    using rebuild_fields [of p] assms(1) p
    by (auto simp: NewPartition_def Let_def p_def [symmetric] hwm_def [symmetric])
  with RecoverProducerStateFromLog_view [of "q\<lparr>pIsIdempotent := True\<rparr>" now] assms le show ?thesis
    by (auto simp: openPartition_def producer_inv_def part_log_def)
qed


subsection \<open>Promotion\<close>

text \<open>The epoch and sequence number of the last numbered record of a producer in a log.\<close>

definition latest_sequence :: "diskMessage list \<Rightarrow> string \<Rightarrow> (i64 \<times> u64) option" where
  "latest_sequence log pid =
     (let own = filter (\<lambda>m. sequenced m \<and> dProducerID m = pid) log
      in if own = [] then None else Some (seq_of (last own)))"

lemma recovered_latest:
  "producer_view (fold (visitProducer now) (map messageFromDisk log) []) = latest_sequence log"
proof (induction log rule: rev_induct)
  case (snoc m log)
  have m: "mProducerID (messageFromDisk m) = dProducerID m" "mSeqNum (messageFromDisk m) = dSeqNum m"
    "mEpoch (messageFromDisk m) = dEpoch m" by (simp_all add: messageFromDisk_def)
  have "latest_sequence (log @ [m]) pid =
      (if sequenced m \<and> dProducerID m = pid then Some (seq_of m) else latest_sequence log pid)" for pid
    by (simp add: latest_sequence_def Let_def)
  with snoc show ?case
    by (auto simp: fun_eq_iff visitProducer_def [of now "messageFromDisk m"] m producer_view_mput sequenced_def word_gt_0)
qed (auto simp: producer_view_def latest_sequence_def)

text \<open>A log without holes, which compaction has not touched and whose queue is written.\<close>

definition dense_log :: "diskHandler \<Rightarrow> bool" where
  "dense_log dh \<longleftrightarrow> disk_wf dh \<and> dhWriteCh dh = [] \<and> dhCompacted dh = [] \<and>
     run (disk_log dh) (unat (GetFirstOffset dh)) (unat (dhAbsoluteOffset dh))"

lemma rebuild_from_empty:
  assumes "disk_wf (pDh p)" and "pTxnMarkers p = []" and "pTxnOpenOffsets p = []"
  obtains ms os fl where "rebuildTransactionMarkerIndex p = Some (p\<lparr>pTxnMarkers := ms, pTxnOpenOffsets := os, pTxnRetentionFloor := fl\<rparr>)"
    "(ms, os) = fold visitMarker (log_messages (pDh p)) ([], [])"
proof (cases "dhAbsoluteOffset (pDh p) \<le> GetFirstOffset (pDh p)")
  case True
  with empty_range [OF assms(1)] assms(2,3) show ?thesis
    by (intro that [of "pTxnRetentionFloor p" "[]" "[]"]) (simp_all add: rebuildTransactionMarkerIndex_def log_messages_def)
next
  case False
  obtain ms os where "fold visitMarker (log_messages (pDh p)) ([], []) = (ms, os)"
    by (cases "fold visitMarker (log_messages (pDh p)) ([], [])")
  with False show ?thesis
    by (intro that [of "GetFirstOffset (pDh p)" os ms])
       (simp_all add: rebuildTransactionMarkerIndex_def Let_def scan_all [OF assms(1)])
qed

lemma recover_from_empty:
  assumes "disk_wf (pDh p)" and "pProducerState p = []"
  obtains st dirty where "RecoverProducerStateFromLog now p = Some (p\<lparr>pProducerState := st, pProducerDirty := dirty\<rparr>)"
    "producer_view st = latest_sequence (disk_log (pDh p))"
proof (cases "dhAbsoluteOffset (pDh p) \<le> GetFirstOffset (pDh p)")
  case True
  with empty_range [OF assms(1)] recovered_latest [of now "[]"] assms(2) show ?thesis
    by (intro that [of "pProducerDirty p" "[]"]) (simp_all add: RecoverProducerStateFromLog_def)
next
  case False
  with assms(2) show ?thesis
    by (intro that [of True "fold (visitProducer now) (log_messages (pDh p)) []"])
       (simp_all add: RecoverProducerStateFromLog_def Let_def scan_all [OF assms(1)] log_messages_def recovered_latest)
qed

lemma cut_back:
  assumes "dense_log (pDh p)" and leo: "pLEO p = dhAbsoluteOffset (pDh p)" and hwm: "GetFirstOffset (pDh p) \<le> hwm" "hwm < pLEO p"
  shows "\<exists>p'. reconcileCommittedHWMLocked now hwm False None p = Some (None, p') \<and> disk_wf (pDh p') \<and>
    dhWriteCh (pDh p') = [] \<and> dhAbsoluteOffset (pDh p') = hwm \<and> pLEO p' = hwm \<and> pHWM p' = hwm \<and>
    pIsIdempotent p' = pIsIdempotent p \<and>
    disk_log (pDh p') = filter (\<lambda>m. dOffset m < hwm) (disk_log (pDh p)) \<and>
    producer_view (pProducerState p') = latest_sequence (disk_log (pDh p')) \<and>
    (pTxnMarkers p', pTxnOpenOffsets p') = fold visitMarker (log_messages (pDh p')) ([], [])"
proof -
  have "hwm \<le> dhAbsoluteOffset (pDh p)" using hwm leo by simp
  then obtain dh where dh: "TruncateTo hwm False None (pDh p) = (None, dh)" "disk_wf dh" "dhWriteCh dh = []" "dhAbsoluteOffset dh = hwm"
    "disk_log dh = filter (\<lambda>m. dOffset m < hwm) (disk_log (pDh p))"
    using TruncateTo_log [of "pDh p" hwm] assms(1) hwm(1) by (auto simp: dense_log_def)
  define p1 where "p1 = p\<lparr>pDh := dh, pLEO := hwm, pHwmDirty := pHwmDirty p \<or> pHWM p \<noteq> hwm, pHWM := hwm,
    pTxnMarkers := [], pTxnOpenOffsets := [], pTxnRetentionFloor := 0\<rparr>"
  have p1: "pDh p1 = dh" by (simp add: p1_def)
  obtain ms os fl where reb: "rebuildTransactionMarkerIndex p1 = Some (p1\<lparr>pTxnMarkers := ms, pTxnOpenOffsets := os, pTxnRetentionFloor := fl\<rparr>)"
    "(ms, os) = fold visitMarker (log_messages dh) ([], [])"
  proof (rule rebuild_from_empty [of p1])
    show "disk_wf (pDh p1)" "pTxnMarkers p1 = []" "pTxnOpenOffsets p1 = []" using dh(2) by (simp_all add: p1_def)
  qed (simp add: p1)
  define p2 where "p2 = p1\<lparr>pTxnMarkers := ms, pTxnOpenOffsets := os, pTxnRetentionFloor := fl, pProducerState := []\<rparr>"
  obtain st dirty where rec: "RecoverProducerStateFromLog now p2 = Some (p2\<lparr>pProducerState := st, pProducerDirty := dirty\<rparr>)"
    "producer_view st = latest_sequence (disk_log dh)"
    by (rule recover_from_empty [of p2 now]) (use dh(2) p1 in \<open>simp_all add: p2_def\<close>)
  have "reconcileCommittedHWMLocked now hwm False None p = Some (None, p2\<lparr>pProducerState := st, pProducerDirty := dirty\<rparr>)"
    using hwm(2) less_imp_neq [OF hwm(2)] less_not_sym [OF hwm(2)] dh(1) reb(1) rec(1)
    by (simp add: reconcileCommittedHWMLocked_def Let_def p1_def p2_def)
  then show ?thesis using dh reb(2) rec(2) p1 by (simp add: p2_def) (simp add: p1_def)
qed


lemma reconcile_inv:
  assumes inv: "producer_inv p" and "dense_log (pDh p)" and "GetFirstOffset (pDh p) \<le> hwm"
    and rec: "reconcileCommittedHWMLocked now hwm False None p = Some (err, p')"
  shows "producer_inv p'"
proof (cases "hwm < pLEO p")
  case True
  have p: "pIsIdempotent p" "pLEO p = dhAbsoluteOffset (pDh p)" "sorted_wrt in_sequence (disk_log (pDh p))"
    using inv by (auto simp: producer_inv_def sound_log_def part_log_def sorted_wrt_append)
  from cut_back [OF assms(2) p(2) assms(3) True, of now] rec
  have cut: "disk_wf (pDh p')" "dhWriteCh (pDh p') = []" "dhAbsoluteOffset (pDh p') = hwm" "pLEO p' = hwm" "pHWM p' = hwm"
    "pIsIdempotent p' = pIsIdempotent p" "disk_log (pDh p') = filter (\<lambda>m. dOffset m < hwm) (disk_log (pDh p))"
    "producer_view (pProducerState p') = latest_sequence (disk_log (pDh p'))" by auto
  have "sorted_wrt in_sequence (disk_log (pDh p'))" unfolding cut(7) using p(3) by (rule sorted_wrt_filter)
  from recovered_view [OF this, of now "[]"] cut p(1) show ?thesis
    by (simp add: producer_inv_def part_log_def recovered_latest)
next
  case False
  with rec inv show ?thesis
    by (auto simp: reconcileCommittedHWMLocked_def Let_def producer_inv_def part_log_def split: if_splits)
qed

lemma restart_inv:
  assumes inv: "producer_inv p" and new: "newDiskHandler False (crashImage c i (pDh p)) = Inr dh"
    and opened: "openPartition now (pId p) (pTopic p) True dh p = Some p'"
  shows "producer_inv p'"
proof -
  from inv obtain cs ms where rep: "disk_rep (pDh p) cs ms" by (auto simp: producer_inv_def disk_wf_def)
  from crash_open [OF rep, of c i] new obtain ns rest where dh: "ms = ns @ rest" "disk_rep dh cs ns" "dhWriteCh dh = []" by auto
  have "disk_log (pDh p) = disk_log dh @ rest" using disk_log_rep [OF rep] disk_log_rep [OF dh(2)] dh(1) by simp
  then have "sorted_wrt in_sequence (disk_log dh)"
    using inv by (auto simp: producer_inv_def sound_log_def part_log_def sorted_wrt_append)
  moreover have "disk_wf dh" using dh(2) by (auto simp: disk_wf_def)
  ultimately show ?thesis using openPartition_inv [OF _ dh(3), of now "pId p" "pTopic p" p] opened by auto
qed

subsection \<open>Runs\<close>

text \<open>
  The steps of an idempotent partition while its storage does not fail: appends of every kind, the queue being
  written, watermarks, checkpoints, committed reads, compaction, retention, promotion, snapshot recovery, closing, and
  a crash at any moment followed by a restart. A synchronous append happens when the queue is written:
  \<open>AppendMessageSync\<close> does not wait for the queue, and would put its record ahead of queued records with smaller
  offsets. Eviction of producers that were silent for longer than their time to live is not among the steps, as it
  forgets the sequence it evicts.
\<close>

abbreviation written :: "part_state \<Rightarrow> bool" where
  "written p \<equiv> dhWriteCh (pDh p) = []"

inductive produce_step :: "part_state \<Rightarrow> part_state \<Rightarrow> bool" where
  "numbered msg \<Longrightarrow> room p 1 \<Longrightarrow> Enqueue now msg accepted p = (err, p') \<Longrightarrow> produce_step p p'"
| "list_all numbered msgs \<Longrightarrow> room p (length msgs) \<Longrightarrow> EnqueueBatch now msgs takes p = (err, out, p') \<Longrightarrow> produce_step p p'"
| "numbered msg \<Longrightarrow> room p 1 \<Longrightarrow> written p \<Longrightarrow> enqueueSync now msg force None p = (err, p') \<Longrightarrow> produce_step p p'"
| "list_all numbered msgs \<Longrightarrow> room p (length msgs) \<Longrightarrow> written p \<Longrightarrow>
     EnqueueBatchSyncWithMode now msgs force [] p = (err, out, p') \<Longrightarrow> produce_step p p'"
| "list_all numbered msgs \<Longrightarrow> room p (length msgs) \<Longrightarrow> written p \<Longrightarrow>
     EnqueueBatchLeaderWithMode now msgs force None p = (err, out, p') \<Longrightarrow> produce_step p p'"
| "produce_step p (p\<lparr>pDh := flushQueue n None (pDh p)\<rparr>)"
| "produce_step p (FlushDisk None p)"
| "hwm \<le> pLEO p \<Longrightarrow> produce_step p (SetHWM hwm p)"
| "produce_step p (AdvanceHWM p)"
| "ApplyReplicaHWM hwm p = (err, p') \<Longrightarrow> produce_step p p'"
| "produce_step p (hwmCheckpointTick p)"
| "produce_step p (producerCheckpointTick p)"
| "produce_step p (snd (ReadCommitted offset limit resolver p))"
| "EnforceCompaction allowed dirtyEnough (pDh p) = (derr, dh) \<Longrightarrow> produce_step p (p\<lparr>pDh := dh\<rparr>)"
| "produce_step p (p\<lparr>pDh := EnforceRetention allowed expired limit (pDh p)\<rparr>)"
| "dense_log (pDh p) \<Longrightarrow> GetFirstOffset (pDh p) \<le> hwm \<Longrightarrow>
     ReconcileCommittedHWM now hwm False None p = Some (err, p') \<Longrightarrow> produce_step p p'"
| "ReconcileSnapshotHWM hwm p = (err, p') \<Longrightarrow> produce_step p p'"
| "dense_log (pDh p) \<Longrightarrow> GetFirstOffset (pDh p) \<le> hwm \<Longrightarrow>
     FinalizeSnapshotRecovery now hwm False None p = Some (err, p') \<Longrightarrow> produce_step p p'"
| "produce_step p (ClosePartition p)"
| "newDiskHandler False (crashImage c i (pDh p)) = Inr dh \<Longrightarrow> openPartition now (pId p) (pTopic p) True dh p = Some p' \<Longrightarrow>
     produce_step p p'"

lemma watermark_inv:
  assumes "producer_inv p"
  shows "hwm \<le> pLEO p \<Longrightarrow> producer_inv (SetHWM hwm p)" and "producer_inv (AdvanceHWM p)"
    and "ApplyReplicaHWM hwm p = (err, p') \<Longrightarrow> producer_inv p'"
  using setHWMLocked_inv [OF assms, of hwm] setHWMLocked_inv [OF assms, of "pLEO p"] assms
  by (auto simp: SetHWM_def AdvanceHWM_def ApplyReplicaHWM_def not_less split: if_splits prod.splits bool.splits)

lemma checkpoint_inv:
  assumes "producer_inv p"
  shows "producer_inv (hwmCheckpointTick p)" and "producer_inv (producerCheckpointTick p)" and "producer_inv (ClosePartition p)"
    and "producer_inv (snd (ReadCommitted offset limit resolver p))"
  using assms
  by (auto simp: hwmCheckpointTick_def producerCheckpointTick_def ClosePartition_def persistHWMCheckpoint_def
      persistProducerStateCheckpoint_def ReadCommitted_def pruneTransactionIndex_def Let_def producer_inv_def part_log_def)

lemma snapshot_inv:
  assumes inv: "producer_inv p"
  shows "ReconcileSnapshotHWM hwm p = (err, p') \<Longrightarrow> producer_inv p'"
    and "dense_log (pDh p) \<Longrightarrow> GetFirstOffset (pDh p) \<le> hwm \<Longrightarrow> FinalizeSnapshotRecovery now hwm False None p = Some (err, p') \<Longrightarrow>
      producer_inv p'"
proof -
  show "producer_inv p'" if "ReconcileSnapshotHWM hwm p = (err, p')"
    using that inv by (auto simp: ReconcileSnapshotHWM_def producer_inv_def part_log_def split: if_splits)
  assume dense: "dense_log (pDh p)" "GetFirstOffset (pDh p) \<le> hwm" and fin: "FinalizeSnapshotRecovery now hwm False None p = Some (err, p')"
  let ?p = "p\<lparr>pSnapshotRecovery := False, pRecoveryCheckpointHWM := 0, pRecoverySnapshotHWM := 0\<rparr>"
  have inv': "producer_inv ?p" using inv by (auto simp: producer_inv_def part_log_def)
  show "producer_inv p'"
  proof (cases "\<not> pSnapshotRecovery p")
    case True
    then show ?thesis using fin reconcile_inv [OF inv dense] by (simp add: FinalizeSnapshotRecovery_def)
  next
    case False
    have keep: "producer_inv (q\<lparr>pSnapshotRecovery := a, pRecoveryCheckpointHWM := b, pRecoverySnapshotHWM := c\<rparr>)"
        "producer_inv (q\<lparr>pHwmDirty := d\<rparr>)" if "producer_inv q" for q a b c d
      using that by (auto simp: producer_inv_def part_log_def)
    show ?thesis
    proof (cases "pLEO p < hwm")
      case True
      then show ?thesis
        using fin False inv by (auto simp: FinalizeSnapshotRecovery_def Let_def producer_inv_def part_log_def split: if_splits)
    next
      case behind: False
      have "producer_inv q" if "reconcileCommittedHWMLocked now hwm False None ?p = Some (e, q)" for e q
        using reconcile_inv [OF inv' _ _ that] dense by simp
      with fin False behind show ?thesis
        by (auto simp: FinalizeSnapshotRecovery_def Let_def intro: keep split: option.splits prod.splits)
    qed
  qed
qed


lemma produce_step_inv: "produce_step p p' \<Longrightarrow> producer_inv p \<Longrightarrow> producer_inv p'"
proof (induction rule: produce_step.induct)
  case (2 msgs p now takes err out p')
  then show ?case by (auto simp: EnqueueBatch_def split: if_splits intro: batchLoop_inv)
next
  case (4 msgs p now force err out p')
  then show ?case by (auto simp: EnqueueBatchSyncWithMode_def split: if_splits intro: batchSyncLoop_inv)
next
  case (16 p hwm now err p')
  then show ?case by (auto simp: ReconcileCommittedHWM_def split: if_splits intro: reconcile_inv)
qed (auto intro: Enqueue_inv enqueueSync_inv EnqueueBatchLeader_inv flush_inv watermark_inv checkpoint_inv compaction_inv
    retention_inv snapshot_inv restart_inv)

lemma produce_run_inv: "produce_step\<^sup>*\<^sup>* p p' \<Longrightarrow> producer_inv p \<Longrightarrow> producer_inv p'"
  by (induction rule: rtranclp_induct) (auto intro: produce_step_inv)

lemma sequence_distinct:
  assumes "sorted_wrt in_sequence log"
  shows "distinct (map (\<lambda>m. (dProducerID m, dEpoch m, dSeqNum m)) (filter sequenced log))"
  using assms
proof (induction log)
  case (Cons m log)
  have "(dProducerID m, dEpoch m, dSeqNum m) \<noteq> (dProducerID a, dEpoch a, dSeqNum a)"
    if "a \<in> set log" "sequenced a" "sequenced m" for a
    using Cons.prems that by (auto simp: in_sequence_def)
  with Cons show ?case by auto
qed simp


lemma duplicate_refused:
  assumes "producer_inv p" and "m \<in> set (part_log p)" and "sequenced m"
    and "mProducerID msg = dProducerID m" "mEpoch msg = dEpoch m" "mSeqNum msg = dSeqNum m"
  shows "validateProducerMessageWithStage msg None force p \<in> {Inr True, Inl StaleProducerEpoch}"
proof -
  obtain e where e: "producer_view (pProducerState p) (dProducerID m) = Some e" "seq_le (seq_of m) e"
    using assms(1-3) unfolding producer_inv_def sound_log_def tracked_def by metis
  then obtain entry where "map_of (pProducerState p) (dProducerID m) = Some entry" "seq_le (seq_of m) (peEpoch entry, peSeq entry)"
    by (auto simp: producer_view_def)
  with assms show ?thesis
    by (auto simp: validateProducerMessageWithStage_def validateAgainstProducerState_def sequenced_def seq_less_def
        producer_inv_def)
qed

subsection \<open>Exactly once, and promotion\<close>


definition openedPartition :: part_state where
  "openedPartition = (holeyPartition [])\<lparr>pDh := freshHandler, pLEO := 0, pHWM := 0, pIsIdempotent := True\<rparr>"

definition orderMessage :: message where
  "orderMessage = zeroMessage\<lparr>mProducerID := ''p'', mSeqNum := 1, mPayload := ''x''\<rparr>"

lemma openedPartition_opens:
  "openPartition 0 0 ''orders'' True freshHandler (holeyPartition []) = Some openedPartition"
  by (simp add: openPartition_def NewPartition_def openedPartition_def holeyPartition_def Let_def
      rebuildTransactionMarkerIndex_def loadProducerStateCheckpoint_def RecoverProducerStateFromLog_def
      freshHandler_def GetFirstOffset_def)

lemma orderMessage_acceptable: "acceptable (diskMessageFromMessage ''orders'' 0 orderMessage)"
  by (simp add: acceptable_def storable_def diskLengthsFit_def length_diskLayout EstimateDiskMessageSize_def
      orderMessage_def zeroMessage_def diskMessageFromMessage_def SafeIntToUint16_def SafeIntToUint32_def slice_bytes_def
      MaxMessageSize_def MaxFramePayload_def)

lemma orderMessage_enqueued:
  "\<exists>p. Enqueue 0 orderMessage True openedPartition = (None, p) \<and>
       part_log p = [stored (diskMessageFromMessage ''orders'' 0 orderMessage)]"
proof -
  let ?rec = "diskMessageFromMessage ''orders'' 0 orderMessage"
  have log: "disk_log freshHandler = []" using disk_log_rep [OF freshHandler_rep] by simp
  have "orderMessage\<lparr>mOffset := 0\<rparr> = orderMessage" by (simp add: orderMessage_def zeroMessage_def)
  then have app: "AppendMessage ''orders'' 0 orderMessage True freshHandler =
      (Inr 0, freshHandler\<lparr>dhWriteCh := [?rec], dhAbsoluteOffset := 1\<rparr>)"
    using orderMessage_acceptable [folded validateDiskMessageSize_None]
    by (simp add: AppendMessage_def Let_def int32_partition_def freshHandler_def)
  have p: "pTopic openedPartition = ''orders''" "pId openedPartition = 0" "pDh openedPartition = freshHandler"
    "\<not> pClosed openedPartition" "pProducerState openedPartition = []"
    by (simp_all add: openedPartition_def holeyPartition_def)
  have valid: "validateProducerMessage orderMessage openedPartition = Inr False"
    by (simp add: validateProducerMessage_def validateProducerMessageWithStage_def p(5) orderMessage_def)
  have same: "disk_log (freshHandler\<lparr>dhWriteCh := [?rec], dhAbsoluteOffset := 1\<rparr>) = disk_log freshHandler"
    by (simp add: disk_log_def segmentFile_def)
  have "part_log (NotifyNewMessage (recordAppended 0 False orderMessage 0
      (openedPartition\<lparr>pDh := freshHandler\<lparr>dhWriteCh := [?rec], dhAbsoluteOffset := 1\<rparr>\<rparr>))) = [stored ?rec]"
    by (simp add: part_log_def NotifyNewMessage_def same log)
  then show ?thesis by (simp add: Enqueue_def p(1-4) valid app)
qed


text \<open>C14: Promotion cuts a log without holes at the committed watermark. Exactly the records below it stay, the log ends
  there, and the producer state and the transaction index are those of the remaining records.
\<close>

theorem promotion_discards_uncommitted:
  assumes "dense_log (pDh p)" and "pLEO p = dhAbsoluteOffset (pDh p)" and "GetFirstOffset (pDh p) \<le> hwm" and "hwm < pLEO p"
    and "\<not> pSnapshotRecovery p"
  shows "\<exists>p'. ReconcileCommittedHWM now hwm False None p = Some (None, p') \<and> disk_wf (pDh p') \<and>
    disk_log (pDh p') = filter (\<lambda>m. dOffset m < hwm) (disk_log (pDh p)) \<and>
    dhAbsoluteOffset (pDh p') = hwm \<and> pLEO p' = hwm \<and> pHWM p' = hwm \<and>
    producer_view (pProducerState p') = latest_sequence (disk_log (pDh p')) \<and>
    (pTxnMarkers p', pTxnOpenOffsets p') = fold visitMarker (log_messages (pDh p')) ([], [])"
  using cut_back [OF assms(1-4), of now] assms(5) by (auto simp: ReconcileCommittedHWM_def)


text \<open>A partition with two records of which one is committed.\<close>

definition twoRecords :: "diskMessage list" where
  "twoRecords = [sampleRecord 0 ''a'' ''x'', sampleRecord 1 ''b'' ''y'']"

definition aheadPartition :: part_state where
  "aheadPartition = (holeyPartition [])\<lparr>pLEO := 2, pHWM := 1,
     pDh := freshHandler\<lparr>dhFiles := [(0, framed twoRecords)], dhCurrentOffset := length (framed twoRecords),
       dhSynced := length (framed twoRecords), dhAbsoluteOffset := 2, dhFlushedOffset := 2\<rparr>\<rparr>"

lemma aheadPartition_rep: "disk_rep (pDh aheadPartition) [] twoRecords"
proof -
  have "list_all writable (map stored twoRecords)" by (simp add: twoRecords_def sampleRecord_acceptable acceptable_stored)
  moreover have "map stored twoRecords = twoRecords"
    by (simp add: twoRecords_def sampleRecord_def zeroDiskMessage_def stored_def slice_bytes_def)
  ultimately have "list_all writable twoRecords" by simp
  moreover have "run twoRecords 0 2" by (simp add: twoRecords_def sample_offsets upt_rec)
  ultimately show ?thesis
    by (simp add: aheadPartition_def holeyPartition_def freshHandler_def disk_rep_def active_segment_def segmentFile_def
        segmentIndex_def mkeys_def mwf_def)
qed

theorem promotion_discards_uncommitted_witness:
  "\<exists>p'. ReconcileCommittedHWM 0 1 False None aheadPartition = Some (None, p') \<and>
     disk_log (pDh p') = [sampleRecord 0 ''a'' ''x''] \<and> pLEO p' = 1 \<and> pHWM p' = 1"
proof -
  let ?p = aheadPartition
  have log: "disk_log (pDh ?p) = twoRecords" using disk_log_rep [OF aheadPartition_rep] by simp
  have fields: "dhWriteCh (pDh ?p) = []" "dhCompacted (pDh ?p) = []" "GetFirstOffset (pDh ?p) = 0" "dhAbsoluteOffset (pDh ?p) = 2"
    "pLEO ?p = 2" "\<not> pSnapshotRecovery ?p"
    by (simp_all add: aheadPartition_def holeyPartition_def freshHandler_def GetFirstOffset_def)
  have "dense_log (pDh ?p)"
    using aheadPartition_rep by (auto simp: dense_log_def disk_wf_def fields log) (simp add: twoRecords_def sample_offsets upt_rec)
  from promotion_discards_uncommitted [OF this, of 1 0] fields show ?thesis
    by (auto simp: log twoRecords_def sample_offsets word_less_nat_alt)
qed

end
