(* ===== verification/Partition_Replica.thy ===== *)
theory Partition_Replica
  imports Partition_Producers
begin

section \<open>Replicas\<close>

text \<open>
  What a follower does with the messages of its leader: a request is applied as a whole or not at all, messages it
  already has are compared, and the log of a follower stays a prefix of the leader's.
\<close>

subsection \<open>Staging\<close>

lemma same_refl [simp]: "sameReplicatedMessage m m"
  by (simp add: sameReplicatedMessage_def)

lemma same_stored: "sameReplicatedMessage (messageFromDisk (stored (diskMessageFromMessage topic part msg))) msg"
  by (simp add: sameReplicatedMessage_def messageFromDisk_def diskMessageFromMessage_def stored_def slice_bytes_def zeroMessage_def)

lemma map_sum_Inr: "map_sum id f x = Inr y \<longleftrightarrow> (\<exists>z. x = Inr z \<and> y = f z)"
  by (cases x) auto

lemma stageReplica_cases:
  assumes "stageReplica dh initialLEO nextOffset staged (msg # msgs) = Inr pending"
  obtains existing where "mOffset msg < initialLEO" "ReadMessages (mOffset msg) 1 dh = Inr [existing]"
      "sameReplicatedMessage existing msg" "stageReplica dh initialLEO nextOffset staged msgs = Inr pending"
    | existing where "\<not> mOffset msg < initialLEO" "map_of staged (mOffset msg) = Some existing"
      "sameReplicatedMessage existing msg" "stageReplica dh initialLEO nextOffset staged msgs = Inr pending"
    | rest where "\<not> mOffset msg < initialLEO" "mOffset msg = nextOffset" "pending = msg # rest"
      "stageReplica dh initialLEO (nextOffset + 1) (mput (mOffset msg) msg staged) msgs = Inr rest"
  using assms by (auto simp: map_sum_Inr split: if_splits sum.splits list.splits option.splits)


lemma stageReplica_pending:
  assumes "stageReplica dh initialLEO nextOffset staged msgs = Inr pending" and "unat nextOffset + length msgs < 2 ^ 64"
  shows "map (unat \<circ> mOffset) pending = [unat nextOffset..<unat nextOffset + length pending] \<and>
    set pending \<subseteq> set msgs \<and> length pending \<le> length msgs"
  using assms
proof (induction msgs arbitrary: nextOffset staged pending)
  case (Cons msg msgs)
  have succ: "unat (nextOffset + 1) = Suc (unat nextOffset)" using Cons.prems(2) by (simp add: unat_word_ariths)
  from Cons.prems(1) show ?case
  proof (cases rule: stageReplica_cases)
    case (3 rest)
    with Cons.IH [OF 3(4)] Cons.prems(2) show ?thesis by (auto simp: succ upt_conv_Cons simp del: upt_Suc)
  qed (use Cons.IH Cons.prems(2) in force)+
qed simp

lemma mput_values: "snd ` set (mput k v m) \<subseteq> insert v (snd ` set m)"
  by (induction m) (auto simp: mput_def)

text \<open>Each message of the request is in the log, was staged before, or is staged now.\<close>

lemma stageReplica_covers:
  assumes "stageReplica dh initialLEO nextOffset staged msgs = Inr pending" and "msg \<in> set msgs"
  shows "\<exists>existing. sameReplicatedMessage existing msg \<and>
    (ReadMessages (mOffset msg) 1 dh = Inr [existing] \<or> existing \<in> set pending \<or> existing \<in> snd ` set staged)"
  using assms
proof (induction msgs arbitrary: nextOffset staged pending)
  case (Cons m msgs)
  from Cons.prems(1) show ?case
  proof (cases rule: stageReplica_cases)
    case (1 existing)
    with Cons show ?thesis by (cases "msg = m") auto
  next
    case (2 existing)
    then have "existing \<in> snd ` set staged" by (force dest: map_of_SomeD)
    with 2 Cons show ?thesis by (cases "msg = m") auto
  next
    case (3 rest)
    show ?thesis
    proof (cases "msg = m")
      case False
      with Cons.prems(2) Cons.IH [OF 3(4)] obtain existing where "sameReplicatedMessage existing msg"
        "ReadMessages (mOffset msg) 1 dh = Inr [existing] \<or> existing \<in> set rest \<or> existing \<in> snd ` set (mput (mOffset m) m staged)"
        by auto
      moreover have "snd ` set (mput (mOffset m) m staged) \<subseteq> insert m (snd ` set staged)" by (rule mput_values)
      ultimately show ?thesis using 3(3) by auto
    qed (use 3(3) in \<open>auto intro: exI [of _ m]\<close>)
  qed
qed simp


subsection \<open>Appending\<close>

lemma noteAppended_identity [simp]:
  "pTopic (noteAppended now force msgs p) = pTopic p" "pId (noteAppended now force msgs p) = pId p"
  by (induction msgs arbitrary: p)
     (simp_all add: noteAppended_def indexTransactionMessage_def updateProducerStateWithMode_def)

lemma ReplicaAppend_log:
  assumes wf: "disk_wf (pDh p)" "dhWriteCh (pDh p) = []" "pLEO p = dhAbsoluteOffset (pDh p)" and room: "room p (length msgs)"
    and app: "ReplicaAppendWithMode now msgs force None p = (None, p')"
  obtains pending where "stageReplica (pDh p) (pLEO p) (pLEO p) [] msgs = Inr pending"
    "disk_wf (pDh p')" "dhWriteCh (pDh p') = []" "pLEO p' = dhAbsoluteOffset (pDh p')"
    "disk_log (pDh p') = disk_log (pDh p) @ map (as_record p) pending"
    "unat (pLEO p') = unat (pLEO p) + length pending"
proof -
  obtain pending dh where st: "stageReplica (pDh p) (pLEO p) (pLEO p) [] msgs = Inr pending"
    and wr: "writeBatchDurably (map (diskMessageFromMessage (pTopic p) (word_of_int (pId p))) pending) None (pDh p) = (None, dh)"
    and p': "pDh p' = dh" "pLEO p' = (if pending = [] then pLEO p else pLEO p + word_of_nat (length pending))"
    using app by (auto simp: ReplicaAppendWithMode_def Let_def NotifyNewMessage_def split: if_splits sum.splits prod.splits option.splits)
  have pend: "map (unat \<circ> mOffset) pending = [unat (pLEO p)..<unat (pLEO p) + length pending]" "length pending \<le> length msgs"
    using stageReplica_pending [OF st] room wf(3) by simp_all
  show ?thesis
  proof (cases "pending = []")
    case True
    with that [OF st] wr p' wf show ?thesis by (simp add: writeBatchDurably_def)
  next
    case False
    let ?batch = "map (diskMessageFromMessage (pTopic p) (word_of_int (pId p))) pending"
    have lt: "unat (pLEO p) + length pending < 2 ^ 64" using pend(2) room wf(3) by simp
    note run = batch_run [OF pend(1) False lt refl, of "pTopic p" "word_of_int (pId p)", unfolded wf(3)]
    have "unat (pLEO p + word_of_nat (length pending)) = unat (pLEO p) + length pending"
      using lt by (simp add: unat_word_ariths unsigned_of_nat take_bit_nat_eq_self)
    moreover have "disk_wf dh \<and> dhWriteCh dh = [] \<and> disk_log dh = disk_log (pDh p) @ map stored ?batch \<and>
        dhAbsoluteOffset dh = dOffset (last ?batch) + 1"
      using WriteBatchSync_log [OF wf(1,2) _ run(1,3), of dh] wr False by (simp add: writeBatchDurably_def)
    ultimately show ?thesis using that [OF st] p' False run(2) wf(3) by (simp add: comp_def)
  qed
qed

lemma ReplicaAppend_refused:
  assumes "ReplicaAppendWithMode now msgs force None p = (Some e, p')"
  shows "p' = p"
  using assms disk_storage.append_refused
  by (auto simp: ReplicaAppendWithMode_def writeBatchDurably_def Let_def split: if_splits sum.splits prod.splits option.splits)


lemma read_single:
  assumes "disk_wf dh" and "ReadMessages offset 1 dh = Inr [existing]"
  shows "existing \<in> set (log_messages dh)"
proof -
  have "GetFirstOffset dh \<le> offset \<and> offset \<le> dhAbsoluteOffset dh"
    using assms(2) by (auto simp: ReadMessages_def findSegmentForOffset_def Let_def not_less split: if_splits)
  with read_messages [OF assms(1), of offset 1] assms(2)
  have "take 1 (filter (\<lambda>m. offset \<le> mOffset m) (log_messages dh)) = [existing]" by simp
  then show ?thesis by (metis in_set_takeD filter_is_subset list.set_intros(1) subsetD)
qed

lemma record_of_message:
  "stored m = m \<Longrightarrow> stored (diskMessageFromMessage (dTopic m) (dPartition m) (messageFromDisk m)) = m"
  by (cases m) (simp add: stored_def diskMessageFromMessage_def messageFromDisk_def slice_bytes_def zeroMessage_def)

lemma dense_nth: "run log 0 n \<Longrightarrow> i < n \<Longrightarrow> off (log ! i) = i \<and> length log = n"
  by (metis diff_zero length_map length_upt nth_map nth_upt add.left_neutral)

lemma next_records:
  assumes leader: "run leader 0 n" and pend: "map (unat \<circ> mOffset) pending = [k..<k + length pending]"
    and from_leader: "\<And>msg. msg \<in> set pending \<Longrightarrow> \<exists>m\<in>set leader. msg = messageFromDisk m"
  shows "pending = map messageFromDisk (take (length pending) (drop k leader))" and "pending \<noteq> [] \<Longrightarrow> k + length pending \<le> n"
proof -
  have at: "k + i < n \<and> pending ! i = messageFromDisk (leader ! (k + i))" if i: "i < length pending" for i
  proof -
    have off: "unat (mOffset (pending ! i)) = k + i" using arg_cong [OF pend, of "\<lambda>xs. xs ! i"] i by simp
    from from_leader [of "pending ! i"] i obtain m where m: "m \<in> set leader" "pending ! i = messageFromDisk m" by auto
    then obtain j where j: "j < length leader" "leader ! j = m" by (auto simp: in_set_conv_nth)
    have "length leader = n" using run_length [OF leader] by simp
    with j dense_nth [OF leader, of j] off m(2) show ?thesis by (simp add: messageFromDisk_def)
  qed
  have n: "length leader = n" using run_length [OF leader] by simp
  show "k + length pending \<le> n" if "pending \<noteq> []" using at [of "length pending - 1"] that by (cases pending) auto
  then show "pending = map messageFromDisk (take (length pending) (drop k leader))"
    using at n by (cases "pending = []") (auto intro!: nth_equalityI)
qed


lemma same_trans: "sameReplicatedMessage a b \<Longrightarrow> sameReplicatedMessage b c \<Longrightarrow> sameReplicatedMessage a c"
  by (simp add: sameReplicatedMessage_def)

lemma request_in_log:
  assumes "disk_wf dh" and "stageReplica dh initialLEO nextOffset [] msgs = Inr pending" and "msg \<in> set msgs"
    and "new = map (\<lambda>m. stored (diskMessageFromMessage topic part m)) pending"
  shows "\<exists>m\<in>set (map messageFromDisk (disk_log dh @ new)). sameReplicatedMessage m msg"
proof -
  obtain m where m: "sameReplicatedMessage m msg" "ReadMessages (mOffset msg) 1 dh = Inr [m] \<or> m \<in> set pending"
    using stageReplica_covers [OF assms(2,3)] by auto
  from m(2) show ?thesis
  proof
    assume "ReadMessages (mOffset msg) 1 dh = Inr [m]"
    from read_single [OF assms(1) this] m(1) show ?thesis by (auto simp: log_messages_def)
  next
    assume "m \<in> set pending"
    then have "messageFromDisk (stored (diskMessageFromMessage topic part m)) \<in> set (map messageFromDisk new)"
      by (auto simp: assms(4))
    with same_trans [OF same_stored m(1)] show ?thesis by auto
  qed
qed

text \<open>A follower of a leader whose log is \<open>leader\<close>: everything is written, and the log is a prefix of the leader's.\<close>

definition follower_of :: "diskMessage list \<Rightarrow> part_state \<Rightarrow> bool" where
  "follower_of leader p \<longleftrightarrow> disk_wf (pDh p) \<and> dhWriteCh (pDh p) = [] \<and> pLEO p = dhAbsoluteOffset (pDh p) \<and>
     disk_log (pDh p) = take (unat (pLEO p)) leader \<and> unat (pLEO p) \<le> length leader"

text \<open>The log of a leader that starts at offset 0 and has no holes, with the topic and partition of \<open>p\<close>.\<close>

definition leader_log :: "diskMessage list \<Rightarrow> part_state \<Rightarrow> bool" where
  "leader_log leader p \<longleftrightarrow> run leader 0 (length leader) \<and> length leader < 2 ^ 64 \<and>
     list_all (\<lambda>m. dTopic m = pTopic p \<and> dPartition m = word_of_int (pId p) \<and> stored m = m) leader"




end
