(* ===== verification/Partition_Transactions.thy ===== *)
theory Partition_Transactions
  imports Partition_Replica
begin

section \<open>Transactions of a partition\<close>

text \<open>
  The transaction index of a partition (\<open>pTxnMarkers\<close>, \<open>pTxnOpenOffsets\<close>) and what a committed read shows of a
  transaction. Every append extends the index by its message; the invariant is that the index is always the one a
  rebuild from the log would give.
\<close>

subsection \<open>The index of a log\<close>

definition index_of ::
  "diskMessage list \<Rightarrow> (transactionMarkerKey, transactionMarkerInfo) gomap \<times> (transactionMarkerKey, u64) gomap" where
  "index_of log = fold visitMarker (map messageFromDisk log) ([], [])"

definition part_index ::
  "part_state \<Rightarrow> (transactionMarkerKey, transactionMarkerInfo) gomap \<times> (transactionMarkerKey, u64) gomap" where
  "part_index p = (pTxnMarkers p, pTxnOpenOffsets p)"

definition txn_inv :: "part_state \<Rightarrow> bool" where
  "txn_inv p \<longleftrightarrow> disk_wf (pDh p) \<and> pLEO p = dhAbsoluteOffset (pDh p) \<and> part_index p = index_of (part_log p)"

lemma index_of_append: "index_of (log @ [m]) = visitMarker (messageFromDisk m) (index_of log)"
  by (simp add: index_of_def)

lemma visit_cong:
  assumes "mTransactionalID a = mTransactionalID b" and "mEpoch a = mEpoch b" and "mOffset a = mOffset b"
    and "mTransactionMarker a = mTransactionMarker b" and "mTransactionState a = mTransactionState b"
  shows "visitMarker a = visitMarker b"
  by (rule ext) (simp only: visitMarker_def noteMarker_def noteOpen_def messageTransactionMarkerKey_def assms cong: option.case_cong)

lemma visit_record: "visitMarker (messageFromDisk (stored (diskMessageFromMessage topic part msg))) = visitMarker msg"
  by (rule visit_cong) (simp_all add: messageFromDisk_def diskMessageFromMessage_def stored_def)

lemma indexed_message: "part_index (indexTransactionMessage msg p) = visitMarker msg (part_index p)"
  by (simp add: part_index_def indexTransactionMessage_def visitMarker_def)

lemma unindexed [simp]:
  "part_index (updateProducerStateWithMode now msg force p) = part_index p"
  "part_index (NotifyNewMessage p) = part_index p" "part_index (p\<lparr>pDh := dh\<rparr>) = part_index p"
  "part_index (p\<lparr>pLEO := leo\<rparr>) = part_index p" "part_index (snd (setHWMLocked hwm p)) = part_index p"
  by (simp_all add: part_index_def updateProducerStateWithMode_def NotifyNewMessage_def setHWMLocked_def)

lemma NotifyNewMessage_txn [simp]: "txn_inv (NotifyNewMessage p) = txn_inv p"
  by (simp add: txn_inv_def part_log_def) (simp add: NotifyNewMessage_def)

lemma noteAppended_index:
  "part_index (noteAppended now force msgs p) = fold visitMarker msgs (part_index p)"
  by (induction msgs arbitrary: p) (simp_all add: noteAppended_Cons indexed_message, simp add: noteAppended_def)

subsection \<open>Appends keep the index\<close>

lemma recordAppended_txn:
  assumes "txn_inv p" and "disk_wf dh" "dhAbsoluteOffset dh = offset + 1"
    and "part_log (p\<lparr>pDh := dh\<rparr>) = part_log p @ [as_record p (msg\<lparr>mOffset := offset\<rparr>)]"
  shows "txn_inv (recordAppended now force msg offset (p\<lparr>pDh := dh\<rparr>))"
proof -
  let ?q = "recordAppended now force msg offset (p\<lparr>pDh := dh\<rparr>)"
  have "pLEO ?q = offset + 1" "pDh ?q = dh" by (simp_all add: recordAppended_def setHWMLocked_def Let_def)
  moreover have "part_index ?q = visitMarker (msg\<lparr>mOffset := offset\<rparr>) (part_index p)"
    by (simp add: recordAppended_def Let_def indexed_message)
  moreover have "part_log ?q = part_log (p\<lparr>pDh := dh\<rparr>)" by (simp add: part_log_def)
  ultimately show ?thesis using assms by (simp add: txn_inv_def index_of_append visit_record)
qed

lemma queued_append_txn:
  assumes "txn_inv p" and "room p 1" and "AppendMessage (pTopic p) (pId p) msg accepted (pDh p) = (Inr offset, dh)"
  shows "txn_inv (recordAppended now force msg offset (p\<lparr>pDh := dh\<rparr>)) \<and>
    unat (dhAbsoluteOffset dh) = unat (dhAbsoluteOffset (pDh p)) + 1"
proof -
  note succ = room_succ [OF assms(2)]
  have wf: "disk_wf (pDh p)" using assms(1) by (simp add: txn_inv_def)
  from AppendMessage_log [OF wf conjunct1 [OF succ] assms(3)] assms(1) succ show ?thesis
    by (auto intro!: recordAppended_txn simp: part_log_def)
qed

lemma synced_append_txn:
  assumes "txn_inv p" and "room p 1" and "written p" and "AppendMessageSync (pTopic p) (pId p) msg None (pDh p) = (Inr offset, dh)"
  shows "txn_inv (recordAppended now force msg offset (p\<lparr>pDh := dh\<rparr>)) \<and> dhWriteCh dh = [] \<and>
    unat (dhAbsoluteOffset dh) = unat (dhAbsoluteOffset (pDh p)) + 1"
proof -
  note succ = room_succ [OF assms(2)]
  have wf: "disk_wf (pDh p)" using assms(1) by (simp add: txn_inv_def)
  from AppendMessageSync_log [OF wf assms(3) conjunct1 [OF succ] assms(4)] assms(1,3) succ show ?thesis
    by (auto intro!: recordAppended_txn simp: part_log_def)
qed


lemma Enqueue_txn:
  assumes "txn_inv p" and "room p 1" and "Enqueue now msg accepted p = (err, p')"
  shows "txn_inv p'"
  using assms queued_append_txn [OF assms(1,2)]
  by (auto simp: Enqueue_def dest: AppendMessage_error split: if_splits sum.splits bool.splits prod.splits)

lemma enqueueSync_txn:
  assumes "txn_inv p" and "room p 1" and "written p" and "enqueueSync now msg force None p = (err, p')"
  shows "txn_inv p'"
  using assms synced_append_txn [OF assms(1-3)]
  by (auto simp: enqueueSync_def dest: AppendMessageSync_error split: if_splits sum.splits bool.splits prod.splits)

lemma batchLoop_txn:
  assumes "txn_inv p" and "room p (length msgs)" and "batchLoop now accepted msgs p = (err, out, p')"
  shows "txn_inv p'"
  using assms
proof (induction msgs arbitrary: accepted p out)
  case (Cons msg msgs)
  have room: "room p 1" using Cons.prems(2) by simp
  show ?case
    using Cons.prems Cons.IH [of p "tl accepted"] queued_append_txn [OF Cons.prems(1) room, of msg "accepted = [] \<or> hd accepted" _ _ now False] Cons.IH [of _ "tl accepted"]
    by (auto dest: AppendMessage_error split: sum.splits bool.splits prod.splits)
qed auto

lemma batchSyncLoop_txn:
  assumes "txn_inv p" and "room p (length msgs)" and "written p" and "batchSyncLoop now force [] msgs p = (err, out, p')"
  shows "txn_inv p'"
  using assms
proof (induction msgs arbitrary: p out)
  case (Cons msg msgs)
  have room: "room p 1" using Cons.prems(2) by simp
  show ?case
    using Cons.prems Cons.IH [of p] synced_append_txn [OF Cons.prems(1) room Cons.prems(3), of msg _ _ now force] Cons.IH
    by (auto dest: AppendMessageSync_error split: sum.splits bool.splits prod.splits)
qed auto

lemma batch_txn:
  assumes "txn_inv p" and "written p" and wr: "writeBatchDurably batch None (pDh p) = (None, dh)"
    and batch: "batch = map (diskMessageFromMessage (pTopic p) (word_of_int (pId p))) pending"
    and offs: "map (unat \<circ> mOffset) pending = [unat (pLEO p)..<unat (pLEO p) + length pending]"
    and room: "unat (pLEO p) + length pending < 2 ^ 64"
  shows "txn_inv ((noteAppended now force pending (p\<lparr>pDh := dh\<rparr>))\<lparr>pLEO := pLEO p + word_of_nat (length pending)\<rparr>)"
proof (cases "pending = []")
  case True
  with assms show ?thesis by (auto simp: writeBatchDurably_def noteAppended_def txn_inv_def part_log_def)
next
  case False
  have wf: "disk_wf (pDh p)" "pLEO p = dhAbsoluteOffset (pDh p)" using assms(1) by (simp_all add: txn_inv_def)
  note run = batch_run [OF offs False room batch, unfolded wf(2)]
  have w: "disk_wf dh" "dhWriteCh dh = []" "disk_log dh = disk_log (pDh p) @ map stored batch"
    "dhAbsoluteOffset dh = dOffset (last batch) + 1"
    using WriteBatchSync_log [OF wf(1) assms(2) _ run(1,3), of dh] wr False by (simp_all add: writeBatchDurably_def batch)
  have "fold visitMarker pending (index_of log) = index_of (log @ map stored batch)" for log
    by (simp add: index_of_def batch comp_def fold_map visit_record)
  with assms(1,2) w run(2) wf(2) show ?thesis by (simp add: txn_inv_def part_log_def noteAppended_index)
qed


lemma EnqueueBatchLeader_txn:
  assumes inv: "txn_inv p" and "room p (length msgs)" and "written p"
    and batch: "EnqueueBatchLeaderWithMode now msgs forceIdempotent None p = (err, out, p')"
  shows "txn_inv p'"
proof -
  let ?force = "forceIdempotent \<or> batchHasTransactionalMessages msgs"
  obtain serr staged where st: "stageLeader ?force (pLEO p) [] msgs p = (serr, staged)" by (cases "stageLeader ?force (pLEO p) [] msgs p")
  define pending where "pending = map snd (filter fst staged)"
  let ?batch = "map (diskMessageFromMessage (pTopic p) (word_of_int (pId p))) pending"
  obtain werr dh where wr: "writeBatchDurably ?batch None (pDh p) = (werr, dh)" by (cases "writeBatchDurably ?batch None (pDh p)")
  have "p' \<in> {p, NotifyNewMessage p} \<or> serr = None \<and>
    p' = NotifyNewMessage (if werr = None then (noteAppended now (\<lambda>_. ?force) pending (p\<lparr>pDh := dh\<rparr>))
        \<lparr>pLEO := pLEO p + word_of_nat (length pending)\<rparr> else p\<lparr>pDh := dh\<rparr>)"
    using batch wr
    unfolding EnqueueBatchLeaderWithMode_def Let_def st prod.case pending_def [symmetric]
    by (auto split: option.splits if_splits)
  then consider "p' \<in> {p, NotifyNewMessage p}" | e where "werr = Some e" "p' = NotifyNewMessage (p\<lparr>pDh := dh\<rparr>)"
    | "serr = None" "werr = None" "p' = NotifyNewMessage ((noteAppended now (\<lambda>_. ?force) pending (p\<lparr>pDh := dh\<rparr>))
        \<lparr>pLEO := pLEO p + word_of_nat (length pending)\<rparr>)" by (auto split: if_splits)
  then show ?thesis
  proof cases
    case 2
    with wr disk_storage.append_refused have "dh = pDh p" by (auto simp: writeBatchDurably_def split: if_splits)
    with 2 inv show ?thesis by simp
  next
    case 3
    then have "map (unat \<circ> mOffset) pending = [unat (pLEO p)..<unat (pLEO p) + length pending]" "length pending \<le> length msgs"
      using stageLeader_offsets [of ?force "pLEO p" "[]" msgs p staged] st assms(2) inv by (simp_all add: pending_def txn_inv_def)
    moreover have "unat (pLEO p) + length msgs < 2 ^ 64" using assms(2) inv by (simp add: txn_inv_def)
    ultimately show ?thesis using batch_txn [OF inv assms(3) _ refl, of pending dh now "\<lambda>_. ?force"] wr 3 by simp
  qed (use inv in auto)
qed

lemma ReplicaAppend_txn:
  assumes inv: "txn_inv p" and "room p (length msgs)" and "written p" and app: "ReplicaAppendWithMode now msgs force None p = (err, p')"
  shows "txn_inv p'"
proof (cases err)
  case (Some e)
  with app ReplicaAppend_refused inv show ?thesis by blast
next
  case None
  let ?force = "\<lambda>msg. force \<or> mTransactionalID msg \<noteq> []"
  obtain pending dh where st: "stageReplica (pDh p) (pLEO p) (pLEO p) [] msgs = Inr pending"
    and wr: "writeBatchDurably (map (diskMessageFromMessage (pTopic p) (word_of_int (pId p))) pending) None (pDh p) = (None, dh)"
    and p': "p' = (let q = noteAppended now ?force pending (p\<lparr>pDh := dh\<rparr>)
        in if pending = [] then q else NotifyNewMessage (q\<lparr>pLEO := pLEO p + word_of_nat (length pending)\<rparr>))"
    using app None by (auto simp: ReplicaAppendWithMode_def Let_def split: if_splits sum.splits prod.splits option.splits)
  have "map (unat \<circ> mOffset) pending = [unat (pLEO p)..<unat (pLEO p) + length pending]" "length pending \<le> length msgs"
    using stageReplica_pending [OF st] assms(2) inv by (simp_all add: txn_inv_def)
  then have b: "txn_inv ((noteAppended now ?force pending (p\<lparr>pDh := dh\<rparr>))\<lparr>pLEO := pLEO p + word_of_nat (length pending)\<rparr>)"
    using assms(2) inv by (intro batch_txn [OF inv assms(3) wr refl]) (simp_all add: txn_inv_def)
  show ?thesis
  proof (cases "pending = []")
    case True
    then have "p' = p" using wr p' by (simp add: writeBatchDurably_def noteAppended_def)
    with inv show ?thesis by simp
  qed (use b p' in simp)
qed


subsection \<open>Maintenance keeps the index\<close>

lemma visit_plain: "mTransactionalID msg = [] \<Longrightarrow> visitMarker msg idx = idx"
  by (simp add: visitMarker_def)

lemma index_of_filter:
  assumes "\<And>m. m \<in> set log \<Longrightarrow> \<not> P m \<Longrightarrow> dTransactionalID m = []"
  shows "index_of (filter P log @ rest) = index_of (log @ rest)"
proof -
  have "fold visitMarker (map messageFromDisk (filter P log)) idx = fold visitMarker (map messageFromDisk log) idx" for idx
    using assms by (induction log arbitrary: idx) (simp_all add: visit_plain messageFromDisk_def)
  then show ?thesis by (simp add: index_of_def)
qed

lemma flush_txn:
  assumes "txn_inv p"
  shows "txn_inv (p\<lparr>pDh := flushQueue n None (pDh p)\<rparr>)" and "txn_inv (FlushDisk None p)"
proof -
  have wf: "disk_wf (pDh p)" using assms by (simp add: txn_inv_def)
  show "txn_inv (p\<lparr>pDh := flushQueue n None (pDh p)\<rparr>)"
    using assms flushQueue_log [OF wf, of n] by (simp add: txn_inv_def part_log_def flip: map_append)
  show "txn_inv (FlushDisk None p)"
    using assms Flush_log [OF wf]
    by (simp add: FlushDisk_def persistHWMCheckpoint_def persistProducerStateCheckpoint_def txn_inv_def part_log_def part_index_def)
qed

lemma compaction_txn:
  assumes "txn_inv p" and "EnforceCompaction allowed dirtyEnough (pDh p) = (err, dh)"
  shows "txn_inv (p\<lparr>pDh := dh\<rparr>)"
proof -
  from assms(1) obtain cs ms where rep: "disk_rep (pDh p) cs ms" by (auto simp: txn_inv_def disk_wf_def)
  let ?closed = "concat (map snd cs)"
  from EnforceCompaction_rep [OF rep assms(2)] consider "dh = pDh p"
    | "disk_rep dh (map (\<lambda>s. (fst s, filter (kept (latest_of ?closed)) (snd s))) cs) ms"
      "dhAbsoluteOffset dh = dhAbsoluteOffset (pDh p)" "dhWriteCh dh = dhWriteCh (pDh p)" by blast
  then show ?thesis
  proof cases
    case 2
    have log: "disk_log dh = filter (kept (latest_of ?closed)) ?closed @ ms"
      using disk_log_rep [OF 2(1)] by (simp add: filter_concat comp_def)
    have "dTransactionalID m = []" if "\<not> kept (latest_of ?closed) m" for m
      using that by (auto simp: kept_def shouldRemoveCompactionRecord_def isOrdinaryKeyedRecord_def hasTransactionMetadata_def
          split: if_splits)
    from index_of_filter [of ?closed "kept (latest_of ?closed)" "ms @ map stored (dhWriteCh (pDh p))"] this
    have "index_of (part_log (p\<lparr>pDh := dh\<rparr>)) = index_of (part_log p)"
      using 2(3) disk_log_rep [OF rep] log by (simp add: part_log_def)
    moreover have "disk_wf dh" using 2(1) by (auto simp: disk_wf_def)
    ultimately show ?thesis using assms(1) 2(2) by (simp add: txn_inv_def)
  qed (use assms(1) in simp)
qed

lemma openPartition_txn:
  assumes "disk_wf dh" and "dhWriteCh dh = []" and "openPartition now partitionID topic idempotent dh saved = Some p"
  shows "txn_inv p"
proof -
  obtain q where q: "NewPartition now partitionID topic dh saved = Some q"
    and rec: "RecoverProducerStateFromLog now (q\<lparr>pIsIdempotent := idempotent\<rparr>) = Some p"
    using assms(3) by (auto simp: openPartition_def split: option.splits)
  from q obtain r where r: "rebuildTransactionMarkerIndex r = Some q" "pDh r = dh" "pLEO r = dhAbsoluteOffset dh"
    "pTxnMarkers r = []" "pTxnOpenOffsets r = []"
    by (auto simp: NewPartition_def Let_def loadProducerStateCheckpoint_def split: option.splits)
  have "disk_wf (pDh r)" using assms(1) r(2) by simp
  then obtain ms os fl where
    "rebuildTransactionMarkerIndex r = Some (r\<lparr>pTxnMarkers := ms, pTxnOpenOffsets := os, pTxnRetentionFloor := fl\<rparr>)"
    "(ms, os) = fold visitMarker (log_messages (pDh r)) ([], [])"
    using r(4,5) by (rule rebuild_from_empty)
  with r have "txn_inv q" using assms(1,2) by (auto simp: txn_inv_def part_index_def index_of_def part_log_def log_messages_def)
  moreover have "pDh p = pDh q" "pLEO p = pLEO q" "part_index p = part_index q"
    using rec by (auto simp: RecoverProducerStateFromLog_def Let_def part_index_def split: if_splits)
  ultimately show ?thesis by (simp add: txn_inv_def part_log_def)
qed

lemma watermark_txn:
  assumes "txn_inv p"
  shows "txn_inv (SetHWM hwm p)" and "txn_inv (AdvanceHWM p)" and "ApplyReplicaHWM hwm p = (err, p') \<Longrightarrow> txn_inv p'"
  using assms
  by (auto simp: SetHWM_def AdvanceHWM_def ApplyReplicaHWM_def setHWMLocked_def txn_inv_def part_index_def part_log_def
      NotifyNewMessage_def split: if_splits)

lemma reconcile_txn:
  assumes inv: "txn_inv p" and "dense_log (pDh p)" and "GetFirstOffset (pDh p) \<le> hwm"
    and rec: "ReconcileCommittedHWM now hwm False None p = Some (err, p')"
  shows "txn_inv p'"
proof (cases "pSnapshotRecovery p \<or> \<not> hwm < pLEO p")
  case True
  with inv rec show ?thesis
    by (auto simp: ReconcileCommittedHWM_def reconcileCommittedHWMLocked_def Let_def txn_inv_def part_index_def part_log_def
        split: if_splits)
next
  case False
  have leo: "pLEO p = dhAbsoluteOffset (pDh p)" using inv by (simp add: txn_inv_def)
  from False cut_back [OF assms(2) leo assms(3), of now] rec
  have "disk_wf (pDh p')" "dhWriteCh (pDh p') = []" "dhAbsoluteOffset (pDh p') = hwm" "pLEO p' = hwm"
    "(pTxnMarkers p', pTxnOpenOffsets p') = fold visitMarker (log_messages (pDh p')) ([], [])"
    by (auto simp: ReconcileCommittedHWM_def)
  then show ?thesis by (simp add: txn_inv_def part_index_def index_of_def part_log_def log_messages_def)
qed

subsection \<open>What the index says of the log\<close>

lemma mput_set: "set (mput k v m) \<subseteq> insert (k, v) (set m)"
  by (induction m) (auto simp: mput_def)

lemma index_marker:
  assumes "(key, info) \<in> set (fst (index_of log))"
  shows "\<exists>m\<in>set log. (dTransactionalID m, dEpoch m) = key \<and> dTransactionMarker m = tmMarker info \<and> dOffset m = tmOffset info"
  using assms
proof (induction log rule: rev_induct)
  case (snoc m log)
  have m: "mTransactionalID (messageFromDisk m) = dTransactionalID m" "mEpoch (messageFromDisk m) = dEpoch m"
    "mTransactionMarker (messageFromDisk m) = dTransactionMarker m" "mOffset (messageFromDisk m) = dOffset m"
    by (simp_all add: messageFromDisk_def)
  have "set (noteMarker (messageFromDisk m) ms) \<subseteq>
      insert ((dTransactionalID m, dEpoch m), \<lparr>tmMarker = dTransactionMarker m, tmOffset = dOffset m\<rparr>) (set ms)" for ms
    by (auto simp: noteMarker_def messageTransactionMarkerKey_def m Let_def dest!: subsetD [OF mput_set])
  with snoc.prems consider "(key, info) \<in> set (fst (index_of log))"
    | "(dTransactionalID m, dEpoch m) = key" "dTransactionMarker m = tmMarker info" "dOffset m = tmOffset info"
    by (fastforce simp: index_of_append visitMarker_def split: if_splits)
  then show ?case using snoc.IH by cases auto
qed (simp add: index_of_def)

lemma part_log_offsets:
  assumes "disk_wf (pDh p)" and "m \<in> set (part_log p)"
  shows "GetFirstOffset (pDh p) \<le> dOffset m" and "dOffset m < dhFlushedOffset (pDh p) \<Longrightarrow> m \<in> set (disk_log (pDh p))"
proof -
  from assms(1) obtain cs ms where rep: "disk_rep (pDh p) cs ms" by (auto simp: disk_wf_def)
  have "dhFlushedOffset (pDh p) \<le> dOffset q" if "q \<in> set (dhWriteCh (pDh p))" for q
    using rep run_bounds [of "dhWriteCh (pDh p)" "unat (dhFlushedOffset (pDh p))" "unat (dhAbsoluteOffset (pDh p))"] that
    by (auto simp: disk_rep_def word_le_nat_alt)
  with assms disk_log_order [OF assms(1)]
  show "GetFirstOffset (pDh p) \<le> dOffset m" "dOffset m < dhFlushedOffset (pDh p) \<Longrightarrow> m \<in> set (disk_log (pDh p))"
    by (auto simp: part_log_def leD intro: order.trans)
qed

lemma txn_markers: "txn_inv p \<Longrightarrow> pTxnMarkers p = fst (index_of (part_log p))"
  unfolding txn_inv_def part_index_def by (metis fst_conv)

lemma prune_same:
  assumes "txn_inv p"
  obtains fl where "pruneTransactionIndex (GetFirstOffset (pDh p)) p = p\<lparr>pTxnRetentionFloor := fl\<rparr>"
proof (cases "GetFirstOffset (pDh p) \<le> pTxnRetentionFloor p")
  case True
  then show ?thesis by (intro that [of "pTxnRetentionFloor p"]) (simp add: pruneTransactionIndex_def)
next
  case False
  have "GetFirstOffset (pDh p) \<le> tmOffset (snd e)" if e: "e \<in> set (pTxnMarkers p)" for e
  proof -
    obtain m where "m \<in> set (part_log p)" "dOffset m = tmOffset (snd e)"
      using index_marker [of "fst e" "snd e" "part_log p"] e txn_markers [OF assms] by auto
    then show ?thesis using part_log_offsets(1) [of p m] assms by (simp add: txn_inv_def)
  qed
  then have "filter (\<lambda>e. \<not> tmOffset (snd e) \<ge> GetFirstOffset (pDh p)) (pTxnMarkers p) = []" by (auto simp: filter_empty_conv)
  with False show ?thesis by (intro that [of "GetFirstOffset (pDh p)"]) (simp add: pruneTransactionIndex_def)
qed


subsection \<open>Runs\<close>

text \<open>
  The steps of a partition with transactions, on a storage that does not fail and that keeps its segments: appends of
  every kind, the queue being written, watermarks, committed reads, compaction, promotion, and a crash at any moment
  followed by a restart. Synchronous appends
  happen when the queue is written. Retention is not among the steps: the entries of the records it removes are
  pruned later.
\<close>

inductive txn_log_step :: "part_state \<Rightarrow> part_state \<Rightarrow> bool" where
  "room p 1 \<Longrightarrow> Enqueue now msg accepted p = (err, p') \<Longrightarrow> txn_log_step p p'"
| "room p (length msgs) \<Longrightarrow> EnqueueBatch now msgs takes p = (err, out, p') \<Longrightarrow> txn_log_step p p'"
| "room p 1 \<Longrightarrow> written p \<Longrightarrow> enqueueSync now msg force None p = (err, p') \<Longrightarrow> txn_log_step p p'"
| "room p (length msgs) \<Longrightarrow> written p \<Longrightarrow> EnqueueBatchSyncWithMode now msgs force [] p = (err, out, p') \<Longrightarrow> txn_log_step p p'"
| "room p (length msgs) \<Longrightarrow> written p \<Longrightarrow> EnqueueBatchLeaderWithMode now msgs force None p = (err, out, p') \<Longrightarrow> txn_log_step p p'"
| "room p (length msgs) \<Longrightarrow> written p \<Longrightarrow> ReplicaAppendWithMode now msgs force None p = (err, p') \<Longrightarrow> txn_log_step p p'"
| "txn_log_step p (p\<lparr>pDh := flushQueue n None (pDh p)\<rparr>)"
| "txn_log_step p (FlushDisk None p)"
| "txn_log_step p (SetHWM hwm p)"
| "txn_log_step p (AdvanceHWM p)"
| "ApplyReplicaHWM hwm p = (err, p') \<Longrightarrow> txn_log_step p p'"
| "txn_log_step p (snd (ReadCommitted offset limit resolver p))"
| "EnforceCompaction allowed dirtyEnough (pDh p) = (derr, dh) \<Longrightarrow> txn_log_step p (p\<lparr>pDh := dh\<rparr>)"
| "dense_log (pDh p) \<Longrightarrow> GetFirstOffset (pDh p) \<le> hwm \<Longrightarrow>
     ReconcileCommittedHWM now hwm False None p = Some (err, p') \<Longrightarrow> txn_log_step p p'"
| "newDiskHandler False (crashImage c i (pDh p)) = Inr dh \<Longrightarrow> openPartition now (pId p) (pTopic p) idempotent dh p = Some p' \<Longrightarrow>
     txn_log_step p p'"

lemma read_txn:
  assumes "txn_inv p"
  shows "txn_inv (snd (ReadCommitted offset limit resolver p))"
proof -
  obtain fl where fl: "pruneTransactionIndex (GetFirstOffset (pDh p)) p = p\<lparr>pTxnRetentionFloor := fl\<rparr>"
    using assms by (rule prune_same)
  have "txn_inv (p\<lparr>pTxnRetentionFloor := fl\<rparr>)" using assms by (simp add: txn_inv_def part_index_def part_log_def)
  with assms show ?thesis by (simp add: ReadCommitted_def Let_def fl)
qed

lemma restart_txn:
  assumes "txn_inv p" and "newDiskHandler False (crashImage c i (pDh p)) = Inr dh"
    and "openPartition now partitionID topic idempotent dh saved = Some p'"
  shows "txn_inv p'"
proof -
  from assms(1) obtain cs ms where "disk_rep (pDh p) cs ms" by (auto simp: txn_inv_def disk_wf_def)
  from crash_open [OF this, of c i] assms(2) have "disk_wf dh" "dhWriteCh dh = []" by (auto simp: disk_wf_def)
  then show ?thesis using assms(3) by (rule openPartition_txn)
qed

lemma txn_log_step_inv: "txn_log_step p p' \<Longrightarrow> txn_inv p \<Longrightarrow> txn_inv p'"
proof (induction rule: txn_log_step.induct)
  case (2 p msgs now takes err out p')
  then show ?case by (auto simp: EnqueueBatch_def split: if_splits intro: batchLoop_txn)
next
  case (4 p msgs now force err out p')
  then show ?case by (auto simp: EnqueueBatchSyncWithMode_def split: if_splits intro: batchSyncLoop_txn)
next
  case (15 c i p dh now idempotent p')
  from restart_txn [OF 15(3,1,2)] show ?case .
qed (blast intro: Enqueue_txn enqueueSync_txn EnqueueBatchLeader_txn ReplicaAppend_txn flush_txn watermark_txn read_txn
    compaction_txn reconcile_txn)+

lemma txn_run_inv: "txn_log_step\<^sup>*\<^sup>* p p' \<Longrightarrow> txn_inv p \<Longrightarrow> txn_inv p'"
  by (induction rule: rtranclp_induct) (auto intro: txn_log_step_inv)


subsection \<open>Committed reads and the index\<close>

lemma visible_transaction:
  assumes inv: "txn_inv p" and vis: "isReadCommittedVisible msg (committedTail p) (pTxnMarkers p) resolver"
    and tid: "mTransactionalID msg \<noteq> []"
  shows "\<exists>c\<in>set (log_messages (pDh p)). mTransactionalID c = mTransactionalID msg \<and> mEpoch c = mEpoch msg \<and>
      mTransactionMarker c = TransactionMarkerCommit \<and> mOffset msg < mOffset c \<and> mOffset c < committedTail p"
    and "resolver = Some decide \<Longrightarrow> decide (mTransactionalID msg) (mEpoch msg) \<in> {None, Some TransactionStateCommitted}"
proof -
  obtain info where info: "map_of (pTxnMarkers p) (mTransactionalID msg, mEpoch msg) = Some info"
    "tmOffset info < committedTail p" "mOffset msg < tmOffset info" "tmMarker info = TransactionMarkerCommit"
    "transactionDecisionMatchesMarker (mTransactionalID msg, mEpoch msg) info resolver"
    using vis tid by (auto simp: isReadCommittedVisible_def messageTransactionMarkerKey_def Let_def split: if_splits option.splits)
  from map_of_SomeD [OF info(1)] obtain m where m: "m \<in> set (part_log p)"
    "(dTransactionalID m, dEpoch m) = (mTransactionalID msg, mEpoch msg)" "dTransactionMarker m = tmMarker info" "dOffset m = tmOffset info"
    using index_marker unfolding txn_markers [OF inv] by blast
  have "committedTail p \<le> dhFlushedOffset (pDh p)" by (simp add: committedTail_def not_less)
  with info(2) m(4) have "dOffset m < dhFlushedOffset (pDh p)" by simp
  with part_log_offsets(2) [OF _ m(1)] inv have "m \<in> set (disk_log (pDh p))" by (simp add: txn_inv_def)
  then have "messageFromDisk m \<in> set (log_messages (pDh p))" by (simp add: log_messages_def)
  with m info show "\<exists>c\<in>set (log_messages (pDh p)). mTransactionalID c = mTransactionalID msg \<and> mEpoch c = mEpoch msg \<and>
      mTransactionMarker c = TransactionMarkerCommit \<and> mOffset msg < mOffset c \<and> mOffset c < committedTail p"
    by (intro bexI [of _ "messageFromDisk m"]) (auto simp: messageFromDisk_def)
  show "decide (mTransactionalID msg) (mEpoch msg) \<in> {None, Some TransactionStateCommitted}" if "resolver = Some decide"
    using info(4,5) that
    by (auto simp: transactionDecisionMatchesMarker_def TransactionMarkerCommit_def TransactionMarkerAbort_def split: option.splits)
qed

lemma rebuild_same:
  assumes "txn_inv p" and "written p"
  shows "\<exists>fl. rebuildTransactionMarkerIndex p = Some (p\<lparr>pTxnRetentionFloor := fl\<rparr>)"
proof (cases "dhAbsoluteOffset (pDh p) \<le> GetFirstOffset (pDh p)")
  case True
  then show ?thesis by (intro exI [of _ "pTxnRetentionFloor p"]) (simp add: rebuildTransactionMarkerIndex_def)
next
  case False
  have wf: "disk_wf (pDh p)" using assms(1) by (simp add: txn_inv_def)
  have "fold visitMarker (log_messages (pDh p)) ([], []) = (pTxnMarkers p, pTxnOpenOffsets p)"
    using assms by (simp add: txn_inv_def part_index_def index_of_def part_log_def log_messages_def)
  with False show ?thesis
    by (intro exI [of _ "GetFirstOffset (pDh p)"]) (simp add: rebuildTransactionMarkerIndex_def Let_def scan_all [OF wf])
qed

text \<open>C13: The transaction index that the appends of a partition maintain, across batches, replication, compaction,
  promotion and restarts, is the one that a rebuild from the log gives: rebuilding changes nothing but the floor.
\<close>

theorem transaction_index_matches_log:
  assumes "disk_wf dh" and "dhWriteCh dh = []" and "openPartition now part topic idempotent dh saved = Some p\<^sub>0"
    and "txn_log_step\<^sup>*\<^sup>* p\<^sub>0 p" and "written p"
  shows "\<exists>fl. rebuildTransactionMarkerIndex p = Some (p\<lparr>pTxnRetentionFloor := fl\<rparr>)"
  by (rule rebuild_same [OF txn_run_inv [OF assms(4) openPartition_txn [OF assms(1-3)]] assms(5)])

text \<open>A committed transaction: its record and the commit marker.\<close>

definition txnRecords :: "diskMessage list" where
  "txnRecords = [openRecord\<lparr>dOffset := 0\<rparr>,
     (sampleRecord 1 [] [])\<lparr>dTransactionalID := ''tx'', dTransactionMarker := TransactionMarkerCommit\<rparr>]"

definition txnHandler :: diskHandler where
  "txnHandler = freshHandler\<lparr>dhFiles := [(0, framed txnRecords)], dhCurrentOffset := length (framed txnRecords),
     dhSynced := length (framed txnRecords), dhAbsoluteOffset := 2, dhFlushedOffset := 2\<rparr>"

lemma txnHandler_rep: "disk_rep txnHandler [] txnRecords"
proof -
  have "list_all writable txnRecords"
    by (simp add: txnRecords_def writable_def stored_def storable_def diskLengthsFit_def length_diskLayout EstimateDiskMessageSize_def
        openRecord_def sampleRecord_def zeroDiskMessage_def SafeIntToUint16_def SafeIntToUint32_def slice_bytes_def
        MaxMessageSize_def MaxFramePayload_def TransactionStateOpen_def TransactionMarkerCommit_def)
  moreover have "run txnRecords 0 2" by (simp add: txnRecords_def sampleRecord_def upt_rec)
  ultimately show ?thesis
    by (simp add: txnHandler_def freshHandler_def disk_rep_def active_segment_def segmentFile_def segmentIndex_def mkeys_def mwf_def)
qed

definition txnPartition :: part_state where
  "txnPartition = (holeyPartition [])\<lparr>pDh := txnHandler, pLEO := 2, pHWM := 2, pIsIdempotent := False,
     pProducerDirty := True,
     pTxnMarkers := [((''tx'', 0), \<lparr>tmMarker = TransactionMarkerCommit, tmOffset = 1\<rparr>)], pTxnOpenOffsets := [((''tx'', 0), 0)]\<rparr>"

lemma txnHandler_log: "disk_wf txnHandler" "log_messages txnHandler = map messageFromDisk txnRecords"
  using txnHandler_rep disk_log_rep [OF txnHandler_rep] by (auto simp: disk_wf_def log_messages_def)

lemma txnPartition_opens: "openPartition 0 0 ''orders'' False txnHandler (holeyPartition []) = Some txnPartition"
proof -
  have "fold visitMarker (log_messages txnHandler) ([], []) = (pTxnMarkers txnPartition, pTxnOpenOffsets txnPartition)"
    by (simp add: txnHandler_log txnRecords_def messageFromDisk_def openRecord_def sampleRecord_def zeroDiskMessage_def zeroMessage_def
        visitMarker_def noteMarker_def noteOpen_def messageTransactionMarkerKey_def TransactionMarkerCommit_def
        TransactionMarkerNone_def TransactionStateOpen_def txnPartition_def mput_def)
  moreover have "fold (visitProducer 0) (log_messages txnHandler) [] = []"
    by (simp add: txnHandler_log txnRecords_def messageFromDisk_def openRecord_def sampleRecord_def zeroDiskMessage_def
        zeroMessage_def visitProducer_def)
  moreover have ends: "dhAbsoluteOffset txnHandler = 2" "GetFirstOffset txnHandler = 0"
    by (simp_all add: txnHandler_def freshHandler_def GetFirstOffset_def)
  moreover note scan_all [OF txnHandler_log(1), of visitMarker "([], [])", unfolded ends]
    scan_all [OF txnHandler_log(1), of "visitProducer 0" "[]", unfolded ends]
  ultimately show ?thesis
    by (simp add: openPartition_def NewPartition_def Let_def rebuildTransactionMarkerIndex_def loadProducerStateCheckpoint_def
        RecoverProducerStateFromLog_def holeyPartition_def txnPartition_def)
qed

theorem transaction_index_matches_log_witness:
  "\<exists>fl. rebuildTransactionMarkerIndex txnPartition = Some (txnPartition\<lparr>pTxnRetentionFloor := fl\<rparr>)"
proof -
  have "dhWriteCh txnHandler = []" "written txnPartition" by (simp_all add: txnPartition_def txnHandler_def freshHandler_def)
  then show ?thesis using transaction_index_matches_log [OF txnHandler_log(1) _ txnPartition_opens] by blast
qed

end
