(* ===== verification/Spec2Isabelle.thy ===== *)
theory Spec2Isabelle
  imports Wire_Batch Wire_Frame Wire_Command Txn_Replication Group_Durability Group_Snapshot Partition_Transactions
begin

text \<open>
  \<^bold>\<open>Verification library of the Cursus broker.\<close>

  Cursus is a message broker written in Go. Clients speak a framed binary protocol (\<open>pkg/wire\<close>); a topic has
  partitions (\<open>pkg/topic\<close>), each with an append-only log in segment files (\<open>pkg/disk\<close>); consumer groups share the
  partitions of a topic and commit offsets (\<open>pkg/coordinator\<close>); producers can be idempotent and transactional
  (\<open>pkg/transaction\<close>). A request arrives as a frame, a produced record is validated by its partition against the
  producer's sequence, appended to the disk handler and indexed when it belongs to a transaction; a consumer reads the
  committed part of the log, in which the decisions of the transaction manager hide open and aborted transactions.

  \<^bold>\<open>How the code is modelled.\<close> A Go struct is a record, an enumeration or error value a datatype, and a method
  a function on the state it locks; a mutex makes it one atomic step. Unsigned and signed integers are words, the
  latter compared through \<^const>\<open>sint\<close>, and arithmetic wraps as in Go. Maps are association lists whose order is the
  order in which \<open>range\<close> visits them. \<open>time.Now()\<close>, write errors, timeouts and the outcome of a replicated write are
  arguments. Errors are values of sum or option types, and the state that a failing method leaves is part of its result.

  \<^bold>\<open>The theories.\<close>

  \<^item> \<open>Cursus_Prelude\<close>: integers, byte strings, big-endian coding, maps; the lemmas every component uses.
  \<^item> \<open>Go_Hash\<close>: SHA-256 and hexadecimal coding of the Go library.
  \<^item> \<open>Wire_Binary\<close>, \<open>Wire_Record\<close> (\<open>pkg/wire/record.go\<close>, \<open>io.go\<close>, \<open>message.go\<close>), \<open>Wire_Batch\<close> (\<open>batch.go\<close>),
    \<open>Wire_Frame\<close> (\<open>types.go\<close>, \<open>frame.go\<close>, \<open>compression.go\<close>), \<open>Wire_Command\<close> (\<open>request.go\<close>, \<open>error.go\<close>,
    \<open>negotiation.go\<close>): the protocol. The locale \<open>wire_field\<close> is the contract between the encoder and the decoder of a
    field; records, batches, frames, commands, errors and the handshake decode to what was encoded, decoders accept
    nothing else and stay within their limits, and a damaged payload is refused. The compression libraries are the
    argument \<open>codecs\<close>, with the hypothesis \<open>lossless\<close>.
  \<^item> \<open>Txn_Manager\<close> (\<open>pkg/transaction/manager.go\<close>, \<open>topic_lifecycle.go\<close>): every method of \<open>Manager\<close>, the step relations
    of a coordinator and of a replica, the invariant of the table, fencing of old epochs, finality of decisions and
    expiration. \<open>Txn_Replication\<close>: convergence of replicas, export and import, pruning of deleted topics.
  \<^item> \<open>Group_Metadata\<close>, \<open>Group_Coordinator\<close> (\<open>pkg/coordinator\<close>): groups, membership, range assignment, heartbeats,
    commits and the durable records of the internal topic. \<open>Group_Membership\<close>: the assignment against a reference
    definition. \<open>Group_Invariant\<close>: the coordinator as a transition system with a lifecycle change in flight.
    \<open>Group_Fencing\<close>: generations (locale \<open>fencing\<close>), ownership, committed offsets, sessions. \<open>Group_Recovery\<close>,
    \<open>Group_Durability\<close>: the scan of the internal topic rebuilds the durable state of every reachable coordinator.
    \<open>Group_Snapshot\<close>: export and import.
  \<^item> \<open>Disk_Message\<close> (\<open>util/serialize.go\<close>), \<open>Disk_Segment\<close> (scanners and index of one file), \<open>Disk_Handler\<close>
    (\<open>handler.go\<close>, \<open>flush_common.go\<close>), \<open>Disk_Maintenance\<close> (\<open>truncate.go\<close>, \<open>retention.go\<close>, \<open>compaction.go\<close>,
    \<open>compacted_replication.go\<close>, \<open>newDiskHandler\<close>): the code of \<open>pkg/disk\<close>. \<open>Disk_Log\<close>: the abstraction of the files to
    one log of records and the contract \<open>log_storage\<close> of a storage, interpreted by the disk handler. \<open>Disk_Recovery\<close>,
    \<open>Disk_Compaction\<close>, \<open>Disk_Retention\<close>: what a crash, compaction, retention, truncation and a range of a compacted
    leader do to that log.
  \<^item> \<open>Partition_Log\<close> (\<open>pkg/topic/partition.go\<close>): appends on a standalone broker, a leader and a follower, producer
    sequences, watermarks, the transaction index, committed reads, recovery and promotion. \<open>Partition_Reads\<close>: what
    scans and committed reads return, and the read that never returns. \<open>Partition_Producers\<close>: exactly-once appends of
    idempotent producers over all steps of a partition, and promotion. \<open>Partition_Replica\<close>: the log of a follower is a
    prefix of its leader's. \<open>Partition_Transactions\<close>: the index kept by appends is the index of the log.
  \<^item> This theory: transaction isolation, which spans the transaction manager, the partition and the disk handler.

  \<^bold>\<open>Loops and bounds.\<close> Loops over data are structural recursions or have a termination proof. The scans of a
  partition that read in batches of 1024 messages (\<open>scanLog\<close>, \<open>sequenceLoop\<close>, \<open>committedLoop\<close>) are partial functions whose
  value \<open>None\<close> means that the loop does not end: on a sound log the scans are shown to end; a committed read is shown to
  end when the log has a record just below the last stable offset or none above it, and never to end in the situation
  \<open>stuck_at\<close>. There is no fuel. Hypotheses of the form \<open>unat x + n < 2 ^ 64\<close> say
  that offsets do not run out.

  \<^bold>\<open>Not modelled.\<close>

  \<^item> Sockets, sessions and command dispatch (\<open>pkg/server\<close>, \<open>pkg/controller\<close>, \<open>pkg/stream\<close>, \<open>pkg/protocol\<close>): they parse
    commands and call the operations modelled here; their state is connections and goroutines.
  \<^item> Cluster membership and the replicated state machine (\<open>pkg/cluster\<close>): built on \<open>hashicorp/raft\<close>. The operations that
    the state machine applies to coordinators, transactions and partitions are modelled, its own metadata is not.
  \<^item> Topic metadata, policies and migration of \<open>pkg/topic\<close>, event sourcing (\<open>pkg/eventsource\<close>), configuration, metrics.
  \<^item> The journal that persists transactions (\<open>pkg/transaction/journal.go\<close>) and the runtime that drives a commit.
  \<^item> Of the modelled packages: JSON texts (a payload stands for the value it decodes to), file names, file errors other
    than failing writes, temporary files and the manifests that make a rewrite restartable, reader caches, and the
    client library (\<open>sdk\<close>).
\<close>

section \<open>Transaction isolation\<close>



end
